(* ===== verification/Cnix_Prelude.thy ===== *)
theory Cnix_Prelude
  imports Main "HOL-Library.Word"
begin

unbundle bit_operations_syntax

text \<open>
  Shared vocabulary of the development: the machine integer types of the cnix
  kernel (an i386 kernel written in C, so \<open>int\<close> and \<open>long\<close> are 32 bits wide),
  memory copies between byte buffers, and the lemma collections that carry the
  component proofs.
\<close>

section \<open>Lemma collections\<close>

named_theorems klist_simps \<open>field reads and writes of the list heap\<close>
named_theorems buf_simps \<open>byte buffers: lengths, reads and block copies\<close>
named_theorems errno_simps \<open>the numeric error codes of include/cnix/errno.h\<close>

section \<open>Machine integers\<close>

type_synonym u8 = "8 word"
type_synonym u16 = "16 word"
type_synonym u32 = "32 word"

text \<open>
  A C \<open>int\<close> whose arithmetic cannot overflow in the code is modelled by an
  unbounded \<open>int\<close>; \<open>i32_range\<close> states that a value is representable, so that the
  absence of overflow is itself a theorem where it matters.
\<close>

definition i32_range :: "int \<Rightarrow> bool" where
  "i32_range v \<longleftrightarrow> - (2 ^ 31) \<le> v \<and> v < 2 ^ 31"

section \<open>Failures\<close>

text \<open>
  The kernel has no exceptions. A failed internal check calls \<open>DIE\<close>
  (include/cnix/kernel.h), which prints a message and then stores to address 0,
  a page \<open>paging_init\<close> leaves unmapped, so the processor faults. A store or
  load outside a buffer is undefined behaviour; the model reports it as \<open>Overrun\<close>
  so that its absence can be proved. \<open>Inl\<close> is such a failure, \<open>Inr\<close> a result.
\<close>

datatype kpanic = DIE | Overrun

type_synonym 'a kres = "kpanic + 'a"

definition kbind :: "'a kres \<Rightarrow> ('a \<Rightarrow> 'b kres) \<Rightarrow> 'b kres" where
  "kbind m f = (case m of Inl e \<Rightarrow> Inl e | Inr x \<Rightarrow> f x)"

lemma kbind_Inl [simp]: "kbind (Inl e) f = Inl e"
  by (simp add: kbind_def)

lemma kbind_Inr [simp]: "kbind (Inr x) f = f x"
  by (simp add: kbind_def)

lemma kbind_eq_Inr [simp]: "kbind m f = Inr y \<longleftrightarrow> (\<exists>x. m = Inr x \<and> f x = Inr y)"
  by (cases m) auto

section \<open>Error codes\<close>

text \<open>The error numbers of \<open>include/cnix/errno.h\<close> that the modelled code returns, negated.\<close>

definition EPERM :: int where [errno_simps]: "EPERM = 1"
definition ENOENT :: int where [errno_simps]: "ENOENT = 2"
definition EINTR :: int where [errno_simps]: "EINTR = 4"
definition EIO :: int where [errno_simps]: "EIO = 5"
definition EAGAIN :: int where [errno_simps]: "EAGAIN = 11"
definition ENOMEM :: int where [errno_simps]: "ENOMEM = 12"
definition EEXIST :: int where [errno_simps]: "EEXIST = 17"
definition EINVAL :: int where [errno_simps]: "EINVAL = 22"

section \<open>Block copies\<close>

text \<open>
  \<open>memcpy (&dst[off], src, n)\<close> for byte buffers that are lists: the \<open>n\<close> cells
  of \<open>dst\<close> from \<open>off\<close> on are replaced by the first \<open>n\<close> cells of \<open>src\<close>.
\<close>

definition memcpy_at :: "'b list \<Rightarrow> nat \<Rightarrow> 'b list \<Rightarrow> nat \<Rightarrow> 'b list" where
  "memcpy_at dst off src n = take off dst @ take n src @ drop (off + n) dst"

lemma length_memcpy_at [buf_simps]:
  "off + n \<le> length dst \<Longrightarrow> n \<le> length src \<Longrightarrow> length (memcpy_at dst off src n) = length dst"
  by (simp add: memcpy_at_def)

lemma nth_memcpy_at [buf_simps]:
  assumes "off + n \<le> length dst" and "n \<le> length src" and "i < length dst"
  shows "memcpy_at dst off src n ! i =
    (if off \<le> i \<and> i < off + n then src ! (i - off) else dst ! i)"
proof (cases "i < off")
  case True
  with assms show ?thesis by (simp add: memcpy_at_def nth_append)
next
  case False
  with assms show ?thesis by (auto simp: memcpy_at_def nth_append)
qed

text \<open>
  The checked copy: a negative count makes \<open>kmemcpy\<close> run over the whole address
  space, and a range that leaves either buffer is an overrun.
\<close>

definition kmemcpy :: "'b list \<Rightarrow> int \<Rightarrow> 'b list \<Rightarrow> int \<Rightarrow> 'b list kres" where
  "kmemcpy dst off src n =
     (if 0 \<le> off \<and> 0 \<le> n \<and> off + n \<le> int (length dst) \<and> n \<le> int (length src)
      then Inr (memcpy_at dst (nat off) src (nat n)) else Inl Overrun)"

lemma kmemcpy_ok [buf_simps]:
  "0 \<le> off \<Longrightarrow> 0 \<le> n \<Longrightarrow> off + n \<le> int (length dst) \<Longrightarrow> n \<le> int (length src) \<Longrightarrow>
     kmemcpy dst off src n = Inr (memcpy_at dst (nat off) src (nat n))"
  by (simp add: kmemcpy_def)

lemma memcpy_at_0 [simp]: "memcpy_at dst off src 0 = dst"
  by (simp add: memcpy_at_def)

section \<open>Lists\<close>

text \<open>A list is determined by its length and its cells.\<close>

lemma map_nth_upt_eq:
  "n = length xs \<Longrightarrow> (\<And>i. i < n \<Longrightarrow> f i = xs ! i) \<Longrightarrow> map f [0..<n] = xs"
  by (rule nth_equalityI) auto

lemma map_nth_append_upt:
  assumes "length xs = m" and "length ys = k"
    and "\<And>i. i < m \<Longrightarrow> f i = xs ! i" and "\<And>i. i < k \<Longrightarrow> f (m + i) = ys ! i"
  shows "map f [0..<m + k] = xs @ ys"
  by (rule nth_equalityI) (use assms in \<open>auto simp: nth_append not_less le_iff_add\<close>)

text \<open>
  The outcome of one pass through code that may go to sleep: \<open>Sleeps\<close> when the
  process is put on a wait queue (it starts over when it is woken), \<open>Done\<close> with
  the result and whether sleeping processes were woken.
\<close>

datatype 'a outcome = Sleeps | Done 'a bool

end
