(* ===== verification/Klist.thy ===== *)
theory Klist
  imports Cnix_Prelude
begin

text \<open>
  The intrusive doubly linked lists of \<open>include/cnix/list.h\<close>. Every list node
  is an address; the heap gives the \<open>prev\<close> and \<open>next\<close> fields of every address. A
  list is a head node and the ring of nodes reached from it. The operations are
  the C assignments in their order; \<open>is_klist\<close> says which sequence of nodes a head
  represents, and the lemmas show that each operation does to that sequence what
  its name says, and nothing to the lists it does not touch.
\<close>

section \<open>The heap of list nodes and the operations on it\<close>

record 'a lheap =
  lprev :: "'a \<Rightarrow> 'a"
  lnext :: "'a \<Rightarrow> 'a"

definition set_prev :: "'a \<Rightarrow> 'a \<Rightarrow> 'a lheap \<Rightarrow> 'a lheap" where
  "set_prev a b h = h\<lparr>lprev := (lprev h)(a := b)\<rparr>"

definition set_next :: "'a \<Rightarrow> 'a \<Rightarrow> 'a lheap \<Rightarrow> 'a lheap" where
  "set_next a b h = h\<lparr>lnext := (lnext h)(a := b)\<rparr>"

definition list_head_init :: "'a \<Rightarrow> 'a lheap \<Rightarrow> 'a lheap" where
  "list_head_init list h = set_prev list list (set_next list list h)"

definition list_init :: "'a \<Rightarrow> 'a lheap \<Rightarrow> 'a lheap" where
  "list_init list h = set_prev list list (set_next list list h)"

definition list_empty :: "'a \<Rightarrow> 'a lheap \<Rightarrow> bool" where
  "list_empty list h \<longleftrightarrow> lprev h list = list"

definition list_add_head :: "'a \<Rightarrow> 'a \<Rightarrow> 'a lheap \<Rightarrow> 'a lheap" where
  "list_add_head list n h0 =
     (let h1 = set_next n (lnext h0 list) h0;
          h2 = set_prev (lnext h1 list) n h1;
          h3 = set_next list n h2
      in set_prev n list h3)"

definition list_add_tail :: "'a \<Rightarrow> 'a \<Rightarrow> 'a lheap \<Rightarrow> 'a lheap" where
  "list_add_tail list n h0 =
     (let h1 = set_prev n (lprev h0 list) h0;
          h2 = set_next (lprev h1 list) n h1;
          h3 = set_next n list h2
      in set_prev list n h3)"

definition list_del :: "'a \<Rightarrow> 'a lheap \<Rightarrow> 'a lheap" where
  "list_del e h0 =
     (let h1 = set_next (lprev h0 e) (lnext h0 e) h0
      in set_prev (lnext h1 e) (lprev h1 e) h1)"

definition list_del1 :: "'a \<Rightarrow> 'a lheap \<Rightarrow> 'a lheap" where
  "list_del1 e h0 =
     (let h1 = set_next (lprev h0 e) (lnext h0 e) h0;
          h2 = set_prev (lnext h1 e) (lprev h1 e) h1
      in set_prev e e (set_next e e h2))"

definition list_insert :: "'a \<Rightarrow> 'a \<Rightarrow> 'a lheap \<Rightarrow> 'a lheap" where
  "list_insert t n h0 =
     (let h1 = set_prev n t h0;
          h2 = set_next n (lnext h1 t) h1;
          h3 = set_prev (lnext h2 t) n h2
      in set_next t n h3)"

text \<open>
  The traversal macros. \<open>list_foreach\<close> reads the successor \<open>pos\<close> before it runs
  the body on \<open>tmp\<close>, so the body may unlink \<open>tmp\<close>. The body is a function on the
  heap and the rest of the state; a ring that never comes back to its head makes
  the loop run for ever, which is the result \<open>None\<close>.
\<close>

partial_function (option) list_foreach_loop ::
  "('a \<Rightarrow> 'a lheap \<times> 's \<Rightarrow> 'a lheap \<times> 's) \<Rightarrow> 'a \<Rightarrow> 'a \<Rightarrow> 'a \<Rightarrow> 'a lheap \<times> 's
     \<Rightarrow> ('a lheap \<times> 's) option" where
  "list_foreach_loop body list tmp pos st =
     (if tmp = list then Some st
      else let st' = body tmp st in list_foreach_loop body list pos (lnext (fst st') pos) st')"

definition list_foreach ::
  "('a \<Rightarrow> 'a lheap \<times> 's \<Rightarrow> 'a lheap \<times> 's) \<Rightarrow> 'a \<Rightarrow> 'a lheap \<times> 's
     \<Rightarrow> ('a lheap \<times> 's) option" where
  "list_foreach body list st =
     (let tmp = lnext (fst st) list
      in list_foreach_loop body list tmp (lnext (fst st) tmp) st)"

partial_function (option) list_foreach_quick_loop ::
  "('a \<Rightarrow> 'a lheap \<times> 's \<Rightarrow> 'a lheap \<times> 's) \<Rightarrow> 'a \<Rightarrow> 'a \<Rightarrow> 'a lheap \<times> 's
     \<Rightarrow> ('a lheap \<times> 's) option" where
  "list_foreach_quick_loop body head pos st =
     (if pos = head then Some st
      else let st' = body pos st in list_foreach_quick_loop body head (lnext (fst st') pos) st')"

definition list_foreach_quick ::
  "('a \<Rightarrow> 'a lheap \<times> 's \<Rightarrow> 'a lheap \<times> 's) \<Rightarrow> 'a \<Rightarrow> 'a lheap \<times> 's
     \<Rightarrow> ('a lheap \<times> 's) option" where
  "list_foreach_quick body head st = list_foreach_quick_loop body head (lnext (fst st) head) st"

section \<open>What a head node represents\<close>

text \<open>
  \<open>linked h a xs b\<close>: following \<open>next\<close> from \<open>a\<close> leads through \<open>xs\<close> to \<open>b\<close>,
  and every \<open>prev\<close> field on the way points back.
\<close>

fun linked :: "'a lheap \<Rightarrow> 'a \<Rightarrow> 'a list \<Rightarrow> 'a \<Rightarrow> bool" where
  "linked h a [] b \<longleftrightarrow> lnext h a = b \<and> lprev h b = a"
| "linked h a (x # xs) b \<longleftrightarrow> lnext h a = x \<and> lprev h x = a \<and> linked h x xs b"

definition is_klist :: "'a lheap \<Rightarrow> 'a \<Rightarrow> 'a list \<Rightarrow> bool" where
  "is_klist h l xs \<longleftrightarrow> distinct (l # xs) \<and> linked h l xs l"

section \<open>Reads after writes\<close>

lemma lprev_set_prev [klist_simps]: "lprev (set_prev a b h) c = (if c = a then b else lprev h c)"
  by (simp add: set_prev_def)

lemma lnext_set_prev [klist_simps]: "lnext (set_prev a b h) = lnext h"
  by (simp add: set_prev_def)

lemma lnext_set_next [klist_simps]: "lnext (set_next a b h) c = (if c = a then b else lnext h c)"
  by (simp add: set_next_def)

lemma lprev_set_next [klist_simps]: "lprev (set_next a b h) = lprev h"
  by (simp add: set_next_def)

lemmas klist_ops = list_init_def list_head_init_def list_add_head_def list_add_tail_def
  list_del_def list_del1_def list_insert_def Let_def

lemma linked_append:
  "linked h a (xs @ x # ys) b \<longleftrightarrow> linked h a xs x \<and> linked h x ys b"
  by (induction xs arbitrary: a) auto

text \<open>
  A path depends only on the \<open>next\<close> fields of its nodes but the last one and the
  \<open>prev\<close> fields of its nodes but the first one.
\<close>

lemma linked_cong:
  assumes "linked h a xs b"
    and "\<And>c. c \<in> insert a (set xs) \<Longrightarrow> lnext h' c = lnext h c"
    and "\<And>c. c \<in> insert b (set xs) \<Longrightarrow> lprev h' c = lprev h c"
  shows "linked h' a xs b"
  using assms by (induction xs arbitrary: a) auto

lemma linked_fst: "linked h a xs b \<Longrightarrow> lnext h a = hd (xs @ [b])"
  by (cases xs) auto

lemma linked_lst: "linked h a xs b \<Longrightarrow> lprev h b = last (a # xs)"
  by (induction xs arbitrary: a) auto

lemma linked_unique:
  "linked h a xs l \<Longrightarrow> linked h a ys l \<Longrightarrow> l \<notin> set xs \<Longrightarrow> l \<notin> set ys \<Longrightarrow> xs = ys"
proof (induction xs arbitrary: a ys)
  case Nil
  then show ?case by (cases ys) auto
next
  case (Cons x xs)
  then show ?case by (cases ys) auto
qed

text \<open>The sequence a head represents is unique.\<close>

lemma is_klist_unique: "is_klist h l xs \<Longrightarrow> is_klist h l ys \<Longrightarrow> xs = ys"
  by (auto simp: is_klist_def intro: linked_unique)

section \<open>What the operations do to the sequence\<close>

lemma lnext_list_insert:
  "n \<noteq> t \<Longrightarrow> lnext (list_insert t n h) c =
     (if c = t then n else if c = n then lnext h t else lnext h c)"
  by (simp add: klist_ops klist_simps)

lemma lprev_list_insert:
  "n \<noteq> t \<Longrightarrow> lnext h t \<noteq> n \<Longrightarrow> lprev (list_insert t n h) c =
     (if c = lnext h t then n else if c = n then t else lprev h c)"
  by (simp add: klist_ops klist_simps)

text \<open>A new node after \<open>t\<close> goes in front of the path that starts at \<open>t\<close>.\<close>

lemma linked_list_insert:
  assumes "linked h t vs b" and "distinct vs" and "b \<notin> set vs" and "t \<notin> set vs"
    and "n \<notin> insert t (insert b (set vs))"
  shows "linked (list_insert t n h) t (n # vs) b"
proof (cases vs)
  case Nil
  with assms show ?thesis by (auto simp: lnext_list_insert lprev_list_insert)
next
  case (Cons y ys)
  have "linked h y ys b" using assms(1) Cons by simp
  then have "linked (list_insert t n h) y ys b"
    by (rule linked_cong) (use assms Cons in \<open>auto simp: lnext_list_insert lprev_list_insert\<close>)
  with assms Cons show ?thesis by (auto simp: lnext_list_insert lprev_list_insert)
qed

theorem is_klist_list_insert:
  assumes "is_klist h l (us @ vs)" and "n \<notin> set (l # us @ vs)"
  shows "is_klist (list_insert (last (l # us)) n h) l (us @ n # vs)"
proof (cases us rule: rev_cases)
  case Nil
  with assms show ?thesis
    by (auto simp: is_klist_def linked_list_insert simp del: linked.simps)
next
  case (snoc us' t)
  with assms have pre: "linked h l us' t" and post: "linked h t vs l"
    and d: "distinct (l # us' @ t # vs)" and n: "n \<notin> set (l # us' @ t # vs)"
    by (auto simp: is_klist_def linked_append)
  have "lnext h t = hd (vs @ [l])" using post by (rule linked_fst)
  then have nt: "lnext h t \<in> insert l (set vs)" by (cases vs) auto
  have nn: "lnext h t \<noteq> n" using nt n by auto
  have far: "c \<noteq> lnext h t" if "c = t \<or> c \<in> set us'" for c using that nt d by auto
  have "linked (list_insert t n h) l us' t"
    using pre by (rule linked_cong)
      (use d n nn far in \<open>auto simp: lnext_list_insert lprev_list_insert\<close>)
  moreover have "linked (list_insert t n h) t (n # vs) l"
    using post by (rule linked_list_insert) (use d n in auto)
  ultimately show ?thesis using d n snoc by (auto simp: is_klist_def linked_append)
qed

text \<open>\<open>list_add_head\<close> and \<open>list_add_tail\<close> are insertions after the head and after the last node.\<close>

lemma lheap_eqI: "lprev h = lprev h' \<Longrightarrow> lnext h = lnext h' \<Longrightarrow> (h::'a lheap) = h'"
  by (rule lheap.equality) simp_all

lemma list_add_head_insert:
  "n \<noteq> l \<Longrightarrow> lnext h l \<noteq> n \<Longrightarrow> list_add_head l n h = list_insert l n h"
  by (rule lheap_eqI) (auto simp: klist_ops klist_simps)

lemma list_add_tail_insert:
  "n \<noteq> l \<Longrightarrow> lprev h l \<noteq> n \<Longrightarrow> lnext h (lprev h l) = l \<Longrightarrow>
     list_add_tail l n h = list_insert (lprev h l) n h"
  by (rule lheap_eqI) (auto simp: klist_ops klist_simps fun_eq_iff)

lemma is_klist_next: "is_klist h l xs \<Longrightarrow> lnext h l = hd (xs @ [l])"
  by (auto simp: is_klist_def dest: linked_fst)

lemma is_klist_prev: "is_klist h l xs \<Longrightarrow> lprev h l = last (l # xs)"
  by (auto simp: is_klist_def dest: linked_lst)

lemma is_klist_next_prev: "is_klist h l xs \<Longrightarrow> lnext h (lprev h l) = l"
  by (cases xs rule: rev_cases) (auto simp: is_klist_def linked_append)

theorem is_klist_add_head:
  assumes "is_klist h l xs" and "n \<notin> set (l # xs)"
  shows "is_klist (list_add_head l n h) l (n # xs)"
proof -
  have "lnext h l \<noteq> n" using is_klist_next[OF assms(1)] assms(2) by (cases xs) auto
  then show ?thesis
    using is_klist_list_insert[of h l "[]" xs n] assms by (simp add: list_add_head_insert)
qed

theorem is_klist_add_tail:
  assumes "is_klist h l xs" and "n \<notin> set (l # xs)"
  shows "is_klist (list_add_tail l n h) l (xs @ [n])"
proof -
  have p: "lprev h l = last (l # xs)" using assms(1) by (rule is_klist_prev)
  then have "lprev h l \<in> set (l # xs)" by (metis last_in_set list.distinct(1))
  with assms have "list_add_tail l n h = list_insert (lprev h l) n h"
    by (intro list_add_tail_insert) (auto dest: is_klist_next_prev)
  then show ?thesis using is_klist_list_insert[of h l xs "[]" n] assms p by simp
qed

text \<open>Unlinking a node joins the paths before and after it.\<close>

lemma lnext_list_del: "lnext (list_del e h) c = (if c = lprev h e then lnext h e else lnext h c)"
  by (simp add: klist_ops klist_simps)

lemma lprev_list_del:
  "lprev h e \<noteq> e \<Longrightarrow> lprev (list_del e h) c = (if c = lnext h e then lprev h e else lprev h c)"
  by (simp add: klist_ops klist_simps)

lemma list_del1_list_del:
  "lprev h e \<noteq> e \<Longrightarrow> list_del1 e h = list_init e (list_del e h)"
  by (rule lheap_eqI) (auto simp: klist_ops klist_simps)

lemma linked_list_del:
  assumes "linked h a xs e" and "linked h e ys b" and "distinct (xs @ e # ys)"
    and "a \<notin> set (xs @ e # ys)" and "b \<notin> set (xs @ e # ys)"
  shows "linked (list_del e h) a (xs @ ys) b"
proof -
  have p: "lprev h e = last (a # xs)" using assms(1) by (rule linked_lst)
  have n: "lnext h e = hd (ys @ [b])" using assms(2) by (rule linked_fst)
  have pin: "lprev h e \<in> insert a (set xs)" unfolding p by auto
  have nin: "lnext h e \<in> insert b (set ys)" unfolding n by (cases ys) auto
  have pe: "lprev h e \<noteq> e" using pin assms(3,4) by auto
  let ?h = "list_del e h"
  have tail: "linked ?h (lprev h e) ys b"
  proof (cases ys)
    case Nil
    then show ?thesis using n by (simp add: lnext_list_del lprev_list_del[OF pe])
  next
    case (Cons y zs)
    then have "linked h y zs b" using assms(2) by simp
    then have "linked ?h y zs b"
      by (rule linked_cong)
        (use assms Cons n pin in \<open>auto simp: lnext_list_del lprev_list_del[OF pe]\<close>)
    then show ?thesis using n Cons by (simp add: lnext_list_del lprev_list_del[OF pe])
  qed
  show ?thesis
  proof (cases xs rule: rev_cases)
    case Nil
    then show ?thesis using tail p by simp
  next
    case (snoc xs' x)
    then have "linked h a xs' x" using assms(1) by (simp add: linked_append)
    then have "linked ?h a xs' x"
      by (rule linked_cong)
        (use assms snoc p nin in \<open>auto simp: lnext_list_del lprev_list_del[OF pe]\<close>)
    then show ?thesis using tail snoc p by (simp add: linked_append)
  qed
qed

theorem is_klist_del:
  assumes "is_klist h l (xs @ e # ys)"
  shows "is_klist (list_del e h) l (xs @ ys)"
  using assms by (auto simp: is_klist_def linked_append intro!: linked_list_del)

lemma is_klist_prev_neq: "is_klist h l (xs @ e # ys) \<Longrightarrow> lprev h e \<noteq> e"
proof -
  assume k: "is_klist h l (xs @ e # ys)"
  then have "linked h l xs e" by (simp add: is_klist_def linked_append)
  then have "lprev h e = last (l # xs)" by (rule linked_lst)
  moreover have "last (l # xs) \<in> set (l # xs)" by (metis last_in_set list.distinct(1))
  ultimately show "lprev h e \<noteq> e" using k by (auto simp: is_klist_def)
qed

lemma list_init_frame:
  assumes "is_klist h l xs" and "n \<notin> set (l # xs)"
  shows "is_klist (list_init n h) l xs"
proof -
  have "linked h l xs l" using assms(1) by (simp add: is_klist_def)
  then have "linked (list_init n h) l xs l"
    by (rule linked_cong) (use assms in \<open>auto simp: klist_ops klist_simps\<close>)
  then show ?thesis using assms(1) by (simp add: is_klist_def)
qed

lemma is_klist_init: "is_klist (list_init l h) l []"
  by (simp add: is_klist_def klist_ops klist_simps)

theorem is_klist_del1:
  assumes "is_klist h l (xs @ e # ys)"
  shows "is_klist (list_del1 e h) l (xs @ ys)" and "is_klist (list_del1 e h) e []"
proof -
  have eq: "list_del1 e h = list_init e (list_del e h)"
    using assms by (intro list_del1_list_del is_klist_prev_neq)
  have "e \<notin> set (l # xs @ ys)" using assms by (auto simp: is_klist_def)
  then show "is_klist (list_del1 e h) l (xs @ ys)"
    unfolding eq using is_klist_del[OF assms] by (intro list_init_frame)
  show "is_klist (list_del1 e h) e []" unfolding eq by (rule is_klist_init)
qed

lemma list_empty_iff: "is_klist h l xs \<Longrightarrow> list_empty l h \<longleftrightarrow> xs = []"
proof -
  assume k: "is_klist h l xs"
  then have "lprev h l = last (l # xs)" by (rule is_klist_prev)
  moreover have "xs \<noteq> [] \<Longrightarrow> last xs \<noteq> l" using k by (auto simp: is_klist_def)
  ultimately show ?thesis by (auto simp: list_empty_def)
qed

text \<open>Lists that share no node with the changed one keep their sequence.\<close>

lemma is_klist_cong:
  assumes "is_klist h m ys"
    and "\<And>c. c \<in> set (m # ys) \<Longrightarrow> lnext h' c = lnext h c \<and> lprev h' c = lprev h c"
  shows "is_klist h' m ys"
proof -
  have "linked h m ys m" using assms(1) by (simp add: is_klist_def)
  then have "linked h' m ys m" by (rule linked_cong) (use assms(2) in auto)
  then show ?thesis using assms(1) by (simp add: is_klist_def)
qed

lemma is_klist_next_in: "is_klist h l xs \<Longrightarrow> c \<in> set (l # xs) \<Longrightarrow> lnext h c \<in> set (l # xs)"
proof -
  assume k: "is_klist h l xs" and c: "c \<in> set (l # xs)"
  show ?thesis
  proof (cases "c = l")
    case True
    then show ?thesis using is_klist_next[OF k] by (cases xs) auto
  next
    case False
    then obtain us vs where xs: "xs = us @ c # vs" using c by (auto dest: split_list)
    then have "linked h c vs l" using k by (simp add: is_klist_def linked_append)
    then have "lnext h c = hd (vs @ [l])" by (rule linked_fst)
    then show ?thesis using xs by (cases vs) auto
  qed
qed

lemma is_klist_prev_in: "is_klist h l xs \<Longrightarrow> c \<in> set (l # xs) \<Longrightarrow> lprev h c \<in> set (l # xs)"
proof -
  assume k: "is_klist h l xs" and c: "c \<in> set (l # xs)"
  show ?thesis
  proof (cases "c = l")
    case True
    then show ?thesis using is_klist_prev[OF k] by auto
  next
    case False
    then obtain us vs where xs: "xs = us @ c # vs" using c by (auto dest: split_list)
    then have "linked h l us c" using k by (simp add: is_klist_def linked_append)
    then have "lprev h c = last (l # us)" by (rule linked_lst)
    then show ?thesis using xs by (cases us rule: rev_cases) auto
  qed
qed

lemma add_head_frame:
  assumes "is_klist h l xs" and "is_klist h m ys"
    and "set (m # ys) \<inter> set (n # l # xs) = {}"
  shows "is_klist (list_add_head l n h) m ys"
  using assms(2)
proof (rule is_klist_cong)
  fix c assume c: "c \<in> set (m # ys)"
  have "lnext h l \<in> set (l # xs)" using assms(1) by (rule is_klist_next_in) simp
  then show "lnext (list_add_head l n h) c = lnext h c \<and> lprev (list_add_head l n h) c = lprev h c"
    using c assms(3) by (auto simp: klist_ops klist_simps)
qed

lemma add_tail_frame:
  assumes "is_klist h l xs" and "is_klist h m ys"
    and "set (m # ys) \<inter> set (n # l # xs) = {}"
  shows "is_klist (list_add_tail l n h) m ys"
  using assms(2)
proof (rule is_klist_cong)
  fix c assume c: "c \<in> set (m # ys)"
  have "lprev h l \<in> set (l # xs)" using assms(1) by (rule is_klist_prev_in) simp
  then show "lnext (list_add_tail l n h) c = lnext h c \<and> lprev (list_add_tail l n h) c = lprev h c"
    using c assms(3) by (auto simp: klist_ops klist_simps)
qed

lemma del_frame:
  assumes "is_klist h l xs" and "e \<in> set xs" and "is_klist h m ys"
    and "set (m # ys) \<inter> set (l # xs) = {}"
  shows "is_klist (list_del e h) m ys"
  using assms(3)
proof (rule is_klist_cong)
  fix c assume c: "c \<in> set (m # ys)"
  have "lprev h e \<in> set (l # xs)" "lnext h e \<in> set (l # xs)"
    using assms(1,2) by (auto dest: is_klist_prev_in[of h l xs e] is_klist_next_in[of h l xs e])
  then show "lnext (list_del e h) c = lnext h c \<and> lprev (list_del e h) c = lprev h c"
    using c assms(4) by (auto simp: klist_ops klist_simps)
qed

section \<open>Traversal\<close>

text \<open>
  The loop of \<open>list_foreach\<close> is a fold over the sequence, provided the body on a
  node leaves the \<open>next\<close> fields of the nodes still to come alone.
\<close>

fun next_path :: "'a lheap \<Rightarrow> 'a \<Rightarrow> 'a list \<Rightarrow> 'a \<Rightarrow> bool" where
  "next_path h a [] b \<longleftrightarrow> lnext h a = b"
| "next_path h a (x # xs) b \<longleftrightarrow> lnext h a = x \<and> next_path h x xs b"

lemma linked_next_path: "linked h a xs b \<Longrightarrow> next_path h a xs b"
  by (induction xs arbitrary: a) auto

lemma next_path_cong:
  "next_path h a xs b \<Longrightarrow> (\<And>c. c \<in> insert a (set xs) \<Longrightarrow> lnext h' c = lnext h c) \<Longrightarrow>
     next_path h' a xs b"
  by (induction xs arbitrary: a) auto

lemma list_foreach_loop_fold:
  assumes "next_path (fst st) tmp xs l" and "l \<notin> set (tmp # xs)"
    and "\<And>us x vs. tmp # xs = us @ x # vs \<Longrightarrow>
      \<forall>c \<in> set vs. lnext (fst (body x (fold body us st))) c = lnext (fst (fold body us st)) c"
  shows "list_foreach_loop body l tmp (hd (xs @ [l])) st = Some (fold body (tmp # xs) st)"
  using assms
proof (induction xs arbitrary: tmp st)
  case Nil
  then show ?case by (auto simp: list_foreach_loop.simps Let_def)
next
  case (Cons y ys)
  let ?st = "body tmp st"
  have keep: "\<forall>c \<in> set (y # ys). lnext (fst ?st) c = lnext (fst st) c"
    using Cons.prems(3)[of "[]" tmp "y # ys"] by simp
  have path: "next_path (fst ?st) y ys l"
    by (rule next_path_cong[where h = "fst st"]) (use Cons.prems(1) keep in auto)
  then have nxt: "lnext (fst ?st) y = hd (ys @ [l])" by (cases ys) auto
  have "list_foreach_loop body l y (hd (ys @ [l])) ?st = Some (fold body (y # ys) ?st)"
  proof (rule Cons.IH)
    show "\<forall>c \<in> set vs. lnext (fst (body x (fold body us ?st))) c = lnext (fst (fold body us ?st)) c"
      if "y # ys = us @ x # vs" for us x vs
      using Cons.prems(3)[of "tmp # us" x vs] that by simp
  qed (use path Cons.prems(2) in auto)
  then show ?case using Cons.prems(2) nxt
    by (subst list_foreach_loop.simps) (auto simp: Let_def)
qed

theorem list_foreach_fold:
  assumes "is_klist (fst st) l xs"
    and "\<And>us x vs. xs = us @ x # vs \<Longrightarrow>
      \<forall>c \<in> set vs. lnext (fst (body x (fold body us st))) c = lnext (fst (fold body us st)) c"
  shows "list_foreach body l st = Some (fold body xs st)"
proof (cases xs)
  case Nil
  then show ?thesis
    using is_klist_next[OF assms(1)] by (simp add: list_foreach_def list_foreach_loop.simps)
next
  case (Cons y ys)
  have path: "next_path (fst st) y ys l"
    using assms(1) Cons by (auto simp: is_klist_def dest: linked_next_path)
  then have "lnext (fst st) y = hd (ys @ [l])" by (cases ys) auto
  moreover have "lnext (fst st) l = y" using is_klist_next[OF assms(1)] Cons by simp
  moreover have "list_foreach_loop body l y (hd (ys @ [l])) st = Some (fold body (y # ys) st)"
    using path by (rule list_foreach_loop_fold) (use assms Cons in \<open>auto simp: is_klist_def\<close>)
  ultimately show ?thesis using Cons by (simp add: list_foreach_def Let_def)
qed

text \<open>The quick form, for bodies that leave every \<open>next\<close> field alone.\<close>

lemma list_foreach_quick_loop_fold:
  assumes "next_path (fst st) pos xs l" and "l \<notin> set (pos # xs)"
    and "\<And>x s. lnext (fst (body x s)) = lnext (fst s)"
  shows "list_foreach_quick_loop body l pos st = Some (fold body (pos # xs) st)"
  using assms
proof (induction xs arbitrary: pos st)
  case Nil
  then show ?case by (auto simp: list_foreach_quick_loop.simps Let_def)
next
  case (Cons y ys)
  have "next_path (fst (body pos st)) y ys l"
    by (rule next_path_cong[where h = "fst st"]) (use Cons.prems(1,3) in auto)
  then have "list_foreach_quick_loop body l y (body pos st) = Some (fold body (y # ys) (body pos st))"
    using Cons.prems(2,3) by (intro Cons.IH) auto
  then show ?case using Cons.prems
    by (subst list_foreach_quick_loop.simps) (auto simp: Let_def)
qed

theorem list_foreach_quick_fold:
  assumes "is_klist (fst st) l xs" and "\<And>x s. lnext (fst (body x s)) = lnext (fst s)"
  shows "list_foreach_quick body l st = Some (fold body xs st)"
proof (cases xs)
  case Nil
  then show ?thesis using is_klist_next[OF assms(1)]
    by (simp add: list_foreach_quick_def list_foreach_quick_loop.simps)
next
  case (Cons y ys)
  have "next_path (fst st) y ys l"
    using assms(1) Cons by (auto simp: is_klist_def dest: linked_next_path)
  then have "list_foreach_quick_loop body l y st = Some (fold body (y # ys) st)"
    by (rule list_foreach_quick_loop_fold) (use assms Cons in \<open>auto simp: is_klist_def\<close>)
  then show ?thesis using is_klist_next[OF assms(1)] Cons by (simp add: list_foreach_quick_def)
qed

text \<open>
  Draining: the pattern of \<open>skb_free_packet\<close> and of the timer wheels, where the
  body unlinks the node it is given and records it.
\<close>

definition drain_node :: "'a \<Rightarrow> 'a lheap \<times> 'a list \<Rightarrow> 'a lheap \<times> 'a list" where
  "drain_node x st = (list_del1 x (fst st), snd st @ [x])"

lemma lnext_list_del1:
  "lprev h e \<noteq> e \<Longrightarrow> c \<noteq> e \<Longrightarrow> c \<noteq> lprev h e \<Longrightarrow> lnext (list_del1 e h) c = lnext h c"
  by (auto simp: klist_ops klist_simps)

lemma fold_drain_node:
  "is_klist h l (us @ vs) \<Longrightarrow>
     \<exists>h'. fold drain_node us (h, acc) = (h', acc @ us) \<and> is_klist h' l vs"
proof (induction us arbitrary: h acc)
  case Nil
  then show ?case by simp
next
  case (Cons u us)
  have "is_klist (list_del1 u h) l (us @ vs)"
    using is_klist_del1(1)[of h l "[]" u "us @ vs"] Cons.prems by simp
  then show ?case using Cons.IH[of "list_del1 u h" "acc @ [u]"] by (auto simp: drain_node_def)
qed

section \<open>The interface the kernel's queues rely on\<close>

text \<open>
  The run queue, the timer lists, the routing table and the packet queues use a
  list through these laws only: what each operation does to the sequence of nodes.
\<close>

locale node_queue =
  fixes rep :: "'h \<Rightarrow> 'a list \<Rightarrow> bool"
    and node :: "'a \<Rightarrow> bool"
    and add_head :: "'a \<Rightarrow> 'h \<Rightarrow> 'h"
    and add_tail :: "'a \<Rightarrow> 'h \<Rightarrow> 'h"
    and del :: "'a \<Rightarrow> 'h \<Rightarrow> 'h"
    and empty :: "'h \<Rightarrow> bool"
    and first :: "'h \<Rightarrow> 'a"
  assumes rep_unique: "rep h xs \<Longrightarrow> rep h ys \<Longrightarrow> xs = ys"
    and rep_add_head: "rep h xs \<Longrightarrow> node n \<Longrightarrow> n \<notin> set xs \<Longrightarrow> rep (add_head n h) (n # xs)"
    and rep_add_tail: "rep h xs \<Longrightarrow> node n \<Longrightarrow> n \<notin> set xs \<Longrightarrow> rep (add_tail n h) (xs @ [n])"
    and rep_del: "rep h (xs @ e # ys) \<Longrightarrow> rep (del e h) (xs @ ys)"
    and rep_empty: "rep h xs \<Longrightarrow> empty h \<longleftrightarrow> xs = []"
    and rep_first: "rep h (x # xs) \<Longrightarrow> first h = x"
begin

lemma add_tail_all:
  "rep h xs \<Longrightarrow> distinct (xs @ ns) \<Longrightarrow> (\<And>n. n \<in> set ns \<Longrightarrow> node n) \<Longrightarrow>
     rep (fold add_tail ns h) (xs @ ns)"
proof (induction ns arbitrary: h xs)
  case Nil
  then show ?case by simp
next
  case (Cons n ns)
  have "rep (add_tail n h) (xs @ [n])" by (rule rep_add_tail) (use Cons.prems in auto)
  then have "rep (fold add_tail ns (add_tail n h)) ((xs @ [n]) @ ns)"
    by (rule Cons.IH) (use Cons.prems in auto)
  then show ?case by simp
qed

text \<open>Taking the first node, as many times as there are nodes, yields them in order.\<close>

lemma take_firsts:
  "rep h (xs @ ys) \<Longrightarrow>
     \<exists>h'. fold (\<lambda>_ (h, out). (del (first h) h, out @ [first h])) xs (h, acc) = (h', acc @ xs)
       \<and> rep h' ys"
proof (induction xs arbitrary: h acc)
  case Nil
  then show ?case by simp
next
  case (Cons x xs)
  have f: "first h = x" using Cons.prems by (simp add: rep_first)
  have "rep (del x h) (xs @ ys)" using rep_del[of h "[]" x "xs @ ys"] Cons.prems by simp
  then show ?case using Cons.IH[of "del x h" "acc @ [x]"] f by simp
qed

lemma fifo:
  assumes "rep h []" and "distinct ns" and "\<And>n. n \<in> set ns \<Longrightarrow> node n"
  shows "\<exists>h'. fold (\<lambda>_ (h, out). (del (first h) h, out @ [first h])) ns
      (fold add_tail ns h, []) = (h', ns) \<and> empty h'"
proof -
  have "rep (fold add_tail ns h) (ns @ [])" using add_tail_all[of h "[]" ns] assms by simp
  then obtain h' where "fold (\<lambda>_ (h, out). (del (first h) h, out @ [first h])) ns
      (fold add_tail ns h, []) = (h', [] @ ns)" and "rep h' []"
    using take_firsts by blast
  then show ?thesis using rep_empty by auto
qed

lemma remove_added: "rep h xs \<Longrightarrow> node n \<Longrightarrow> n \<notin> set xs \<Longrightarrow> rep (del n (add_tail n h)) xs"
  using rep_del[of "add_tail n h" xs n "[]"] rep_add_tail by fastforce

end

text \<open>The laws hold of the C operations, for every head node.\<close>

interpretation kq: node_queue "\<lambda>h xs. is_klist h l xs" "\<lambda>n. n \<noteq> l" "list_add_head l" "list_add_tail l"
    list_del1 "list_empty l" "\<lambda>h. lnext h l"
  for l :: 'a
  by unfold_locales
    (auto simp: list_empty_iff dest: is_klist_unique is_klist_next
      intro: is_klist_add_head is_klist_add_tail is_klist_del1(1))

section \<open>Properties\<close>

text \<open>
  C9: on a well-formed ring, \<open>list_add_head\<close>, \<open>list_add_tail\<close>, \<open>list_insert\<close>,
  \<open>list_del\<close> and \<open>list_del1\<close> change the represented sequence exactly as their
  names say; \<open>list_del1\<close> also leaves the unlinked node as an empty list of its own,
  and \<open>list_empty\<close> tells whether the sequence is empty.
\<close>

theorem klist_ops_refine:
  assumes "is_klist h l (us @ e # vs)" and "n \<notin> set (l # us @ e # vs)"
  shows "is_klist (list_add_head l n h) l (n # us @ e # vs)
    \<and> is_klist (list_add_tail l n h) l (us @ e # vs @ [n])
    \<and> is_klist (list_insert e n h) l (us @ e # n # vs)
    \<and> is_klist (list_del e h) l (us @ vs)
    \<and> is_klist (list_del1 e h) l (us @ vs) \<and> is_klist (list_del1 e h) e []
    \<and> \<not> list_empty l h \<and> list_empty e (list_del1 e h)"
proof -
  have "is_klist (list_insert (last (l # us @ [e])) n h) l ((us @ [e]) @ n # vs)"
    by (rule is_klist_list_insert) (use assms in auto)
  moreover have "is_klist (list_add_tail l n h) l ((us @ e # vs) @ [n])"
    using assms by (rule is_klist_add_tail)
  moreover have "is_klist (list_add_head l n h) l (n # us @ e # vs)"
    using assms by (rule is_klist_add_head)
  moreover have "is_klist (list_del e h) l (us @ vs)" using assms(1) by (rule is_klist_del)
  moreover note del1 = is_klist_del1[OF assms(1)]
  moreover have "\<not> list_empty l h" using list_empty_iff[OF assms(1)] by simp
  moreover have "list_empty e (list_del1 e h)" using list_empty_iff[OF del1(2)] by simp
  ultimately show ?thesis by simp
qed

definition heap_0_1_2 :: "nat lheap" where
  "heap_0_1_2 = list_add_tail 0 2 (list_add_tail 0 1 (list_init 0 \<lparr>lprev = id, lnext = id\<rparr>))"

lemma heap_0_1_2_is: "is_klist heap_0_1_2 0 [1, 2]"
  by (simp add: heap_0_1_2_def is_klist_def klist_ops klist_simps)

theorem klist_ops_refine_witness:
  "is_klist (list_insert 1 3 heap_0_1_2) 0 [1, 3, 2] \<and> is_klist (list_del1 1 heap_0_1_2) 0 [2]"
  using klist_ops_refine[of heap_0_1_2 0 "[]" 1 "[2]" 3] heap_0_1_2_is by simp

text \<open>
  C21: a \<open>list_foreach\<close> whose body unlinks each node it is given visits every node
  of the list once and in order, ends, and leaves the list empty.
\<close>

theorem list_foreach_drain:
  assumes "is_klist h l xs"
  shows "\<exists>h'. list_foreach drain_node l (h, []) = Some (h', xs) \<and> is_klist h' l []"
proof -
  have "list_foreach drain_node l (h, []) = Some (fold drain_node xs (h, []))"
  proof (rule list_foreach_fold)
    fix us x vs assume xs: "xs = us @ x # vs"
    obtain h' where h': "fold drain_node us (h, []) = (h', us)" "is_klist h' l (x # vs)"
      using fold_drain_node[of h l us "x # vs" "[]"] assms xs by auto
    have "lprev h' x = l" using h'(2) by (simp add: is_klist_def)
    then show "\<forall>c \<in> set vs. lnext (fst (drain_node x (fold drain_node us (h, [])))) c =
        lnext (fst (fold drain_node us (h, []))) c"
      using h' by (auto simp: drain_node_def is_klist_def intro!: lnext_list_del1)
  qed (use assms in simp)
  then show ?thesis using fold_drain_node[of h l xs "[]" "[]"] assms by auto
qed

theorem list_foreach_drain_witness:
  "\<exists>h'. list_foreach drain_node 0 (heap_0_1_2, []) = Some (h', [1, 2]) \<and> is_klist h' 0 []"
  using list_foreach_drain[OF heap_0_1_2_is] .

text \<open>
  nodes appended one after the other with \<open>list_add_tail\<close> to an empty list come
  out in the same order when the first node is unlinked again and again.
\<close>

theorem klist_fifo:
  assumes "is_klist h l []" and "distinct ns" and "l \<notin> set ns"
  shows "\<exists>h'. fold (\<lambda>_ (h, out). (list_del1 (lnext h l) h, out @ [lnext h l])) ns
      (fold (list_add_tail l) ns h, []) = (h', ns) \<and> list_empty l h'"
  by (rule kq.fifo) (use assms in auto)

theorem klist_fifo_witness:
  "\<exists>h'. fold (\<lambda>_ (h, out). (list_del1 (lnext h (0::nat)) h, out @ [lnext h 0])) [5::nat, 3, 4]
      (fold (list_add_tail 0) [5, 3, 4] (list_init 0 heap_0_1_2), []) = (h', [5, 3, 4])
      \<and> list_empty 0 h'"
  by (rule klist_fifo[OF is_klist_init]) simp_all

end
