(* ===== verification/Ring_Buffer.thy ===== *)
theory Ring_Buffer
  imports Cnix_Prelude
begin

text \<open>
  The byte rings of \<open>net/ringbuff.c\<close>, which hold the transmit and receive data
  of a TCP connection. \<open>rb_data\<close> is the buffer, \<open>rb_head\<close> the write position,
  \<open>rb_count\<close> the bytes held, \<open>rb_size\<close> the capacity, as in \<open>ring_buffer_t\<close>.
\<close>

section \<open>The ring buffer\<close>

record ring_buffer =
  rb_data :: "u8 list"
  rb_head :: int
  rb_count :: int
  rb_size :: int

text \<open>\<open>kmalloc\<close> is the allocator: the contents of the block it returns for a size.\<close>

definition init_ring :: "(int \<Rightarrow> u8 list) \<Rightarrow> int \<Rightarrow> ring_buffer" where
  "init_ring kmalloc sz =
     \<lparr>rb_data = (if sz > 0 then kmalloc sz else []),
      rb_head = 0, rb_count = 0, rb_size = sz\<rparr>"

definition copy_to_ring :: "u8 list \<Rightarrow> ring_buffer \<Rightarrow> int \<Rightarrow> (ring_buffer \<times> int) kres" where
  "copy_to_ring srcbuf ring data_len0 =
     (if rb_count ring \<ge> rb_size ring then Inr (ring, 0)
      else
        let data_len = (if data_len0 > rb_size ring - rb_count ring
                        then rb_size ring - rb_count ring else data_len0);
            len = rb_size ring - rb_head ring
        in kbind
          (if len \<ge> data_len
           then kmemcpy (rb_data ring) (rb_head ring) srcbuf data_len
           else kbind (kmemcpy (rb_data ring) (rb_head ring) srcbuf len)
                  (\<lambda>data. kmemcpy data 0 (drop (nat len) srcbuf) (data_len - len)))
          (\<lambda>data. Inr (ring\<lparr>rb_data := data,
                            rb_head := (rb_head ring + data_len) mod rb_size ring,
                            rb_count := rb_count ring + data_len\<rparr>, data_len)))"

text \<open>
  \<open>copy_from_ring\<close> stores the bytes at the start of the caller's buffer; the
  model returns them.
\<close>

definition read_at :: "u8 list \<Rightarrow> int \<Rightarrow> int \<Rightarrow> u8 list kres" where
  "read_at data off n =
     (if 0 \<le> off \<and> 0 \<le> n \<and> off + n \<le> int (length data)
      then Inr (take (nat n) (drop (nat off) data)) else Inl Overrun)"

definition copy_from_ring ::
  "ring_buffer \<Rightarrow> int \<Rightarrow> int \<Rightarrow> bool \<Rightarrow> (ring_buffer \<times> u8 list \<times> int) kres" where
  "copy_from_ring ring data_len0 off del =
     (if rb_count ring \<le> 0 then Inr (ring, [], 0)
      else if off \<ge> rb_count ring then Inl DIE
      else
        let data_len = (if data_len0 > rb_count ring then rb_count ring else data_len0);
            idx0 = rb_head ring - rb_count ring + off;
            idx = (if idx0 < 0 then idx0 + rb_size ring else idx0);
            len = rb_size ring - idx
        in kbind
          (if len \<ge> data_len then read_at (rb_data ring) idx data_len
           else kbind (read_at (rb_data ring) idx len)
                  (\<lambda>b1. kbind (read_at (rb_data ring) 0 (data_len - len))
                  (\<lambda>b2. Inr (b1 @ b2))))
          (\<lambda>destbuf. Inr (if del then ring\<lparr>rb_count := rb_count ring - data_len\<rparr> else ring,
                          destbuf, data_len)))"

definition ring_is_empty :: "ring_buffer \<Rightarrow> bool" where
  "ring_is_empty ring = (if rb_count ring > 0 then False else True)"

definition ring_is_avail :: "ring_buffer \<Rightarrow> bool" where
  "ring_is_avail ring = (if rb_count ring < rb_size ring then True else False)"

section \<open>Invariant and contents\<close>

definition ring_ok :: "ring_buffer \<Rightarrow> bool" where
  "ring_ok r \<longleftrightarrow> 0 \<le> rb_count r \<and> rb_count r \<le> rb_size r \<and> int (length (rb_data r)) = rb_size r
     \<and> 0 \<le> rb_head r \<and> (rb_size r = 0 \<and> rb_head r = 0 \<or> rb_head r < rb_size r)"

text \<open>The cell that holds the \<open>i\<close>-th oldest byte, and the bytes held, oldest first.\<close>

definition ring_cell :: "ring_buffer \<Rightarrow> nat \<Rightarrow> nat" where
  "ring_cell r i = nat ((rb_head r - rb_count r + int i) mod rb_size r)"

definition ring_contents :: "ring_buffer \<Rightarrow> u8 list" where
  "ring_contents r = map (\<lambda>i. rb_data r ! ring_cell r i) [0..<nat (rb_count r)]"

lemma length_ring_contents [simp]: "length (ring_contents r) = nat (rb_count r)"
  by (simp add: ring_contents_def)

lemma ring_ok_init:
  "0 \<le> sz \<Longrightarrow> (0 < sz \<Longrightarrow> length (kmalloc sz) = nat sz) \<Longrightarrow>
     ring_ok (init_ring kmalloc sz) \<and> ring_contents (init_ring kmalloc sz) = []"
  by (auto simp: ring_ok_def init_ring_def ring_contents_def)

text \<open>The two copies of a wrapped write, seen cell by cell.\<close>

definition ring_write :: "u8 list \<Rightarrow> int \<Rightarrow> u8 list \<Rightarrow> int \<Rightarrow> u8 list" where
  "ring_write data head src n =
     map (\<lambda>c. let j = (int c - head) mod int (length data) in
            if j < n then src ! nat j else data ! c) [0..<length data]"

lemma mod_diff_ring:
  fixes c h s :: int
  assumes "0 \<le> c" "c < s" "0 \<le> h" "h < s"
  shows "(c - h) mod s = (if h \<le> c then c - h else c - h + s)"
proof (cases "h \<le> c")
  case True
  then show ?thesis using assms by (simp add: mod_pos_pos_trivial)
next
  case False
  have "(c - h + s) mod s = c - h + s" using assms False by (intro mod_pos_pos_trivial) auto
  then show ?thesis using False by simp
qed

lemma copy_to_ring_write:
  assumes "int (length data) = s" "0 \<le> h" "h < s" "0 \<le> n" "n \<le> s" "n \<le> int (length src)"
  shows "(if s - h \<ge> n then kmemcpy data h src n
     else kbind (kmemcpy data h src (s - h)) (\<lambda>d. kmemcpy d 0 (drop (nat (s - h)) src) (n - (s - h))))
    = Inr (ring_write data h src n)"
proof (cases "s - h \<ge> n")
  case True
  have "memcpy_at data (nat h) src (nat n) = ring_write data h src n"
    by (rule nth_equalityI)
      (use assms True in \<open>auto simp: buf_simps ring_write_def mod_diff_ring Let_def nat_diff_distrib\<close>)
  then show ?thesis using assms True by (simp add: buf_simps)
next
  case False
  let ?l = "nat (s - h)"
  have "memcpy_at (memcpy_at data (nat h) src ?l) 0 (drop ?l src) (nat (n - (s - h)))
      = ring_write data h src n"
    by (rule nth_equalityI)
      (use assms False in \<open>auto simp: buf_simps ring_write_def mod_diff_ring Let_def nat_diff_distrib
        intro!: arg_cong[where f = "\<lambda>k. src ! k"]\<close>)
  then show ?thesis using assms False by (simp add: buf_simps)
qed

lemma length_ring_write [simp]: "length (ring_write data h src n) = length data"
  by (simp add: ring_write_def)

lemma nth_ring_write:
  "c < length data \<Longrightarrow> ring_write data h src n ! c =
     (if (int c - h) mod int (length data) < n then src ! nat ((int c - h) mod int (length data))
      else data ! c)"
  by (simp add: ring_write_def Let_def)

lemma ring_cell_less: "ring_ok r \<Longrightarrow> 0 < rb_size r \<Longrightarrow> ring_cell r i < length (rb_data r)"
  by (simp add: ring_cell_def ring_ok_def nat_less_iff)

text \<open>Appending \<open>k\<close> bytes: the old cells keep their bytes, the next \<open>k\<close> cells get the new ones.\<close>

lemma ring_contents_write:
  assumes ok: "ring_ok r" and s: "0 < rb_size r" and k: "int k \<le> rb_size r - rb_count r"
    and src: "k \<le> length src"
    and r': "r' = r\<lparr>rb_data := ring_write (rb_data r) (rb_head r) src (int k),
      rb_head := (rb_head r + int k) mod rb_size r, rb_count := rb_count r + int k\<rparr>"
  shows "ring_ok r' \<and> ring_contents r' = ring_contents r @ take k src"
proof
  let ?s = "rb_size r"
  have len: "int (length (rb_data r)) = ?s" using ok by (simp add: ring_ok_def)
  show "ring_ok r'" using ok s k by (auto simp: r' ring_ok_def)
  have cell: "ring_cell r' i = nat ((rb_head r - rb_count r + int i) mod ?s)" for i
  proof -
    have "((rb_head r + int k) mod ?s - (rb_count r + int k) + int i) mod ?s =
        (rb_head r - rb_count r + int i) mod ?s"
      using mod_add_left_eq[of "rb_head r + int k" ?s "int i - (rb_count r + int k)"]
      by (simp add: algebra_simps)
    then show ?thesis by (simp add: ring_cell_def r')
  qed
  have same: "ring_cell r' i = ring_cell r i" for i
    by (simp add: cell ring_cell_def[of r])
  have data: "rb_data r' = ring_write (rb_data r) (rb_head r) src (int k)" by (simp add: r')
  have sub: "(int (ring_cell r' i) - rb_head r) mod ?s = (int i - rb_count r) mod ?s" for i
  proof -
    have "((rb_head r - rb_count r + int i) mod ?s - rb_head r) mod ?s = (int i - rb_count r) mod ?s"
      using mod_add_left_eq[of "rb_head r - rb_count r + int i" ?s "- rb_head r"]
      by (simp add: algebra_simps)
    then show ?thesis using s by (simp add: cell)
  qed
  have inr: "ring_cell r' i < length (rb_data r)" for i
    using s len by (simp add: cell nat_less_iff)
  have old: "rb_data r' ! ring_cell r' i = ring_contents r ! i" if "i < nat (rb_count r)" for i
  proof -
    have "(int i - rb_count r) mod ?s = int i - rb_count r + ?s"
      using mod_diff_ring[of "int i" ?s "rb_count r"] that ok s k
      by (cases "rb_count r = ?s") (auto simp: ring_ok_def mod_pos_pos_trivial)
    then have "\<not> (int (ring_cell r' i) - rb_head r) mod ?s < int k" using sub k by simp
    then show ?thesis using that inr[of i] len same[of i]
      by (simp add: data nth_ring_write ring_contents_def)
  qed
  have new: "rb_data r' ! ring_cell r' (nat (rb_count r) + i) = take k src ! i" if "i < k" for i
  proof -
    have "(int (nat (rb_count r) + i) - rb_count r) mod ?s = int i"
      using that ok k by (simp add: ring_ok_def mod_pos_pos_trivial)
    then show ?thesis using that sub[of "nat (rb_count r) + i"] inr[of "nat (rb_count r) + i"] len
      by (simp add: data nth_ring_write)
  qed
  have "nat (rb_count r') = nat (rb_count r) + k" using ok by (simp add: r' ring_ok_def nat_add_distrib)
  then have "ring_contents r' = map (\<lambda>i. rb_data r' ! ring_cell r' i) [0..<nat (rb_count r) + k]"
    by (simp add: ring_contents_def)
  also have "\<dots> = ring_contents r @ take k src"
    by (rule map_nth_append_upt) (use src old new in auto)
  finally show "ring_contents r' = ring_contents r @ take k src" .
qed

theorem copy_to_ring_correct:
  assumes "ring_ok r" and "0 \<le> n" and "n \<le> int (length src)"
    and k: "k = nat (min n (rb_size r - rb_count r))"
  shows "\<exists>r'. copy_to_ring src r n = Inr (r', int k) \<and> ring_ok r' \<and> rb_size r' = rb_size r
    \<and> ring_contents r' = ring_contents r @ take k src"
proof (cases "rb_count r < rb_size r")
  case False
  then have "k = 0" using assms by (simp add: ring_ok_def)
  then show ?thesis using False assms by (simp add: copy_to_ring_def)
next
  case True
  have ik: "int k = (if n > rb_size r - rb_count r then rb_size r - rb_count r else n)"
    using True assms by (auto simp: min_def)
  let ?r = "r\<lparr>rb_data := ring_write (rb_data r) (rb_head r) src (int k),
      rb_head := (rb_head r + int k) mod rb_size r, rb_count := rb_count r + int k\<rparr>"
  have "copy_to_ring src r n = Inr (?r, int k)"
    unfolding copy_to_ring_def Let_def ik[symmetric]
    using copy_to_ring_write[of "rb_data r" "rb_size r" "rb_head r" "int k" src] True assms ik
    by (auto simp: ring_ok_def)
  moreover have "ring_ok ?r \<and> ring_contents ?r = ring_contents r @ take k src"
    by (rule ring_contents_write[OF assms(1), of k src]) (use True assms ik in \<open>auto simp: ring_ok_def\<close>)
  ultimately show ?thesis by simp
qed

lemma read_ring:
  assumes "ring_ok r" and "0 < rb_count r" and "0 \<le> off" and "0 \<le> n" and "off + n \<le> rb_count r"
    and "off < rb_count r"
    and "idx = (if rb_head r - rb_count r + off < 0 then rb_head r - rb_count r + off + rb_size r
       else rb_head r - rb_count r + off)"
  shows "(if rb_size r - idx \<ge> n then read_at (rb_data r) idx n
           else kbind (read_at (rb_data r) idx (rb_size r - idx))
                  (\<lambda>b1. kbind (read_at (rb_data r) 0 (n - (rb_size r - idx)))
                  (\<lambda>b2. Inr (b1 @ b2))))
      = Inr (take (nat n) (drop (nat off) (ring_contents r)))"
proof -
  let ?s = "rb_size r" and ?d = "rb_data r"
  have bnd: "0 \<le> idx" "idx < ?s" and len: "int (length ?d) = ?s"
    using assms by (auto simp: ring_ok_def)
  have cell: "ring_cell r (nat off + i) = nat ((idx + int i) mod ?s)" for i
    using assms(3,7) mod_add_self2[of "rb_head r - rb_count r + off + int i" ?s]
    by (auto simp: ring_cell_def algebra_simps)
  have cnt: "rb_count r \<le> ?s" and n: "0 \<le> n" "off + n \<le> rb_count r" "0 \<le> off"
    using assms by (auto simp: ring_ok_def)
  define out where "out = take (nat n) (drop (nat off) (ring_contents r))"
  have lout: "length out = nat n" using n by (simp add: out_def)
  have spec: "out ! i = ?d ! nat ((idx + int i) mod ?s)" if "i < nat n" for i
  proof -
    have "nat off + i < nat (rb_count r)" using that n by linarith
    then show ?thesis using that cell[of i] by (simp add: out_def ring_contents_def)
  qed
  have step: "(idx + int i) mod ?s = (if idx + int i < ?s then idx + int i else idx + int i - ?s)"
    if "i < nat n" for i
  proof (cases "idx + int i < ?s")
    case True
    then show ?thesis using bnd by (simp add: mod_pos_pos_trivial)
  next
    case False
    have "(idx + int i - ?s) mod ?s = idx + int i - ?s"
      by (rule mod_pos_pos_trivial) (use bnd that n cnt False in auto)
    then show ?thesis using False mod_add_self2[of "idx + int i - ?s" ?s] by simp
  qed
  have "(if ?s - idx \<ge> n then read_at ?d idx n
           else kbind (read_at ?d idx (?s - idx))
                  (\<lambda>b1. kbind (read_at ?d 0 (n - (?s - idx))) (\<lambda>b2. Inr (b1 @ b2)))) = Inr out"
  proof (cases "?s - idx \<ge> n")
    case True
    have "take (nat n) (drop (nat idx) ?d) = out"
      by (rule nth_equalityI) (use n bnd len True spec step lout in \<open>auto simp: nat_add_distrib\<close>)
    then show ?thesis using True bnd len n by (simp add: read_at_def)
  next
    case False
    have "drop (nat idx) ?d @ take (nat (n - (?s - idx))) ?d = out"
      by (rule nth_equalityI)
        (use n cnt bnd False spec step lout in
          \<open>auto simp: nth_append nat_add_distrib nat_diff_distrib len[symmetric] add.commute\<close>)
    then show ?thesis using False bnd len n cnt by (simp add: read_at_def)
  qed
  then show ?thesis by (simp add: out_def)
qed

lemma ring_contents_drop:
  assumes "ring_ok r" and "0 \<le> n" and "n \<le> rb_count r"
  shows "ring_ok (r\<lparr>rb_count := rb_count r - n\<rparr>)
    \<and> ring_contents (r\<lparr>rb_count := rb_count r - n\<rparr>) = drop (nat n) (ring_contents r)"
proof
  let ?r = "r\<lparr>rb_count := rb_count r - n\<rparr>"
  show "ring_ok ?r" using assms by (auto simp: ring_ok_def)
  have cell: "ring_cell ?r i = ring_cell r (nat n + i)" for i
    using assms(2) by (simp add: ring_cell_def algebra_simps)
  show "ring_contents ?r = drop (nat n) (ring_contents r)"
    by (rule nth_equalityI) (use assms cell in \<open>auto simp: ring_contents_def nat_diff_distrib\<close>)
qed

lemma copy_from_ring_eq:
  assumes "ring_ok r" and "0 \<le> off" and "off < rb_count r" and "0 \<le> n" and "off + n \<le> rb_count r"
  shows "copy_from_ring r n off del =
    Inr (if del then r\<lparr>rb_count := rb_count r - n\<rparr> else r,
         take (nat n) (drop (nat off) (ring_contents r)), n)"
proof -
  have c: "\<not> rb_count r \<le> 0" "\<not> off \<ge> rb_count r" "\<not> n > rb_count r" and p: "0 < rb_count r"
    using assms by auto
  show ?thesis
    by (simp only: copy_from_ring_def Let_def c if_False kbind_Inr
      read_ring[OF assms(1) p assms(2) assms(4) assms(5) assms(3) refl])
qed

lemma copy_from_ring_clamp:
  "0 < rb_count r \<Longrightarrow> copy_from_ring r n off del = copy_from_ring r (min n (rb_count r)) off del"
  by (auto simp: copy_from_ring_def Let_def min_def)

section \<open>The interface TCP relies on\<close>

text \<open>
  A bounded byte stream: \<open>put\<close> appends a prefix of what it is given and tells how
  much, \<open>get\<close> removes from the front.
\<close>

datatype 'b stream_op = Put "'b list" | Get nat

fun run_stream ::
  "('b list \<Rightarrow> 'q \<Rightarrow> ('q \<times> int) kres) \<Rightarrow> (nat \<Rightarrow> 'q \<Rightarrow> ('q \<times> 'b list \<times> int) kres)
     \<Rightarrow> 'b stream_op list \<Rightarrow> 'q \<Rightarrow> ('q \<times> 'b list \<times> 'b list) kres" where
  "run_stream put get [] q = Inr (q, [], [])"
| "run_stream put get (Put xs # ops) q =
     kbind (put xs q) (\<lambda>(q', k). kbind (run_stream put get ops q')
       (\<lambda>(q'', inp, out). Inr (q'', take (nat k) xs @ inp, out)))"
| "run_stream put get (Get n # ops) q =
     kbind (get n q) (\<lambda>(q', ys, k). kbind (run_stream put get ops q')
       (\<lambda>(q'', inp, out). Inr (q'', inp, ys @ out)))"

locale byte_stream =
  fixes put :: "'b list \<Rightarrow> 'q \<Rightarrow> ('q \<times> int) kres"
    and get :: "nat \<Rightarrow> 'q \<Rightarrow> ('q \<times> 'b list \<times> int) kres"
    and contents :: "'q \<Rightarrow> 'b list"
    and invar :: "'q \<Rightarrow> bool"
    and cap :: "'q \<Rightarrow> nat"
  assumes put_spec: "invar q \<Longrightarrow> \<exists>q'. put xs q = Inr (q', int (min (length xs) (cap q - length (contents q))))
      \<and> invar q' \<and> cap q' = cap q
      \<and> contents q' = contents q @ take (min (length xs) (cap q - length (contents q))) xs"
    and get_spec: "invar q \<Longrightarrow> \<exists>q'. get n q = Inr (q', take n (contents q), int (min n (length (contents q))))
      \<and> invar q' \<and> cap q' = cap q \<and> contents q' = drop n (contents q)"
begin

text \<open>Whatever is written comes out once and in order; what is not out yet is still held.\<close>

lemma stream_integrity:
  "invar q \<Longrightarrow> \<exists>q' inp out. run_stream put get ops q = Inr (q', inp, out) \<and> invar q'
     \<and> cap q' = cap q \<and> contents q @ inp = out @ contents q'"
proof (induction ops arbitrary: q)
  case Nil
  then show ?case by simp
next
  case (Cons op ops)
  show ?case
  proof (cases op)
    case (Put xs)
    then show ?thesis using put_spec[OF Cons.prems, of xs] Cons.IH by fastforce
  next
    case (Get n)
    obtain q' where g: "get n q = Inr (q', take n (contents q), int (min n (length (contents q))))"
      "invar q'" "cap q' = cap q" "contents q' = drop n (contents q)"
      using get_spec[OF Cons.prems] by blast
    obtain q'' inp out where r: "run_stream put get ops q' = Inr (q'', inp, out)" "invar q''"
      "cap q'' = cap q'" "contents q' @ inp = out @ contents q''"
      using Cons.IH[OF g(2)] by blast
    have "contents q @ inp = (take n (contents q) @ out) @ contents q''"
      using g(4) r(4) by (metis append_assoc append_take_drop_id)
    then show ?thesis using Get g r by simp
  qed
qed

end

text \<open>The ring as a stream: writes of whole buffers, reads from the front that delete.\<close>

definition ring_put :: "u8 list \<Rightarrow> ring_buffer \<Rightarrow> (ring_buffer \<times> int) kres" where
  "ring_put src r = copy_to_ring src r (int (length src))"

definition ring_get :: "nat \<Rightarrow> ring_buffer \<Rightarrow> (ring_buffer \<times> u8 list \<times> int) kres" where
  "ring_get n r = copy_from_ring r (int n) 0 True"

interpretation ring: byte_stream ring_put ring_get ring_contents ring_ok "\<lambda>r. nat (rb_size r)"
proof
  fix r and xs :: "u8 list" assume ok: "ring_ok r"
  let ?k = "min (length xs) (nat (rb_size r) - length (ring_contents r))"
  have "nat (min (int (length xs)) (rb_size r - rb_count r)) = ?k"
    using ok by (auto simp: ring_ok_def min_def)
  then show "\<exists>r'. ring_put xs r = Inr (r', int ?k) \<and> ring_ok r' \<and> nat (rb_size r') = nat (rb_size r)
      \<and> ring_contents r' = ring_contents r @ take ?k xs"
    using copy_to_ring_correct[OF ok, of "int (length xs)" xs ?k] by (auto simp: ring_put_def)
next
  fix r n assume ok: "ring_ok r"
  show "\<exists>r'. ring_get n r = Inr (r', take n (ring_contents r), int (min n (length (ring_contents r))))
      \<and> ring_ok r' \<and> nat (rb_size r') = nat (rb_size r) \<and> ring_contents r' = drop n (ring_contents r)"
  proof (cases "0 < rb_count r")
    case False
    then show ?thesis using ok by (simp add: ring_get_def copy_from_ring_def ring_contents_def)
  next
    case True
    let ?m = "min (int n) (rb_count r)"
    have "ring_get n r = Inr (r\<lparr>rb_count := rb_count r - ?m\<rparr>, take (nat ?m) (ring_contents r), ?m)"
      using True copy_from_ring_eq[OF ok, of 0 ?m True] copy_from_ring_clamp[OF True, of "int n" 0 True]
      by (simp add: ring_get_def)
    moreover have "ring_ok (r\<lparr>rb_count := rb_count r - ?m\<rparr>)
        \<and> ring_contents (r\<lparr>rb_count := rb_count r - ?m\<rparr>) = drop (nat ?m) (ring_contents r)"
      using ok True by (intro ring_contents_drop) auto
    moreover have "take (nat ?m) (ring_contents r) = take n (ring_contents r)"
      "drop (nat ?m) (ring_contents r) = drop n (ring_contents r)"
      "int (min n (length (ring_contents r))) = ?m"
      using True by (auto simp: min_def)
    ultimately show ?thesis by simp
  qed
qed

section \<open>Properties\<close>

text \<open>
  \<open>copy_to_ring\<close> keeps the ring well formed, never writes outside its buffer,
  accepts as many bytes as fit and appends exactly those, wrap-around included.
\<close>

theorem copy_to_ring_appends:
  assumes "ring_ok r" and "0 \<le> n" and "n \<le> int (length src)"
  shows "\<exists>r' k. copy_to_ring src r n = Inr (r', k) \<and> k = min n (rb_size r - rb_count r)
    \<and> ring_ok r' \<and> rb_size r' = rb_size r \<and> rb_count r' = rb_count r + k
    \<and> ring_contents r' = ring_contents r @ take (nat k) src"
proof -
  let ?k = "nat (min n (rb_size r - rb_count r))"
  have ik: "int ?k = min n (rb_size r - rb_count r)" using assms by (simp add: ring_ok_def)
  obtain r' where r': "copy_to_ring src r n = Inr (r', int ?k)" "ring_ok r'" "rb_size r' = rb_size r"
    "ring_contents r' = ring_contents r @ take ?k src"
    using copy_to_ring_correct[OF assms refl] by blast
  have "length (ring_contents r') = nat (rb_count r) + ?k" using r'(4) ik assms(3) by simp
  then have "rb_count r' = rb_count r + int ?k" using r'(2) assms(1) ik
    unfolding ring_ok_def length_ring_contents by linarith
  then show ?thesis using r' ik by auto
qed

definition ring_example :: ring_buffer where
  "ring_example = \<lparr>rb_data = [5, 6, 7, 8], rb_head = 1, rb_count = 2, rb_size = 4\<rparr>"

theorem copy_to_ring_appends_witness:
  "copy_to_ring [9, 10, 11] ring_example 3 =
     Inr (\<lparr>rb_data = [5, 9, 10, 8], rb_head = 3, rb_count = 4, rb_size = 4\<rparr>, 2)
   \<and> ring_contents ring_example = [8, 5]
   \<and> (\<exists>r' k. copy_to_ring [9, 10, 11] ring_example 3 = Inr (r', k) \<and> ring_contents r' = [8, 5, 9, 10])"
proof -
  have ok: "ring_ok ring_example" by (simp add: ring_example_def ring_ok_def)
  have c: "ring_contents ring_example = [8, 5]"
    by (simp add: ring_example_def ring_contents_def ring_cell_def upt_rec)
  have w: "copy_to_ring [9, 10, 11] ring_example 3 =
     Inr (\<lparr>rb_data = [5, 9, 10, 8], rb_head = 3, rb_count = 4, rb_size = 4\<rparr>, 2)"
    by (simp add: ring_example_def copy_to_ring_def kmemcpy_def memcpy_at_def numeral_eq_Suc)
  show ?thesis using copy_to_ring_appends[OF ok, of 3 "[9, 10, 11]"] c w
    by (auto simp: ring_example_def)
qed

text \<open>
  C22: reading \<open>n\<close> bytes at offset \<open>off\<close>, both within what the ring holds, returns
  those bytes, does not reach the \<open>DIE\<close>, and with \<open>del\<close> and offset 0 removes them
  from the front while the rest stays.
\<close>

theorem copy_from_ring_reads:
  assumes "ring_ok r" and "0 \<le> off" and "off < rb_count r" and "0 \<le> n" and "off + n \<le> rb_count r"
  shows "\<exists>r'. copy_from_ring r n off del = Inr (r', take (nat n) (drop (nat off) (ring_contents r)), n)
    \<and> ring_ok r' \<and> ring_contents r' = (if del then drop (nat n) (ring_contents r) else ring_contents r)"
  using copy_from_ring_eq[OF assms, of del] ring_contents_drop[of r n] assms by auto

theorem copy_from_ring_reads_witness:
  "\<exists>r'. copy_from_ring ring_example 1 0 True = Inr (r', [8], 1) \<and> ring_contents r' = [5]"
proof -
  have ok: "ring_ok ring_example" by (simp add: ring_example_def ring_ok_def)
  have c: "ring_contents ring_example = [8, 5]"
    by (simp add: ring_example_def ring_contents_def ring_cell_def upt_rec)
  show ?thesis using copy_from_ring_reads[OF ok, of 0 1 True] c by (auto simp: ring_example_def)
qed

text \<open>
  C10: over any sequence of writes and deleting reads on a fresh ring, the bytes read
  followed by the bytes still held are exactly the bytes accepted, in order; no
  step fails.
\<close>

theorem ring_stream_integrity:
  assumes "0 \<le> sz" and "0 < sz \<Longrightarrow> length (kmalloc sz) = nat sz"
  shows "\<exists>r' inp out. run_stream ring_put ring_get ops (init_ring kmalloc sz) = Inr (r', inp, out)
    \<and> ring_ok r' \<and> inp = out @ ring_contents r'"
  using ring.stream_integrity[of "init_ring kmalloc sz" ops] ring_ok_init[of sz kmalloc] assms
  by auto

theorem ring_stream_integrity_witness:
  "\<exists>r' inp out. run_stream ring_put ring_get [Put [1, 2], Get 1, Put [3, 4]]
      (init_ring (\<lambda>sz. replicate (nat sz) 0) 2) = Inr (r', inp, out)
    \<and> inp = out @ ring_contents r'"
  using ring_stream_integrity[of 2 "\<lambda>sz. replicate (nat sz) 0" "[Put [1, 2], Get 1, Put [3, 4]]"]
  by auto


end
