(* ===== verification/Number_Pool.thy ===== *)
theory Number_Pool
  imports Cnix_Prelude
begin

text \<open>
  What the clients of an allocator rely on, whether it hands out inode numbers, zone
  numbers or page frames: a number it returns was not in use, and is in use from then
  on. The lemma shows for every such allocator that the numbers a sequence of
  requests returns are pairwise different.
\<close>

locale number_pool =
  fixes ok :: "'s \<Rightarrow> bool" and used :: "'s \<Rightarrow> nat set" and alloc :: "'s \<Rightarrow> 's \<times> nat option"
  assumes alloc_fresh: "ok s \<Longrightarrow> alloc s = (s', Some n) \<Longrightarrow> ok s' \<and> n \<notin> used s \<and> used s' = insert n (used s)"
    and alloc_none: "ok s \<Longrightarrow> alloc s = (s', None) \<Longrightarrow> ok s' \<and> used s' = used s"
begin

primrec take_numbers :: "nat \<Rightarrow> 's \<Rightarrow> 's \<times> nat list" where
  "take_numbers 0 s = (s, [])"
| "take_numbers (Suc k) s =
     (case alloc s of (s1, None) \<Rightarrow> (s1, [])
      | (s1, Some n) \<Rightarrow> let (s2, ns) = take_numbers k s1 in (s2, n # ns))"

lemma take_numbers_fresh:
  "ok s \<Longrightarrow> take_numbers k s = (s', ns) \<Longrightarrow>
     ok s' \<and> distinct ns \<and> set ns \<inter> used s = {} \<and> used s' = used s \<union> set ns"
proof (induction k arbitrary: s s' ns)
  case 0
  then show ?case by simp
next
  case (Suc k)
  obtain s1 r where a: "alloc s = (s1, r)" by fastforce
  show ?case
  proof (cases r)
    case None
    then show ?thesis using Suc.prems a alloc_none[of s s1] by auto
  next
    case (Some n)
    obtain s2 ms where t: "take_numbers k s1 = (s2, ms)" by fastforce
    have "ok s1" "n \<notin> used s" "used s1 = insert n (used s)" using alloc_fresh[OF Suc.prems(1)] a Some by auto
    then show ?thesis using Suc.IH[OF _ t] Suc.prems(2) a Some t by auto
  qed
qed

end

end
