(* ===== verification/Super.thy ===== *)
theory Super
  imports Number_Pool
begin

text \<open>
  The super block code of \<open>fs/super.c\<close>: the bitmaps that record which inodes and
  which zones of a MINIX file system are in use, and the table of mounted super
  blocks. A device is seen through the buffer cache as a function from block numbers
  to block contents, 256 little-endian 32-bit words each; \<open>None\<close> is a block that
  \<open>bread\<close> cannot read. Unsigned 32-bit values (\<open>bit_t\<close>, \<open>block_t\<close>, \<open>zone_t\<close>)
  are natural numbers with the wrap-around written out.
\<close>

section \<open>Data\<close>

definition NODEV :: int where "NODEV = 0x7fff"
definition SUPER_BLOCK :: nat where "SUPER_BLOCK = 1"
definition NOBIT :: nat where "NOBIT = 0"
definition BITS_PER_BLOCK :: nat where "BITS_PER_BLOCK = 8192"
definition WORDS_PER_BLOCK :: nat where "WORDS_PER_BLOCK = 256"
definition NR_SB :: nat where "NR_SB = 10"
definition LM_MAGIC :: int where "LM_MAGIC = 0x2478"

definition LOCK_S :: u16 where "LOCK_S = 1"
definition WANT_S :: u16 where "WANT_S = 2"
definition LOCK_BITOP :: u16 where "LOCK_BITOP = 4"
definition WANT_BITOP :: u16 where "WANT_BITOP = 8"

datatype which_map = IMAP | ZMAP

type_synonym blocks = "nat \<Rightarrow> u32 list option"

record super_block =
  s_ninodes :: nat
  s_nzones :: nat
  s_imblocks :: int
  s_zmblocks :: int
  s_fdzone :: nat
  s_lzsize :: int
  s_msize :: int
  s_magic :: int
  s_pad :: int
  s_zones :: nat
  s_rooti :: "nat option"
  s_mounti :: "nat option"
  s_count :: int
  s_flags :: u16
  s_wait :: "nat list"
  s_bitop_wait :: "nat list"
  s_dev :: int
  s_roflag :: bool
  s_isearch :: nat
  s_zsearch :: nat
  s_version :: int
  s_ipblock :: nat
  s_ndzones :: int
  s_nindirs :: int

text \<open>Unsigned 32-bit subtraction, and the conversion of a \<open>short\<close> to \<open>block_t\<close>.\<close>

definition usub32 :: "nat \<Rightarrow> nat \<Rightarrow> nat" where
  "usub32 a b = (a + (2 ^ 32 - b mod 2 ^ 32)) mod 2 ^ 32"

definition to_u32 :: "int \<Rightarrow> nat" where
  "to_u32 v = nat (v mod 2 ^ 32)"

section \<open>Allocating a bit\<close>

text \<open>The word loop: the index of the first word with a clear bit.\<close>

fun scan_words :: "u32 list \<Rightarrow> nat" where
  "scan_words [] = 0"
| "scan_words (w # ws) = (if w < 0xffffffff then 0 else Suc (scan_words ws))"

text \<open>
  The bit loop \<open>for(j = 0; (1 << j) & *tmp; j++)\<close>. It runs on a word that is not
  all ones, so the bound 32 is never what ends it (lemma \<open>scan_bit_spec\<close>).
\<close>

function scan_bit :: "u32 \<Rightarrow> nat \<Rightarrow> nat" where
  "scan_bit w j = (if j < 32 \<and> bit w j then scan_bit w (Suc j) else j)"
  by pat_completeness auto
termination
  by (relation "measure (\<lambda>(w, j). 32 - j)") auto

declare scan_bit.simps [simp del]

text \<open>The loop over the bitmap blocks, from \<open>block\<close> on.\<close>

function alloc_loop :: "blocks \<Rightarrow> nat \<Rightarrow> nat \<Rightarrow> nat \<Rightarrow> nat \<Rightarrow> blocks \<times> nat option" where
  "alloc_loop disk from_block bit_blocks max_bit block =
     (if block < bit_blocks then
        (case disk (from_block + block) of
           None \<Rightarrow> (disk, None)
         | Some ws \<Rightarrow>
             let i = scan_words ws in
             if i \<ge> WORDS_PER_BLOCK
             then alloc_loop disk from_block bit_blocks max_bit (Suc block)
             else
               let j = scan_bit (ws ! i) 0;
                   b = (block * BITS_PER_BLOCK + i * 32 + j) mod 2 ^ 32 in
               if b > max_bit then (disk, None)
               else (disk(from_block + block \<mapsto> ws[i := ws ! i OR push_bit j 1]), Some b))
      else (disk, None))"
  by pat_completeness auto
termination
  by (relation "measure (\<lambda>(disk, fb, n, mx, block). n - block)") auto

declare alloc_loop.simps [simp del]

text \<open>Releasing the bit-operation lock; the flag tells whether waiters were woken.\<close>

definition unlock_bitop :: "super_block \<Rightarrow> super_block \<times> bool" where
  "unlock_bitop sp =
     (let sp1 = sp\<lparr>s_flags := s_flags sp AND NOT LOCK_BITOP\<rparr> in
      if s_flags sp1 AND WANT_BITOP \<noteq> 0
      then (sp1\<lparr>s_flags := s_flags sp1 AND NOT WANT_BITOP\<rparr>, True)
      else (sp1, False))"

text \<open>
  \<open>bitalloc\<close>. A result \<open>Sleeps\<close> is the process going to sleep on the bit-operation
  queue with \<open>WANT_BITOP\<close> set (it starts over at the label \<open>loop\<close> when woken); \<open>Done\<close>
  carries the returned bit, \<open>NOBIT\<close> for none, and whether waiters were woken.
\<close>

definition bitalloc ::
  "super_block \<Rightarrow> blocks \<Rightarrow> which_map \<Rightarrow> (super_block \<times> blocks \<times> nat outcome) kres" where
  "bitalloc sp disk which =
     (if s_dev sp = NODEV then Inl DIE
      else if s_roflag sp then Inr (sp, disk, Done NOBIT False)
      else if s_flags sp AND LOCK_BITOP \<noteq> 0 then
        Inr (sp\<lparr>s_flags := s_flags sp OR WANT_BITOP\<rparr>, disk, Sleeps)
      else
        let sp1 = sp\<lparr>s_flags := s_flags sp OR LOCK_BITOP\<rparr>;
            max_bit = (case which of IMAP \<Rightarrow> s_ninodes sp1
                       | ZMAP \<Rightarrow> usub32 (s_zones sp1) (s_fdzone sp1));
            from_block = (case which of IMAP \<Rightarrow> SUPER_BLOCK + 1
                          | ZMAP \<Rightarrow> SUPER_BLOCK + 1 + to_u32 (s_imblocks sp1));
            from_bit0 = (case which of IMAP \<Rightarrow> s_isearch sp1 | ZMAP \<Rightarrow> s_zsearch sp1);
            bit_blocks = to_u32 (case which of IMAP \<Rightarrow> s_imblocks sp1 | ZMAP \<Rightarrow> s_zmblocks sp1);
            from_bit = (if from_bit0 > max_bit then 1 else from_bit0)
        in case alloc_loop disk from_block bit_blocks max_bit (from_bit div BITS_PER_BLOCK) of
             (disk', None) \<Rightarrow>
               let (sp2, woke) = unlock_bitop sp1 in Inr (sp2, disk', Done NOBIT woke)
           | (disk', Some b) \<Rightarrow>
               let sp2 = (case which of IMAP \<Rightarrow> sp1\<lparr>s_isearch := (b + 1) mod 2 ^ 32\<rparr>
                          | ZMAP \<Rightarrow> sp1\<lparr>s_zsearch := (b + 1) mod 2 ^ 32\<rparr>);
                   ret = (case which of IMAP \<Rightarrow> b
                          | ZMAP \<Rightarrow> (b + to_u32 (int (s_fdzone sp2) - 1)) mod 2 ^ 32);
                   (sp3, woke) = unlock_bitop sp2
               in Inr (sp3, disk', Done ret woke))"

section \<open>Freeing a bit\<close>

definition bitfree ::
  "super_block \<Rightarrow> blocks \<Rightarrow> nat \<Rightarrow> which_map \<Rightarrow> (super_block \<times> blocks \<times> unit outcome) kres" where
  "bitfree sp disk bit0 which =
     (if s_dev sp = NODEV then Inl DIE
      else if s_roflag sp then Inr (sp, disk, Done () False)
      else
        let from_block = (case which of IMAP \<Rightarrow> SUPER_BLOCK + 1
                          | ZMAP \<Rightarrow> SUPER_BLOCK + 1 + to_u32 (s_imblocks sp));
            max_bit = (case which of IMAP \<Rightarrow> to_u32 (int (s_ninodes sp) - 1)
                       | ZMAP \<Rightarrow> usub32 (usub32 (s_zones sp) (s_fdzone sp)) 1);
            b = (case which of IMAP \<Rightarrow> bit0
                 | ZMAP \<Rightarrow> usub32 bit0 (to_u32 (int (s_fdzone sp) - 1)))
        in if b > max_bit then Inr (sp, disk, Done () False)
           else if s_flags sp AND LOCK_BITOP \<noteq> 0 then
             Inr (sp\<lparr>s_flags := s_flags sp OR WANT_BITOP\<rparr>, disk, Sleeps)
           else
             let sp1 = sp\<lparr>s_flags := s_flags sp OR LOCK_BITOP\<rparr>;
                 block = b div BITS_PER_BLOCK
             in case disk (from_block + block) of
                  None \<Rightarrow> let (sp2, woke) = unlock_bitop sp1 in Inr (sp2, disk, Done () woke)
                | Some ws \<Rightarrow>
                    let b1 = b mod BITS_PER_BLOCK;
                        k = b1 div 32;
                        ws' = ws[k := ws ! k AND NOT (push_bit (b1 mod 32) 1)];
                        sp2 = (case which of
                                 IMAP \<Rightarrow> (if b1 < s_isearch sp1 then sp1\<lparr>s_isearch := b1\<rparr> else sp1)
                               | ZMAP \<Rightarrow> (if b1 < s_zsearch sp1 then sp1\<lparr>s_zsearch := b1\<rparr> else sp1));
                        (sp3, woke) = unlock_bitop sp2
                    in Inr (sp3, disk(from_block + block \<mapsto> ws'), Done () woke))"

section \<open>Counting the free bits\<close>

fun get_zero_bits :: "u32 \<Rightarrow> int \<Rightarrow> int" where
  "get_zero_bits val bits0 =
     (let bits = (if bits0 > 32 then 32 else bits0)
      in int (length (filter (\<lambda>i. drop_bit i val AND 1 = 0) [0..<nat bits])))"

text \<open>One bitmap block: the word loop with its \<open>break\<close>, from a given bit number and count.\<close>

fun count_words :: "u32 list \<Rightarrow> int \<Rightarrow> int \<Rightarrow> int \<Rightarrow> int \<times> int" where
  "count_words [] max_bit_index b count = (b, count)"
| "count_words (w # ws) max_bit_index b count =
     (if b > max_bit_index then (b, count)
      else
        let bit_num = (if b + 32 > max_bit_index then max_bit_index - b + 1 else 32)
        in count_words ws max_bit_index (b + bit_num) (count + get_zero_bits w bit_num))"

function count_loop ::
  "blocks \<Rightarrow> nat \<Rightarrow> nat \<Rightarrow> int \<Rightarrow> nat \<Rightarrow> int \<Rightarrow> int \<Rightarrow> int \<times> bool" where
  "count_loop disk from_block max_block max_bit_index block b count =
     (if block < max_block then
        (case disk (from_block + block) of
           None \<Rightarrow> (count, True)
         | Some ws \<Rightarrow>
             let (b', count') = count_words ws max_bit_index b count
             in if b' > max_bit_index then (count', False)
                else count_loop disk from_block max_block max_bit_index (Suc block) b' count')
      else (count, False))"
  by pat_completeness auto
termination
  by (relation "measure (\<lambda>(disk, fb, n, mx, block, b, c). n - block)") auto

declare count_loop.simps [simp del]

text \<open>\<open>get_free_bits_nr\<close> returns the error code and the count stored through \<open>pcount\<close>.\<close>

definition get_free_bits_nr ::
  "super_block \<Rightarrow> blocks \<Rightarrow> which_map \<Rightarrow> super_block \<times> (int \<times> int) outcome" where
  "get_free_bits_nr sp disk which =
     (if s_flags sp AND LOCK_BITOP \<noteq> 0 then
        (sp\<lparr>s_flags := s_flags sp OR WANT_BITOP\<rparr>, Sleeps)
      else
        let sp1 = sp\<lparr>s_flags := s_flags sp OR LOCK_BITOP\<rparr>;
            max_bit_index = (case which of ZMAP \<Rightarrow> int (s_zones sp1) - int (s_fdzone sp1)
                             | IMAP \<Rightarrow> int (s_ninodes sp1));
            from_block = (case which of ZMAP \<Rightarrow> SUPER_BLOCK + 1 + nat (s_imblocks sp1)
                          | IMAP \<Rightarrow> SUPER_BLOCK + 1);
            max_block = nat (case which of ZMAP \<Rightarrow> s_zmblocks sp1 | IMAP \<Rightarrow> s_imblocks sp1);
            (count, failed) = count_loop disk from_block max_block max_bit_index 0 0 0;
            (sp2, woke) = unlock_bitop sp1
        in (sp2, Done (if failed then - EIO else 0, count) woke))"

section \<open>The table of super blocks\<close>

definition super_zero :: super_block where
  "super_zero = \<lparr>s_ninodes = 0, s_nzones = 0, s_imblocks = 0, s_zmblocks = 0, s_fdzone = 0,
     s_lzsize = 0, s_msize = 0, s_magic = 0, s_pad = 0, s_zones = 0, s_rooti = None,
     s_mounti = None, s_count = 0, s_flags = 0, s_wait = [], s_bitop_wait = [], s_dev = 0,
     s_roflag = False, s_isearch = 0, s_zsearch = 0, s_version = 0, s_ipblock = 0,
     s_ndzones = 0, s_nindirs = 0\<rparr>"

definition init_super :: "super_block list" where
  "init_super = replicate NR_SB (super_zero\<lparr>s_dev := NODEV, s_count := 0\<rparr>)"

definition sfree :: "super_block list \<Rightarrow> nat \<Rightarrow> super_block list" where
  "sfree sb i = sb[i := (sb ! i)\<lparr>s_count := s_count (sb ! i) - 1\<rparr>]"

text \<open>
  The search loop of \<open>sread\<close>: the entry of the device if there is one, and the
  first entry that is not in use.
\<close>

fun sread_scan :: "super_block list \<Rightarrow> int \<Rightarrow> nat \<Rightarrow> nat option \<Rightarrow> nat option \<times> nat option" where
  "sread_scan [] dev i tmp = (None, tmp)"
| "sread_scan (s # sb) dev i tmp =
     (if s_dev s = dev then (Some i, tmp)
      else if tmp = None \<and> s_count s = 0 then sread_scan sb dev (Suc i) (Some i)
      else sread_scan sb dev (Suc i) tmp)"

text \<open>\<open>memcpy(tmp, bh->b_data, SUPER_SIZE)\<close>: the 24 bytes of the super block on disk.\<close>

definition lo16 :: "u32 \<Rightarrow> nat" where "lo16 w = unat (take_bit 16 w)"
definition hi16 :: "u32 \<Rightarrow> nat" where "hi16 w = unat (drop_bit 16 w)"
definition s16 :: "nat \<Rightarrow> int" where "s16 n = (if n < 2 ^ 15 then int n else int n - 2 ^ 16)"

definition super_of_words :: "u32 list \<Rightarrow> super_block \<Rightarrow> super_block" where
  "super_of_words ws sp = sp\<lparr>
     s_ninodes := lo16 (ws ! 0), s_nzones := hi16 (ws ! 0),
     s_imblocks := s16 (lo16 (ws ! 1)), s_zmblocks := s16 (hi16 (ws ! 1)),
     s_fdzone := lo16 (ws ! 2), s_lzsize := s16 (hi16 (ws ! 2)),
     s_msize := sint (ws ! 3),
     s_magic := s16 (lo16 (ws ! 4)), s_pad := s16 (hi16 (ws ! 4)),
     s_zones := unat (ws ! 5)\<rparr>"

definition unlock_s :: "super_block \<Rightarrow> super_block \<times> bool" where
  "unlock_s sp =
     (let sp1 = sp\<lparr>s_flags := s_flags sp AND NOT LOCK_S\<rparr> in
      if s_flags sp1 AND WANT_S \<noteq> 0
      then (sp1\<lparr>s_flags := s_flags sp1 AND NOT WANT_S\<rparr>, True)
      else (sp1, False))"

text \<open>
  \<open>sread\<close>. Reading the block may sleep, and while it does other processes can ask for
  the same super block: \<open>wanted\<close> tells whether one set \<open>WANT_S\<close> meanwhile.
\<close>

definition sread ::
  "super_block list \<Rightarrow> (int \<Rightarrow> blocks) \<Rightarrow> int \<Rightarrow> bool
     \<Rightarrow> super_block list \<times> nat option outcome" where
  "sread sb devs dev wanted =
     (case sread_scan sb dev 0 None of
        (Some i, _) \<Rightarrow>
          if s_flags (sb ! i) AND LOCK_S \<noteq> 0
          then (sb[i := (sb ! i)\<lparr>s_flags := s_flags (sb ! i) OR WANT_S\<rparr>], Sleeps)
          else (sb, Done (Some i) False)
      | (None, None) \<Rightarrow> (sb, Done None False)
      | (None, Some i) \<Rightarrow>
          let tmp = (sb ! i)\<lparr>s_rooti := None, s_mounti := None, s_count := 1,
                      s_wait := [], s_bitop_wait := [], s_dev := dev, s_version := LM_MAGIC,
                      s_ipblock := 16, s_ndzones := 7, s_nindirs := 256, s_roflag := False,
                      s_isearch := 0, s_zsearch := 0,
                      s_flags := (if wanted then LOCK_S OR WANT_S else LOCK_S)\<rparr>;
              errout = (\<lambda>t. let (t', woke) = unlock_s (t\<lparr>s_dev := NODEV\<rparr>)
                            in (sb[i := t'], Done None woke))
          in case devs dev SUPER_BLOCK of
               None \<Rightarrow> errout tmp
             | Some ws \<Rightarrow>
                 let tmp1 = super_of_words ws tmp in
                 if s_magic tmp1 \<noteq> LM_MAGIC then errout tmp1
                 else if s_imblocks tmp1 < 1 \<or> s_zmblocks tmp1 < 1 \<or> s_ninodes tmp1 < 1
                      \<or> s_zones tmp1 < 1 \<or> s_lzsize tmp1 \<noteq> 0 then errout tmp1
                 else let (tmp2, woke) = unlock_s tmp1 in (sb[i := tmp2], Done (Some i) woke))"

fun get_sb_scan :: "super_block list \<Rightarrow> int \<Rightarrow> nat \<Rightarrow> nat option" where
  "get_sb_scan [] dev i = None"
| "get_sb_scan (s # sb) dev i = (if s_dev s = dev then Some i else get_sb_scan sb dev (Suc i))"

definition get_sb :: "super_block list \<Rightarrow> int \<Rightarrow> nat option" where
  "get_sb sb dev = (if dev = NODEV then None else get_sb_scan sb dev 0)"

section \<open>The bitmap as a set of bits\<close>

definition bm_bit :: "blocks \<Rightarrow> nat \<Rightarrow> nat \<Rightarrow> bool" where
  "bm_bit disk fb b =
     (case disk (fb + b div BITS_PER_BLOCK) of
        None \<Rightarrow> False
      | Some ws \<Rightarrow> bit (ws ! (b mod BITS_PER_BLOCK div 32)) (b mod 32))"

text \<open>All \<open>n\<close> bitmap blocks can be read, and a block has 256 words.\<close>

definition bm_ok :: "blocks \<Rightarrow> nat \<Rightarrow> nat \<Rightarrow> bool" where
  "bm_ok disk fb n \<longleftrightarrow> (\<forall>k < n. \<exists>ws. disk (fb + k) = Some ws \<and> length ws = WORDS_PER_BLOCK)"

lemmas bm_consts = BITS_PER_BLOCK_def WORDS_PER_BLOCK_def NOBIT_def SUPER_BLOCK_def

lemma scan_words_le: "scan_words ws \<le> length ws"
  by (induction ws) auto

lemma full_word: "\<not> (w :: u32) < 0xffffffff \<longleftrightarrow> w = - 1"
proof -
  have "(0xffffffff :: u32) = - 1" by simp
  then show ?thesis by (metis word_n1_ge leD not_less order_antisym)
qed

lemma scan_words_before: "k < scan_words ws \<Longrightarrow> ws ! k = - 1"
proof (induction ws arbitrary: k)
  case Nil
  then show ?case by simp
next
  case (Cons w ws)
  show ?case
  proof (cases k)
    case 0
    then show ?thesis using Cons.prems full_word[of w] by (auto split: if_splits)
  next
    case (Suc k')
    then show ?thesis using Cons by (auto split: if_splits)
  qed
qed

lemma scan_words_hit: "scan_words ws < length ws \<Longrightarrow> ws ! scan_words ws \<noteq> - 1"
  by (induction ws) auto

lemma scan_bit_le: "j \<le> 32 \<Longrightarrow> scan_bit w j \<le> 32 \<and> j \<le> scan_bit w j"
proof (induction w j rule: scan_bit.induct)
  case (1 w j)
  then show ?case by (subst (1 2) scan_bit.simps) auto
qed

lemma scan_bit_before: "j \<le> k \<Longrightarrow> k < scan_bit w j \<Longrightarrow> bit w k"
proof (induction w j rule: scan_bit.induct)
  case (1 w j)
  show ?case
  proof (cases "j < 32 \<and> bit w j")
    case True
    then show ?thesis using "1" by (cases "j = k") (auto simp: scan_bit.simps[of w j])
  next
    case False
    then show ?thesis using "1.prems" by (auto simp: scan_bit.simps[of w j])
  qed
qed

lemma scan_bit_hit: "scan_bit w j < 32 \<Longrightarrow> \<not> bit w (scan_bit w j)"
proof (induction w j rule: scan_bit.induct)
  case (1 w j)
  then show ?case by (auto simp: scan_bit.simps[of w j] split: if_splits)
qed

text \<open>On a word that is not all ones the bit loop stops at the lowest clear bit.\<close>

lemma scan_bit_spec:
  assumes "w \<noteq> - 1"
  shows "scan_bit w 0 < 32" and "\<not> bit w (scan_bit w 0)" and "k < scan_bit w 0 \<Longrightarrow> bit w k"
proof -
  show *: "scan_bit w 0 < 32"
  proof (rule ccontr)
    assume "\<not> scan_bit w 0 < 32"
    then have "\<forall>k < 32. bit w k" using scan_bit_before[of 0 _ w] by auto
    then have "w = - 1" by (auto intro!: bit_eqI)
    with assms show False by simp
  qed
  show "\<not> bit w (scan_bit w 0)" using * by (rule scan_bit_hit)
  show "bit w k" if "k < scan_bit w 0" using scan_bit_before[of 0 k w] that by simp
qed

text \<open>Bit \<open>i\<close> of a block, and the lowest clear bit the two loops find in it.\<close>

definition blk_bit :: "u32 list \<Rightarrow> nat \<Rightarrow> bool" where
  "blk_bit ws i = bit (ws ! (i div 32)) (i mod 32)"

lemma bm_bit_blk:
  "disk (fb + b div BITS_PER_BLOCK) = Some ws \<Longrightarrow> bm_bit disk fb b = blk_bit ws (b mod BITS_PER_BLOCK)"
proof -
  assume d: "disk (fb + b div BITS_PER_BLOCK) = Some ws"
  have "b mod 8192 mod 32 = b mod 32" by (rule mod_mod_cancel) simp
  then show ?thesis using d by (simp add: bm_bit_def blk_bit_def bm_consts)
qed

lemma blk_full:
  assumes "length ws = WORDS_PER_BLOCK" and "scan_words ws \<ge> WORDS_PER_BLOCK" and "i < BITS_PER_BLOCK"
  shows "blk_bit ws i"
proof -
  have "i div 32 < scan_words ws" using assms(2,3) by (simp add: bm_consts)
  then have "ws ! (i div 32) = - 1" by (rule scan_words_before)
  then show ?thesis by (simp add: blk_bit_def)
qed

lemma blk_first_clear:
  assumes "length ws = WORDS_PER_BLOCK" and "scan_words ws < WORDS_PER_BLOCK"
    and p: "p = scan_words ws * 32 + scan_bit (ws ! scan_words ws) 0"
  shows "p < BITS_PER_BLOCK" and "p div 32 = scan_words ws" and "p mod 32 = scan_bit (ws ! scan_words ws) 0"
    and "\<not> blk_bit ws p" and "\<And>q. q < p \<Longrightarrow> blk_bit ws q"
proof -
  let ?i = "scan_words ws" and ?j = "scan_bit (ws ! scan_words ws) 0"
  have w: "ws ! ?i \<noteq> - 1" using assms(1,2) by (intro scan_words_hit) simp
  note j = scan_bit_spec[OF w]
  show d: "p div 32 = ?i" and m: "p mod 32 = ?j" using p j(1) by auto
  show "p < BITS_PER_BLOCK" using p j(1) assms(2) by (simp add: bm_consts)
  show "\<not> blk_bit ws p" using d m j(2) by (simp add: blk_bit_def)
  fix q assume q: "q < p"
  show "blk_bit ws q"
  proof (cases "q div 32 = ?i")
    case True
    then have "q mod 32 < ?j" using q p div_mult_mod_eq[of q 32] by simp
    then show ?thesis using True j(3) by (simp add: blk_bit_def)
  next
    case False
    then have "q div 32 < ?i" using div_le_mono[of q p 32] q d by simp
    then have "ws ! (q div 32) = - 1" by (rule scan_words_before)
    then show ?thesis by (simp add: blk_bit_def)
  qed
qed

lemma blk_bit_set:
  assumes "length ws = WORDS_PER_BLOCK" and "p < BITS_PER_BLOCK" and "q < BITS_PER_BLOCK"
  shows "blk_bit (ws[p div 32 := ws ! (p div 32) OR push_bit (p mod 32) 1]) q \<longleftrightarrow> q = p \<or> blk_bit ws q"
proof (cases "q div 32 = p div 32")
  case True
  have "q = p \<longleftrightarrow> q mod 32 = p mod 32"
    using True div_mult_mod_eq[of q 32] div_mult_mod_eq[of p 32] by auto
  then show ?thesis using True assms
    by (auto simp: blk_bit_def bm_consts bit_or_iff bit_push_bit_iff bit_1_iff bit_exp_iff)
next
  case False
  then show ?thesis by (auto simp: blk_bit_def)
qed

lemma blk_bit_clear:
  assumes "length ws = WORDS_PER_BLOCK" and "p < BITS_PER_BLOCK" and "q < BITS_PER_BLOCK"
  shows "blk_bit (ws[p div 32 := ws ! (p div 32) AND NOT (push_bit (p mod 32) 1)]) q \<longleftrightarrow>
    q \<noteq> p \<and> blk_bit ws q"
proof (cases "q div 32 = p div 32")
  case True
  have "q = p \<longleftrightarrow> q mod 32 = p mod 32"
    using True div_mult_mod_eq[of q 32] div_mult_mod_eq[of p 32] by auto
  then show ?thesis using True assms
    by (auto simp: blk_bit_def bm_consts bit_and_iff bit_not_iff bit_push_bit_iff bit_1_iff bit_exp_iff)
next
  case False
  then show ?thesis by (auto simp: blk_bit_def)
qed

text \<open>Changing one block changes the bits of that block only.\<close>

lemma bm_bit_upd:
  "bm_bit (disk(fb + k \<mapsto> ws')) fb c =
     (if c div BITS_PER_BLOCK = k then blk_bit ws' (c mod BITS_PER_BLOCK) else bm_bit disk fb c)"
proof (cases "c div BITS_PER_BLOCK = k")
  case True
  then show ?thesis using bm_bit_blk[of "disk(fb + k \<mapsto> ws')" fb c ws'] by simp
next
  case False
  then show ?thesis by (simp add: bm_bit_def)
qed

lemma bm_ok_upd: "bm_ok disk fb n \<Longrightarrow> length ws' = WORDS_PER_BLOCK \<Longrightarrow> bm_ok (disk(fb + k \<mapsto> ws')) fb n"
  by (auto simp: bm_ok_def)

lemma alloc_loop_None:
  assumes "alloc_loop disk fb n mx block = (disk', None)" and "bm_ok disk fb n"
    and "n * BITS_PER_BLOCK \<le> 2 ^ 32"
  shows "disk' = disk \<and> (\<forall>b. block * BITS_PER_BLOCK \<le> b \<and> b \<le> mx \<and> b < n * BITS_PER_BLOCK \<longrightarrow> bm_bit disk fb b)"
  using assms
proof (induction disk fb n mx block rule: alloc_loop.induct)
  case (1 disk fb n mx block)
  show ?case
  proof (cases "block < n")
    case False
    then show ?thesis using "1.prems" by (auto simp: alloc_loop.simps[of disk fb n mx block] bm_consts)
  next
    case True
    then obtain ws where ws: "disk (fb + block) = Some ws" "length ws = WORDS_PER_BLOCK"
      using "1.prems"(2) by (auto simp: bm_ok_def)
    let ?i = "scan_words ws"
    let ?p = "?i * 32 + scan_bit (ws ! ?i) 0"
    show ?thesis
    proof (cases "?i \<ge> WORDS_PER_BLOCK")
      case full: True
      have rec: "alloc_loop disk fb n mx (Suc block) = (disk', None)"
        using "1.prems"(1) True ws full by (simp add: alloc_loop.simps[of disk fb n mx block])
      have IH: "disk' = disk \<and> (\<forall>b. Suc block * BITS_PER_BLOCK \<le> b \<and> b \<le> mx \<and> b < n * BITS_PER_BLOCK
          \<longrightarrow> bm_bit disk fb b)"
        using "1.IH"[OF True ws(1) refl full rec "1.prems"(2,3)] .
      have "bm_bit disk fb b" if "block * BITS_PER_BLOCK \<le> b" "b < Suc block * BITS_PER_BLOCK" for b
      proof -
        have "b div BITS_PER_BLOCK = block" using that by (intro div_nat_eqI) (auto simp: bm_consts)
        then show ?thesis using bm_bit_blk[of disk fb b ws] ws blk_full[OF ws(2) full]
          by (simp add: bm_consts)
      qed
      then show ?thesis using IH by (meson not_less)
    next
      case False
      note first = blk_first_clear[OF ws(2) _ refl]
      have p: "?p < BITS_PER_BLOCK" using False by (intro first) simp
      have "block * BITS_PER_BLOCK + ?p < n * BITS_PER_BLOCK" using True p by (simp add: bm_consts)
      then have b: "(block * BITS_PER_BLOCK + ?i * 32 + scan_bit (ws ! ?i) 0) mod 2 ^ 32
          = block * BITS_PER_BLOCK + ?p" using "1.prems"(3) by (simp add: bm_consts)
      have gt: "block * BITS_PER_BLOCK + ?p > mx" and eq: "disk' = disk"
        using "1.prems"(1) True ws False b
        by (auto simp: alloc_loop.simps[of disk fb n mx block] Let_def simp del: mod_less split: if_splits)
      have "bm_bit disk fb c" if "block * BITS_PER_BLOCK \<le> c" "c \<le> mx" for c
      proof -
        have c: "c < block * BITS_PER_BLOCK + ?p" using that gt by simp
        then have d: "c div BITS_PER_BLOCK = block" using that p by (intro div_nat_eqI) (auto simp: bm_consts)
        then have "c mod BITS_PER_BLOCK < ?p" using c div_mult_mod_eq[of c BITS_PER_BLOCK] by simp
        then have "blk_bit ws (c mod BITS_PER_BLOCK)" using False first(5) by simp
        then show ?thesis using bm_bit_blk[of disk fb c ws] ws d by simp
      qed
      then show ?thesis using eq by blast
    qed
  qed
qed

lemma alloc_loop_Some:
  assumes "alloc_loop disk fb n mx block = (disk', Some b)" and "bm_ok disk fb n"
    and "n * BITS_PER_BLOCK \<le> 2 ^ 32"
  shows "block * BITS_PER_BLOCK \<le> b \<and> b \<le> mx \<and> b < n * BITS_PER_BLOCK
    \<and> \<not> bm_bit disk fb b \<and> (\<forall>c. block * BITS_PER_BLOCK \<le> c \<and> c < b \<longrightarrow> bm_bit disk fb c)
    \<and> (\<forall>c. bm_bit disk' fb c \<longleftrightarrow> c = b \<or> bm_bit disk fb c)
    \<and> (\<forall>k. k \<noteq> fb + b div BITS_PER_BLOCK \<longrightarrow> disk' k = disk k) \<and> bm_ok disk' fb n"
  using assms
proof (induction disk fb n mx block rule: alloc_loop.induct)
  case (1 disk fb n mx block)
  have True: "block < n"
    using "1.prems"(1) by (auto simp: alloc_loop.simps[of disk fb n mx block] split: if_splits)
  then obtain ws where ws: "disk (fb + block) = Some ws" "length ws = WORDS_PER_BLOCK"
    using "1.prems"(2) by (auto simp: bm_ok_def)
  let ?i = "scan_words ws"
  let ?p = "?i * 32 + scan_bit (ws ! ?i) 0"
  show ?case
  proof (cases "?i \<ge> WORDS_PER_BLOCK")
    case full: True
    have rec: "alloc_loop disk fb n mx (Suc block) = (disk', Some b)"
      using "1.prems"(1) True ws full by (simp add: alloc_loop.simps[of disk fb n mx block])
    note IH = "1.IH"[OF True ws(1) refl full rec "1.prems"(2,3)]
    have "bm_bit disk fb c" if "block * BITS_PER_BLOCK \<le> c" "c < Suc block * BITS_PER_BLOCK" for c
    proof -
      have "c div BITS_PER_BLOCK = block" using that by (intro div_nat_eqI) (auto simp: bm_consts)
      then show ?thesis using bm_bit_blk[of disk fb c ws] ws blk_full[OF ws(2) full]
        by (simp add: bm_consts)
    qed
    then have "\<forall>c. block * BITS_PER_BLOCK \<le> c \<and> c < b \<longrightarrow> bm_bit disk fb c"
      using IH by (meson not_less)
    moreover have "block * BITS_PER_BLOCK \<le> b" using IH by simp
    ultimately show ?thesis using IH by blast
  next
    case False
    note first = blk_first_clear[OF ws(2) _ refl]
    have lt: "?i < WORDS_PER_BLOCK" using False by simp
    have p: "?p < BITS_PER_BLOCK" using lt by (rule first)
    have pn: "block * BITS_PER_BLOCK + ?p < n * BITS_PER_BLOCK" using True p by (simp add: bm_consts)
    then have bmod: "(block * BITS_PER_BLOCK + ?i * 32 + scan_bit (ws ! ?i) 0) mod 2 ^ 32
        = block * BITS_PER_BLOCK + ?p" using "1.prems"(3) by (simp add: bm_consts)
    let ?ws = "ws[?i := ws ! ?i OR push_bit (scan_bit (ws ! ?i) 0) 1]"
    have b: "b = block * BITS_PER_BLOCK + ?p" and le: "b \<le> mx" and eq: "disk' = disk(fb + block \<mapsto> ?ws)"
      using "1.prems"(1) True ws False bmod
      by (auto simp: alloc_loop.simps[of disk fb n mx block] Let_def simp del: mod_less split: if_splits)
    have bd: "b div BITS_PER_BLOCK = block" and bm: "b mod BITS_PER_BLOCK = ?p"
      using b p by (auto simp: bm_consts)
    have clear: "\<not> bm_bit disk fb b" using bm_bit_blk[of disk fb b ws] ws bd bm first(4)[OF lt] by simp
    have before: "bm_bit disk fb c" if "block * BITS_PER_BLOCK \<le> c" "c < b" for c
    proof -
      have d: "c div BITS_PER_BLOCK = block" using that b p by (intro div_nat_eqI) (auto simp: bm_consts)
      then have "c mod BITS_PER_BLOCK < ?p" using that b div_mult_mod_eq[of c BITS_PER_BLOCK] by simp
      then have "blk_bit ws (c mod BITS_PER_BLOCK)" using lt first(5) by simp
      then show ?thesis using bm_bit_blk[of disk fb c ws] ws d by simp
    qed
    have "bm_bit disk' fb c \<longleftrightarrow> c = b \<or> bm_bit disk fb c" for c
    proof (cases "c div BITS_PER_BLOCK = block")
      case cd: True
      have "c = b \<longleftrightarrow> c mod BITS_PER_BLOCK = ?p" using cd bd bm by (metis div_mult_mod_eq)
      moreover have "blk_bit ?ws (c mod BITS_PER_BLOCK) \<longleftrightarrow>
          c mod BITS_PER_BLOCK = ?p \<or> blk_bit ws (c mod BITS_PER_BLOCK)"
        using blk_bit_set[OF ws(2) p, of "c mod BITS_PER_BLOCK"] first(2,3)[OF lt]
        by (simp add: bm_consts)
      ultimately show ?thesis using cd eq ws bm_bit_blk[of disk fb c ws] by (simp add: bm_bit_upd)
    next
      case False
      then show ?thesis using eq bd by (auto simp: bm_bit_upd)
    qed
    moreover have "bm_ok disk' fb n" unfolding eq using "1.prems"(2) ws(2) by (intro bm_ok_upd) auto
    moreover have "\<forall>k. k \<noteq> fb + b div BITS_PER_BLOCK \<longrightarrow> disk' k = disk k" using eq bd by simp
    ultimately show ?thesis using le b pn clear before by auto
  qed
qed

text \<open>The parameters of a map: its first block, its length in blocks, its last bit, the search hint.\<close>

definition map_from :: "super_block \<Rightarrow> which_map \<Rightarrow> nat" where
  "map_from sp which = (case which of IMAP \<Rightarrow> SUPER_BLOCK + 1
     | ZMAP \<Rightarrow> SUPER_BLOCK + 1 + nat (s_imblocks sp))"

definition map_blocks :: "super_block \<Rightarrow> which_map \<Rightarrow> nat" where
  "map_blocks sp which = (case which of IMAP \<Rightarrow> nat (s_imblocks sp) | ZMAP \<Rightarrow> nat (s_zmblocks sp))"

definition map_max :: "super_block \<Rightarrow> which_map \<Rightarrow> nat" where
  "map_max sp which = (case which of IMAP \<Rightarrow> s_ninodes sp | ZMAP \<Rightarrow> s_zones sp - s_fdzone sp)"

definition map_hint :: "super_block \<Rightarrow> which_map \<Rightarrow> nat" where
  "map_hint sp which = (case which of IMAP \<Rightarrow> s_isearch sp | ZMAP \<Rightarrow> s_zsearch sp)"

text \<open>The inode or zone number a bit stands for.\<close>

definition bit_number :: "super_block \<Rightarrow> which_map \<Rightarrow> nat \<Rightarrow> nat" where
  "bit_number sp which b = (case which of IMAP \<Rightarrow> b | ZMAP \<Rightarrow> b + s_fdzone sp - 1)"

definition map_used :: "super_block \<Rightarrow> blocks \<Rightarrow> which_map \<Rightarrow> nat set" where
  "map_used sp disk which = {b. b \<le> map_max sp which \<and> bm_bit disk (map_from sp which) b}"

definition map_free :: "super_block \<Rightarrow> blocks \<Rightarrow> which_map \<Rightarrow> nat set" where
  "map_free sp disk which = {b. b \<le> map_max sp which \<and> \<not> bm_bit disk (map_from sp which) b}"

text \<open>
  A mounted, writable super block: the ranges its 16-bit fields have and \<open>sread\<close>
  checked, a bitmap that covers every bit and can be read, the reserved bit 0 in
  use, and a search hint below whose block no bit is free.
\<close>

definition super_ok :: "super_block \<Rightarrow> bool" where
  "super_ok sp \<longleftrightarrow> s_dev sp \<noteq> NODEV \<and> \<not> s_roflag sp
     \<and> 1 \<le> s_imblocks sp \<and> s_imblocks sp < 2 ^ 15 \<and> 1 \<le> s_zmblocks sp \<and> s_zmblocks sp < 2 ^ 15
     \<and> s_ninodes sp < 2 ^ 16 \<and> 1 \<le> s_fdzone sp \<and> s_fdzone sp < 2 ^ 16
     \<and> s_fdzone sp < s_zones sp \<and> s_zones sp < 2 ^ 32"

definition map_ok :: "which_map \<Rightarrow> super_block \<times> blocks \<Rightarrow> bool" where
  "map_ok which s = (case s of (sp, disk) \<Rightarrow>
     super_ok sp \<and> s_flags sp AND LOCK_BITOP = 0
     \<and> bm_ok disk (map_from sp which) (map_blocks sp which)
     \<and> map_max sp which < map_blocks sp which * BITS_PER_BLOCK
     \<and> bm_bit disk (map_from sp which) 0
     \<and> (\<forall>b. b < map_hint sp which div BITS_PER_BLOCK * BITS_PER_BLOCK \<and> b \<le> map_max sp which
            \<and> map_hint sp which \<le> map_max sp which \<longrightarrow> bm_bit disk (map_from sp which) b))"

lemma unlock_bitop_eq:
  "unlock_bitop sp = (sp\<lparr>s_flags := (s_flags sp AND NOT LOCK_BITOP) AND NOT WANT_BITOP\<rparr>,
     s_flags sp AND WANT_BITOP \<noteq> 0)"
proof -
  have n: "LOCK_BITOP AND WANT_BITOP = 0" by (simp add: LOCK_BITOP_def WANT_BITOP_def)
  have w: "(w AND NOT LOCK_BITOP) AND WANT_BITOP = w AND WANT_BITOP" for w :: u16
    by (rule bit_word_eqI) (use n in \<open>auto simp: bit_simps dest!: arg_cong[of _ _ bit] fun_cong\<close>)
  have z: "w AND NOT WANT_BITOP = w" if "w AND WANT_BITOP = 0" for w :: u16
    by (rule bit_word_eqI) (use that in \<open>auto simp: bit_simps dest!: arg_cong[of _ _ bit] fun_cong\<close>)
  show ?thesis
    by (auto simp: unlock_bitop_def Let_def w intro!: arg_cong[of _ _ "\<lambda>x. sp\<lparr>s_flags := x\<rparr>"] z[symmetric])
qed

lemma unlocked: "s_flags (fst (unlock_bitop sp)) AND LOCK_BITOP = 0"
  by (rule bit_word_eqI) (auto simp: unlock_bitop_eq bit_simps)

lemma relock_want:
  "((w::u16) OR LOCK_BITOP) AND WANT_BITOP = 0 \<longleftrightarrow> w AND WANT_BITOP = 0"
  by (simp add: LOCK_BITOP_def WANT_BITOP_def bit.conj_disj_distrib2)

definition set_hint :: "which_map \<Rightarrow> nat \<Rightarrow> super_block \<Rightarrow> super_block" where
  "set_hint which h sp = (case which of IMAP \<Rightarrow> sp\<lparr>s_isearch := h\<rparr> | ZMAP \<Rightarrow> sp\<lparr>s_zsearch := h\<rparr>)"

definition released :: "super_block \<Rightarrow> super_block" where
  "released sp = sp\<lparr>s_flags := ((s_flags sp OR LOCK_BITOP) AND NOT LOCK_BITOP) AND NOT WANT_BITOP\<rparr>"

definition woken :: "super_block \<Rightarrow> bool" where
  "woken sp \<longleftrightarrow> s_flags sp AND WANT_BITOP \<noteq> 0"

lemma usub32_sub: "b \<le> a \<Longrightarrow> a < 2 ^ 32 \<Longrightarrow> usub32 a b = a - b"
proof -
  assume le: "b \<le> a" and a: "a < 2 ^ 32"
  then have "usub32 a b = ((a - b) + 2 ^ 32) mod 2 ^ 32" by (simp add: usub32_def)
  also have "\<dots> = (a - b) mod 2 ^ 32" by (rule mod_add_self2)
  finally show ?thesis using a by simp
qed

lemma super_params:
  assumes "super_ok sp"
  shows "usub32 (s_zones sp) (s_fdzone sp) = s_zones sp - s_fdzone sp"
    and "to_u32 (s_imblocks sp) = nat (s_imblocks sp)"
    and "to_u32 (s_zmblocks sp) = nat (s_zmblocks sp)"
    and "to_u32 (int (s_fdzone sp) - 1) = s_fdzone sp - 1"
  using assms by (simp_all add: super_ok_def to_u32_def nat_diff_distrib' usub32_sub)

lemma map_max_less: "super_ok sp \<Longrightarrow> map_max sp which < 2 ^ 32"
  by (cases which) (auto simp: super_ok_def map_max_def)

lemma map_blocks_bits: "super_ok sp \<Longrightarrow> map_blocks sp which * BITS_PER_BLOCK \<le> 2 ^ 32"
  by (cases which) (auto simp: super_ok_def map_blocks_def bm_consts)

lemma bitalloc_unfold:
  assumes ok: "map_ok which (sp, disk)"
  shows "bitalloc sp disk which =
    (case alloc_loop disk (map_from sp which) (map_blocks sp which) (map_max sp which)
        ((if map_hint sp which > map_max sp which then 1 else map_hint sp which) div BITS_PER_BLOCK) of
       (disk', None) \<Rightarrow> Inr (released sp, disk', Done NOBIT (woken sp))
     | (disk', Some b) \<Rightarrow> Inr (released (set_hint which ((b + 1) mod 2 ^ 32) sp), disk',
         Done ((case which of IMAP \<Rightarrow> b | ZMAP \<Rightarrow> (b + (s_fdzone sp - 1)) mod 2 ^ 32)) (woken sp)))"
proof -
  have s: "super_ok sp" and d: "s_dev sp \<noteq> NODEV" and r: "\<not> s_roflag sp" and l: "s_flags sp AND LOCK_BITOP = 0"
    using ok by (auto simp: map_ok_def super_ok_def)
  show ?thesis
    using super_params[OF s]
    by (cases which; simp add: bitalloc_def d r l map_from_def map_blocks_def map_max_def map_hint_def
        set_hint_def released_def woken_def unlock_bitop_eq relock_want Let_def
        split: option.split prod.split)
qed

lemma released_sel [simp]:
  "map_from (released sp) w = map_from sp w" "map_blocks (released sp) w = map_blocks sp w"
  "map_max (released sp) w = map_max sp w" "map_hint (released sp) w = map_hint sp w"
  "super_ok (released sp) = super_ok sp" "s_flags (released sp) AND LOCK_BITOP = 0"
  "bit_number (released sp) w = bit_number sp w"
  by (auto simp: released_def map_from_def map_blocks_def map_max_def map_hint_def super_ok_def
      bit_number_def fun_eq_iff split: which_map.split intro!: bit_word_eqI simp: bit_simps)

lemma set_hint_sel [simp]:
  "map_from (set_hint v h sp) w = map_from sp w" "map_blocks (set_hint v h sp) w = map_blocks sp w"
  "map_max (set_hint v h sp) w = map_max sp w" "map_hint (set_hint w h sp) w = h"
  "super_ok (set_hint v h sp) = super_ok sp" "s_flags (set_hint v h sp) = s_flags sp"
  "bit_number (set_hint v h sp) w = bit_number sp w" "s_fdzone (set_hint v h sp) = s_fdzone sp"
  by (cases v; cases w; auto simp: set_hint_def map_from_def map_blocks_def map_max_def map_hint_def
      super_ok_def bit_number_def fun_eq_iff)+

lemma bitalloc_number:
  assumes "super_ok sp" "b \<le> map_max sp which"
  shows "(case which of IMAP \<Rightarrow> b | ZMAP \<Rightarrow> (b + (s_fdzone sp - 1)) mod 2 ^ 32) = bit_number sp which b"
proof (cases which)
  case ZMAP
  have "b + (s_fdzone sp - 1) < 2 ^ 32" "1 \<le> s_fdzone sp"
    using assms ZMAP by (auto simp: super_ok_def map_max_def)
  then show ?thesis using ZMAP by (simp add: bit_number_def)
qed (simp add: bit_number_def)

lemma bitalloc_full:
  assumes ok: "map_ok which (sp, disk)" and none: "map_free sp disk which = {}"
  shows "bitalloc sp disk which = Inr (released sp, disk, Done NOBIT (woken sp))"
proof -
  let ?blk = "(if map_hint sp which > map_max sp which then 1 else map_hint sp which) div BITS_PER_BLOCK"
  have s: "super_ok sp" and bm: "bm_ok disk (map_from sp which) (map_blocks sp which)"
    using ok by (auto simp: map_ok_def)
  obtain disk' r where run: "alloc_loop disk (map_from sp which) (map_blocks sp which) (map_max sp which) ?blk
      = (disk', r)" by fastforce
  show ?thesis
  proof (cases r)
    case None
    then show ?thesis using alloc_loop_None[OF _ bm map_blocks_bits[OF s]] run bitalloc_unfold[OF ok] by simp
  next
    case (Some b)
    then have "b \<in> map_free sp disk which"
      using alloc_loop_Some[OF _ bm map_blocks_bits[OF s]] run by (auto simp: map_free_def)
    then show ?thesis using none by simp
  qed
qed

lemma bitalloc_some:
  assumes ok: "map_ok which (sp, disk)" and free: "map_free sp disk which \<noteq> {}"
  defines "b \<equiv> Min (map_free sp disk which)"
  shows "\<exists>disk'. bitalloc sp disk which = Inr (released (set_hint which (b + 1) sp), disk',
      Done (bit_number sp which b) (woken sp))
    \<and> (\<forall>c. bm_bit disk' (map_from sp which) c \<longleftrightarrow> c = b \<or> bm_bit disk (map_from sp which) c)
    \<and> (\<forall>k. k \<noteq> map_from sp which + b div BITS_PER_BLOCK \<longrightarrow> disk' k = disk k)
    \<and> map_ok which (released (set_hint which (b + 1) sp), disk')"
proof -
  let ?start = "if map_hint sp which > map_max sp which then 1 else map_hint sp which"
  let ?blk = "?start div BITS_PER_BLOCK"
  let ?fb = "map_from sp which"
  have s: "super_ok sp" and bm: "bm_ok disk ?fb (map_blocks sp which)"
    and cover: "map_max sp which < map_blocks sp which * BITS_PER_BLOCK"
    and below: "\<And>c. c < ?blk * BITS_PER_BLOCK \<Longrightarrow> c \<le> map_max sp which \<Longrightarrow> bm_bit disk ?fb c"
    and zero: "bm_bit disk ?fb 0"
    using ok by (auto simp: map_ok_def bm_consts split: if_splits)
  have fin: "finite (map_free sp disk which)" by (auto simp: map_free_def)
  obtain disk' r where run: "alloc_loop disk ?fb (map_blocks sp which) (map_max sp which) ?blk = (disk', r)"
    by fastforce
  obtain c where c: "c \<le> map_max sp which" "\<not> bm_bit disk ?fb c" using free by (auto simp: map_free_def)
  show ?thesis
  proof (cases r)
    case None
    then have "bm_bit disk ?fb c"
      using alloc_loop_None[OF _ bm map_blocks_bits[OF s]] run c(1) cover below[of c]
      by (cases "c < ?blk * BITS_PER_BLOCK") auto
    then show ?thesis using c by simp
  next
    case (Some d)
    note spec = alloc_loop_Some[OF run[unfolded Some] bm map_blocks_bits[OF s]]
    have all: "bm_bit disk ?fb c" if "c < d" for c
      using spec below[of c] that by (cases "c < ?blk * BITS_PER_BLOCK") auto
    have "b = d" unfolding b_def
      by (rule Min_eqI[OF fin]) (use spec all in \<open>auto simp: map_free_def intro: leI\<close>)
    moreover have "d + 1 < 2 ^ 32" using spec s by (cases which) (auto simp: super_ok_def map_max_def)
    moreover have "bm_bit disk' ?fb c" if "c < (d + 1) div BITS_PER_BLOCK * BITS_PER_BLOCK" for c
    proof -
      have "c < d + 1" using that div_times_less_eq_dividend[of "d + 1" BITS_PER_BLOCK] by (rule less_le_trans)
      then show ?thesis using spec all by (cases "c = d") auto
    qed
    then have "map_ok which (released (set_hint which (d + 1) sp), disk')"
      using spec s cover zero by (simp add: map_ok_def)
    ultimately show ?thesis
      using spec bitalloc_unfold[OF ok] run Some bitalloc_number[OF s] by auto
  qed
qed

lemma bitfree_unfold:
  assumes ok: "map_ok which (sp, disk)" and b: "1 \<le> b" "b \<le> map_max sp which"
  shows "bitfree sp disk (bit_number sp which b) which =
    (if b = map_max sp which then Inr (sp, disk, Done () False)
     else case disk (map_from sp which + b div BITS_PER_BLOCK) of
        None \<Rightarrow> Inr (released sp, disk, Done () (woken sp))
      | Some ws \<Rightarrow>
          let p = b mod BITS_PER_BLOCK in
          Inr (released (if p < map_hint sp which then set_hint which p sp else sp),
               disk(map_from sp which + b div BITS_PER_BLOCK \<mapsto>
                 ws[p div 32 := ws ! (p div 32) AND NOT (push_bit (p mod 32) 1)]),
               Done () (woken sp)))"
proof -
  have s: "super_ok sp" and d: "s_dev sp \<noteq> NODEV" and r: "\<not> s_roflag sp" and l: "s_flags sp AND LOCK_BITOP = 0"
    using ok by (auto simp: map_ok_def super_ok_def)
  have m: "map_max sp which < 2 ^ 32" by (rule map_max_less[OF s])
  show ?thesis
  proof (cases which)
    case IMAP
    have "to_u32 (int (s_ninodes sp) - 1) = s_ninodes sp - 1"
      using b m IMAP by (simp add: map_max_def to_u32_def nat_diff_distrib')
    then show ?thesis using b IMAP
      by (auto simp: bitfree_def d r l map_from_def map_max_def map_hint_def bit_number_def
          set_hint_def released_def woken_def unlock_bitop_eq relock_want Let_def split: option.split)
  next
    case ZMAP
    have f: "1 \<le> s_fdzone sp" "s_fdzone sp < s_zones sp" "s_zones sp < 2 ^ 32"
      using s by (auto simp: super_ok_def)
    have "usub32 (s_zones sp - s_fdzone sp) 1 = s_zones sp - s_fdzone sp - 1"
      using f by (intro usub32_sub) auto
    moreover have "usub32 (b + s_fdzone sp - 1) (s_fdzone sp - 1) = b"
      using usub32_sub[of "s_fdzone sp - 1" "b + s_fdzone sp - 1"] f b ZMAP by (simp add: map_max_def)
    moreover have "b > s_zones sp - s_fdzone sp - 1 \<longleftrightarrow> b = s_zones sp - s_fdzone sp"
      using b ZMAP by (auto simp: map_max_def)
    ultimately show ?thesis using ZMAP
      by (simp only: bitfree_def d r l map_from_def map_max_def map_hint_def bit_number_def super_params[OF s]
          set_hint_def released_def woken_def unlock_bitop_eq relock_want Let_def if_False if_True
          which_map.case simp_thms)
        (simp add: relock_want split: option.split)
  qed
qed

lemma bitfree_some:
  assumes ok: "map_ok which (sp, disk)" and b: "1 \<le> b" "b < map_max sp which"
  shows "\<exists>sp' disk'. bitfree sp disk (bit_number sp which b) which = Inr (sp', disk', Done () (woken sp))
    \<and> (\<forall>c. bm_bit disk' (map_from sp which) c \<longleftrightarrow> c \<noteq> b \<and> bm_bit disk (map_from sp which) c)
    \<and> (\<forall>k. k \<noteq> map_from sp which + b div BITS_PER_BLOCK \<longrightarrow> disk' k = disk k)
    \<and> map_ok which (sp', disk') \<and> map_from sp' which = map_from sp which
    \<and> map_max sp' which = map_max sp which \<and> bit_number sp' which = bit_number sp which"
proof -
  let ?fb = "map_from sp which" and ?k = "b div BITS_PER_BLOCK" and ?p = "b mod BITS_PER_BLOCK"
  have s: "super_ok sp" and bm: "bm_ok disk ?fb (map_blocks sp which)"
    and cover: "map_max sp which < map_blocks sp which * BITS_PER_BLOCK"
    and zero: "bm_bit disk ?fb 0"
    using ok by (auto simp: map_ok_def)
  have "?k < map_blocks sp which" using b cover by (simp add: less_mult_imp_div_less)
  then obtain ws where ws: "disk (?fb + ?k) = Some ws" "length ws = WORDS_PER_BLOCK"
    using bm by (auto simp: bm_ok_def)
  let ?ws = "ws[?p div 32 := ws ! (?p div 32) AND NOT (push_bit (?p mod 32) 1)]"
  let ?disk = "disk(?fb + ?k \<mapsto> ?ws)"
  let ?sp = "released (if ?p < map_hint sp which then set_hint which ?p sp else sp)"
  have run: "bitfree sp disk (bit_number sp which b) which = Inr (?sp, ?disk, Done () (woken sp))"
    using bitfree_unfold[OF ok b(1)] b(2) ws(1) by (simp add: Let_def)
  have bits: "bm_bit ?disk ?fb c \<longleftrightarrow> c \<noteq> b \<and> bm_bit disk ?fb c" for c
  proof (cases "c div BITS_PER_BLOCK = ?k")
    case True
    then have "c = b \<longleftrightarrow> c mod BITS_PER_BLOCK = ?p" by (metis div_mult_mod_eq)
    moreover have "bm_bit disk ?fb c = blk_bit ws (c mod BITS_PER_BLOCK)"
      using bm_bit_blk[of disk ?fb c ws] ws True by simp
    ultimately show ?thesis using True blk_bit_clear[OF ws(2), of ?p "c mod BITS_PER_BLOCK"]
      by (simp add: bm_bit_upd bm_consts)
  next
    case False
    then show ?thesis by (auto simp: bm_bit_upd)
  qed
  have "map_hint ?sp which div BITS_PER_BLOCK = 0"
    by (auto simp: bm_consts not_less intro: le_less_trans[of _ "b mod 8192"])
  then have "map_ok which (?sp, ?disk)"
    using bits s cover zero b bm ws(2) by (simp add: map_ok_def bm_ok_upd)
  then show ?thesis using run bits by (intro exI[of _ ?sp] exI[of _ ?disk]) auto
qed

lemma get_zero_bits_eq:
  "n \<le> 32 \<Longrightarrow> get_zero_bits w (int n) = int (length (filter (\<lambda>i. \<not> bit w i) [0..<n]))"
proof -
  have "(drop_bit i w AND 1 = 0) = (\<not> bit w i)" for i
    by (simp add: bit_iff_odd_drop_bit even_iff_mod_2_eq_zero and_one_eq)
  then show "n \<le> 32 \<Longrightarrow> ?thesis" by simp
qed

lemma blk_bit_Cons: "blk_bit (w # ws) i = (if i < 32 then bit w i else blk_bit ws (i - 32))"
proof (cases "i < 32")
  case True
  then show ?thesis by (simp add: blk_bit_def)
next
  case False
  then have "i = (i - 32) + 32" by simp
  then have "i div 32 = Suc ((i - 32) div 32)" "i mod 32 = (i - 32) mod 32"
    by (metis div_add_self2 Suc_eq_plus1 zero_neq_numeral, metis mod_add_self2)
  then show ?thesis using False by (simp add: blk_bit_def)
qed

lemma filter_blk_Cons:
  "length (filter (\<lambda>i. \<not> blk_bit (w # ws) i) [0..<32 + m]) =
   length (filter (\<lambda>i. \<not> bit w i) [0..<32]) + length (filter (\<lambda>i. \<not> blk_bit ws i) [0..<m])"
proof -
  have "[0..<32 + m] = [0..<32] @ map (\<lambda>i. i + 32) [0..<m]"
    using upt_add_eq_append[of 0 32 m] map_add_upt[of 32 m] by (simp add: add.commute)
  moreover have "filter (\<lambda>i. \<not> blk_bit (w # ws) i) [0..<32] = filter (\<lambda>i. \<not> bit w i) [0..<32]"
    by (rule filter_cong) (auto simp: blk_bit_Cons)
  moreover have "(\<lambda>i. \<not> blk_bit (w # ws) i) \<circ> (\<lambda>i. i + 32) = (\<lambda>i. \<not> blk_bit ws i)"
    by (auto simp: blk_bit_Cons fun_eq_iff)
  ultimately show ?thesis by (simp add: filter_map)
qed

lemma filter_blk_short:
  "m \<le> 32 \<Longrightarrow> filter (\<lambda>i. \<not> blk_bit (w # ws) i) [0..<m] = filter (\<lambda>i. \<not> bit w i) [0..<m]"
  by (rule filter_cong) (auto simp: blk_bit_Cons)

text \<open>The words of a block count the clear bits up to the last index.\<close>

lemma count_words_stop: "b > mx \<Longrightarrow> count_words ws mx b c = (b, c)"
  by (cases ws) auto

lemma count_words_eq:
  "count_words ws (b + int n - 1) b c =
     (b + int (min n (32 * length ws)),
      c + int (length (filter (\<lambda>i. \<not> blk_bit ws i) [0..<min n (32 * length ws)])))"
proof (induction ws arbitrary: b n c)
  case Nil
  then show ?case by simp
next
  case (Cons w ws)
  show ?case
  proof (cases "n \<le> 32")
    case True
    have "min n (32 * length (w # ws)) = n" using True by simp
    moreover have "count_words (w # ws) (b + int n - 1) b c =
        (b + int n, c + int (length (filter (\<lambda>i. \<not> bit w i) [0..<n])))"
    proof (cases "n = 0")
      case nz: False
      have "(if b + 32 > b + int n - 1 then b + int n - 1 - b + 1 else 32) = int n" using True by simp
      then have "count_words (w # ws) (b + int n - 1) b c =
          count_words ws (b + int n - 1) (b + int n) (c + get_zero_bits w (int n))"
        using nz by (simp add: Let_def del: get_zero_bits.simps)
      then show ?thesis using get_zero_bits_eq[OF True] by (simp add: count_words_stop del: get_zero_bits.simps)
    qed simp
    ultimately show ?thesis using True by (simp add: filter_blk_short)
  next
    case False
    define m where "m = n - 32"
    have n: "n = 32 + m" using False by (simp add: m_def)
    have "(if b + 32 > b + int n - 1 then b + int n - 1 - b + 1 else 32) = 32" using n by simp
    moreover have "b + int n - 1 = (b + 32) + int m - 1" using n by simp
    ultimately have "count_words (w # ws) (b + int n - 1) b c =
        count_words ws ((b + 32) + int m - 1) (b + 32) (c + get_zero_bits w 32)"
      using n by (simp add: Let_def del: get_zero_bits.simps)
    moreover have "min n (32 * length (w # ws)) = 32 + min m (32 * length ws)" using n by simp
    ultimately show ?thesis
      using Cons.IH[of "b + 32" m "c + get_zero_bits w 32"] get_zero_bits_eq[of 32 w] filter_blk_Cons[of w ws]
      by (simp del: get_zero_bits.simps)
  qed
qed

lemma filter_bm_block:
  assumes "disk (fb + k) = Some ws" and "m \<le> BITS_PER_BLOCK"
  shows "length (filter (\<lambda>b. \<not> bm_bit disk fb b) [k * BITS_PER_BLOCK..<k * BITS_PER_BLOCK + m]) =
    length (filter (\<lambda>i. \<not> blk_bit ws i) [0..<m])"
proof -
  have "bm_bit disk fb (i + k * BITS_PER_BLOCK) = blk_bit ws i" if "i < m" for i
    using bm_bit_blk[of disk fb "i + k * BITS_PER_BLOCK" ws] assms that by (simp add: bm_consts)
  then have "filter ((\<lambda>b. \<not> bm_bit disk fb b) \<circ> (\<lambda>i. i + k * BITS_PER_BLOCK)) [0..<m] =
      filter (\<lambda>i. \<not> blk_bit ws i) [0..<m]" by (intro filter_cong) auto
  moreover have "[k * BITS_PER_BLOCK..<k * BITS_PER_BLOCK + m] = map (\<lambda>i. i + k * BITS_PER_BLOCK) [0..<m]"
    by (simp add: map_add_upt add.commute)
  ultimately show ?thesis by (simp add: filter_map)
qed

lemma count_loop_eq:
  assumes "bm_ok disk fb n" and "mx < n * BITS_PER_BLOCK" and "block * BITS_PER_BLOCK \<le> mx"
  shows "count_loop disk fb n (int mx) block (int (block * BITS_PER_BLOCK)) c =
    (c + int (length (filter (\<lambda>b. \<not> bm_bit disk fb b) [block * BITS_PER_BLOCK..<Suc mx])), False)"
  using assms
proof (induction "n - block" arbitrary: block c)
  case 0
  then have "n * BITS_PER_BLOCK \<le> block * BITS_PER_BLOCK" by (simp add: bm_consts)
  then have False using 0 by linarith
  then show ?case ..
next
  case (Suc d)
  let ?B = "block * BITS_PER_BLOCK"
  have lt: "block < n" using Suc.hyps by simp
  then obtain ws where ws: "disk (fb + block) = Some ws" "length ws = WORDS_PER_BLOCK"
    using Suc.prems by (auto simp: bm_ok_def)
  define m where "m = Suc mx - ?B"
  have len: "32 * length ws = BITS_PER_BLOCK" using ws by (simp add: bm_consts)
  have "int mx = int ?B + int m - 1" using Suc.prems by (simp add: m_def)
  then have cw: "count_words ws (int mx) (int ?B) c = (int ?B + int (min m BITS_PER_BLOCK),
      c + int (length (filter (\<lambda>b. \<not> bm_bit disk fb b) [?B..<?B + min m BITS_PER_BLOCK])))"
    using count_words_eq[of ws "int ?B" m c] len filter_bm_block[of disk fb block ws "min m BITS_PER_BLOCK"] ws(1)
    by simp
  show ?case
  proof (cases "m \<le> BITS_PER_BLOCK")
    case True
    have e: "?B + m = Suc mx" "int ?B + int m = int mx + 1" using Suc.prems by (simp_all add: m_def)
    have "min m BITS_PER_BLOCK = m" using True by simp
    then show ?thesis using cw lt ws
      by (simp add: count_loop.simps[of _ _ _ _ block] e del: upt_Suc of_nat_mult)
  next
    case False
    then have le: "Suc block * BITS_PER_BLOCK \<le> mx" by (auto simp: m_def)
    have sp: "[?B..<Suc mx] = [?B..<Suc block * BITS_PER_BLOCK] @ [Suc block * BITS_PER_BLOCK..<Suc mx]"
      using upt_add_eq_append[of ?B "Suc block * BITS_PER_BLOCK" "Suc mx - Suc block * BITS_PER_BLOCK"] le by simp
    have "int BITS_PER_BLOCK + int block * int BITS_PER_BLOCK \<le> int mx" using le by (simp add: bm_consts)
    then have "count_loop disk fb n (int mx) block (int ?B) c =
        count_loop disk fb n (int mx) (Suc block) (int (Suc block * BITS_PER_BLOCK))
          (c + int (length (filter (\<lambda>b. \<not> bm_bit disk fb b) [?B..<Suc block * BITS_PER_BLOCK])))"
      using cw False le lt ws
      by (simp add: count_loop.simps[of _ _ _ _ block] add.commute del: upt_Suc)
    then show ?thesis using Suc.hyps(1)[of "Suc block"] Suc.hyps(2) Suc.prems le
      by (simp add: sp del: upt_Suc)
  qed
qed

lemma get_free_bits_nr_eq:
  assumes ok: "map_ok which (sp, disk)"
  shows "get_free_bits_nr sp disk which =
    (released sp, Done (0, int (card (map_free sp disk which))) (woken sp))"
proof -
  have s: "super_ok sp" and l: "s_flags sp AND LOCK_BITOP = 0"
    and bm: "bm_ok disk (map_from sp which) (map_blocks sp which)"
    and cover: "map_max sp which < map_blocks sp which * BITS_PER_BLOCK"
    using ok by (auto simp: map_ok_def)
  have mx: "(case which of ZMAP \<Rightarrow> int (s_zones sp) - int (s_fdzone sp) | IMAP \<Rightarrow> int (s_ninodes sp))
      = int (map_max sp which)"
    using s by (cases which) (auto simp: map_max_def super_ok_def)
  have fb: "(case which of ZMAP \<Rightarrow> SUPER_BLOCK + 1 + nat (s_imblocks sp) | IMAP \<Rightarrow> SUPER_BLOCK + 1)
      = map_from sp which" and nb: "nat (case which of ZMAP \<Rightarrow> s_zmblocks sp | IMAP \<Rightarrow> s_imblocks sp)
      = map_blocks sp which"
    by (cases which; simp add: map_from_def map_blocks_def)+
  have "count_loop disk (map_from sp which) (map_blocks sp which) (int (map_max sp which)) 0 0 0 =
      (int (length (filter (\<lambda>b. \<not> bm_bit disk (map_from sp which) b) [0..<Suc (map_max sp which)])), False)"
    using count_loop_eq[OF bm cover, of 0 0] by (simp del: upt_Suc)
  moreover have "length (filter (\<lambda>b. \<not> bm_bit disk (map_from sp which) b) [0..<Suc (map_max sp which)])
      = card (map_free sp disk which)"
    unfolding length_filter_conv_card map_free_def
    by (rule arg_cong[of _ _ card]) (auto simp del: upt_Suc)
  ultimately show ?thesis using mx fb nb l
    by (simp only: get_free_bits_nr_def unlock_bitop_eq Let_def released_def woken_def
        super_block.select_convs super_block.update_convs simp_thms if_False)
      (cases which; simp add: relock_want)
qed

section \<open>The bitmaps as pools of numbers\<close>

text \<open>The bitmap of a mounted super block as such a pool.\<close>

definition map_alloc :: "which_map \<Rightarrow> super_block \<times> blocks \<Rightarrow> (super_block \<times> blocks) \<times> nat option" where
  "map_alloc which s = (case bitalloc (fst s) (snd s) which of
       Inr (sp', disk', Done n woke) \<Rightarrow> ((sp', disk'), if n = NOBIT then None else Some n)
     | _ \<Rightarrow> (s, None))"

definition used_numbers :: "which_map \<Rightarrow> super_block \<times> blocks \<Rightarrow> nat set" where
  "used_numbers which s = bit_number (fst s) which ` map_used (fst s) (snd s) which"

lemma bit_number_inj: "super_ok sp \<Longrightarrow> bit_number sp which b = bit_number sp which c \<longleftrightarrow> b = c"
  by (cases which) (auto simp: bit_number_def super_ok_def)

lemma bitalloc_cases:
  assumes ok: "map_ok which (sp, disk)"
  obtains "map_free sp disk which = {}"
      "bitalloc sp disk which = Inr (released sp, disk, Done NOBIT (woken sp))"
      "map_ok which (released sp, disk)"
  | sp' disk' b where "b = Min (map_free sp disk which)" "b \<in> map_free sp disk which" "1 \<le> b"
      "bitalloc sp disk which = Inr (sp', disk', Done (bit_number sp which b) (woken sp))"
      "map_used sp' disk' which = insert b (map_used sp disk which)"
      "map_ok which (sp', disk')" "bit_number sp' which = bit_number sp which"
      "map_max sp' which = map_max sp which"
proof (cases "map_free sp disk which = {}")
  case True
  then show thesis using that(1) bitalloc_full[OF ok] ok by (auto simp: map_ok_def)
next
  case False
  let ?b = "Min (map_free sp disk which)"
  have fin: "finite (map_free sp disk which)" by (auto simp: map_free_def)
  then have b: "?b \<in> map_free sp disk which" using False by (rule Min_in)
  have "?b \<noteq> 0" using b ok by (metis (mono_tags, lifting) map_free_def map_ok_def mem_Collect_eq case_prod_conv)
  then have one: "1 \<le> ?b" by simp
  obtain disk' where d: "bitalloc sp disk which = Inr (released (set_hint which (?b + 1) sp), disk',
      Done (bit_number sp which ?b) (woken sp))"
    "\<forall>c. bm_bit disk' (map_from sp which) c \<longleftrightarrow> c = ?b \<or> bm_bit disk (map_from sp which) c"
    "map_ok which (released (set_hint which (?b + 1) sp), disk')"
    using bitalloc_some[OF ok False] by blast
  have "map_used (released (set_hint which (?b + 1) sp)) disk' which = insert ?b (map_used sp disk which)"
    using d(2) b by (auto simp: map_used_def map_free_def)
  then show thesis using that(2)[OF refl b one d(1) _ d(3)] by simp
qed

interpretation pool: number_pool "map_ok which" "used_numbers which" "map_alloc which" for which
proof unfold_locales
  fix s s' n
  assume ok: "map_ok which s" and a: "map_alloc which s = (s', Some n)"
  obtain sp disk where s: "s = (sp, disk)" by fastforce
  have sup: "super_ok sp" using ok s by (auto simp: map_ok_def)
  show "map_ok which s' \<and> n \<notin> used_numbers which s \<and> used_numbers which s' = insert n (used_numbers which s)"
  proof (cases rule: bitalloc_cases[OF ok[unfolded s]])
    case 1
    then show ?thesis using a s by (simp add: map_alloc_def)
  next
    case (2 sp' disk' b)
    then show ?thesis using a s
      by (auto simp: map_alloc_def used_numbers_def bit_number_inj[OF sup] map_used_def map_free_def split: if_splits)
  qed
next
  fix s s'
  assume ok: "map_ok which s" and a: "map_alloc which s = (s', None)"
  obtain sp disk where s: "s = (sp, disk)" by fastforce
  have sup: "super_ok sp" using ok s by (auto simp: map_ok_def)
  show "map_ok which s' \<and> used_numbers which s' = used_numbers which s"
  proof (cases rule: bitalloc_cases[OF ok[unfolded s]])
    case 1
    then show ?thesis using a s by (auto simp: map_alloc_def used_numbers_def map_used_def)
  next
    case (2 sp' disk' b)
    have "bit_number sp which b \<noteq> 0" using 2(3) sup by (cases which) (auto simp: bit_number_def super_ok_def)
    then show ?thesis using 2(4) a s by (simp add: map_alloc_def NOBIT_def)
  qed
qed

section \<open>Mounting\<close>

definition dev_unique :: "super_block list \<Rightarrow> bool" where
  "dev_unique sb \<longleftrightarrow> (\<forall>i < length sb. \<forall>j < length sb.
     s_dev (sb ! i) = s_dev (sb ! j) \<and> s_dev (sb ! i) \<noteq> NODEV \<longrightarrow> i = j)"

lemma sread_scan_Some:
  "sread_scan sb dev k tmp = (Some i, t) \<Longrightarrow>
     k \<le> i \<and> i < k + length sb \<and> s_dev (sb ! (i - k)) = dev"
proof (induction sb arbitrary: k tmp)
  case Nil
  then show ?case by simp
next
  case (Cons s sb)
  show ?case
  proof (cases "s_dev s = dev")
    case True
    then show ?thesis using Cons.prems by auto
  next
    case False
    then obtain tmp' where "sread_scan sb dev (Suc k) tmp' = (Some i, t)"
      using Cons.prems by (auto split: if_splits)
    then have "Suc k \<le> i \<and> i < Suc k + length sb \<and> s_dev (sb ! (i - Suc k)) = dev" by (rule Cons.IH)
    moreover from this have "i - k = Suc (i - Suc k)" by auto
    ultimately show ?thesis by simp
  qed
qed

lemma sread_scan_None:
  "sread_scan sb dev k tmp = (None, t) \<Longrightarrow> (\<forall>s \<in> set sb. s_dev s \<noteq> dev)
     \<and> (case tmp of Some i \<Rightarrow> t = Some i
        | None \<Rightarrow> (case t of None \<Rightarrow> \<forall>s \<in> set sb. s_count s \<noteq> 0
                  | Some i \<Rightarrow> k \<le> i \<and> i < k + length sb \<and> s_count (sb ! (i - k)) = 0))"
proof (induction sb arbitrary: k tmp)
  case Nil
  then show ?case by (auto split: option.split)
next
  case (Cons s sb)
  have d: "s_dev s \<noteq> dev" using Cons.prems by (auto split: if_splits)
  have suc: "Suc k \<le> i \<Longrightarrow> i - k = Suc (i - Suc k)" for i by simp
  show ?case
    using Cons.IH[of "Suc k" "if tmp = None \<and> s_count s = 0 then Some k else tmp"] Cons.prems d
    by (auto simp: suc split: if_splits option.splits)
qed

lemma sread_scan_hit:
  "i < length sb \<Longrightarrow> s_dev (sb ! i) = dev \<Longrightarrow> \<forall>j < i. s_dev (sb ! j) \<noteq> dev
     \<Longrightarrow> \<exists>t. sread_scan sb dev k tmp = (Some (k + i), t)"
proof (induction sb arbitrary: i k tmp)
  case Nil
  then show ?case by simp
next
  case (Cons s sb)
  show ?case
  proof (cases i)
    case 0
    then show ?thesis using Cons.prems by simp
  next
    case (Suc j)
    then have "s_dev s \<noteq> dev" using Cons.prems(3) by force
    moreover have "\<forall>l < j. s_dev (sb ! l) \<noteq> dev" using Cons.prems(3) Suc by force
    ultimately show ?thesis using Cons.IH[of j "Suc k"] Cons.prems Suc by auto
  qed
qed

lemma unlock_s_sel [simp]: "s_dev (fst (unlock_s t)) = s_dev t" "s_count (fst (unlock_s t)) = s_count t"
  "s_flags (fst (unlock_s t)) AND LOCK_S = 0"
proof -
  show "s_dev (fst (unlock_s t)) = s_dev t" "s_count (fst (unlock_s t)) = s_count t"
    by (simp_all add: unlock_s_def Let_def)
  have "((w AND NOT LOCK_S) AND NOT x) AND LOCK_S = 0" "(w AND NOT LOCK_S) AND LOCK_S = 0" for w x :: u16
    by (rule bit_word_eqI; auto simp: bit_simps)+
  then show "s_flags (fst (unlock_s t)) AND LOCK_S = 0" by (simp add: unlock_s_def Let_def)
qed

lemma super_of_words_sel [simp]:
  "s_dev (super_of_words ws t) = s_dev t" "s_count (super_of_words ws t) = s_count t"
  by (simp_all add: super_of_words_def)

text \<open>The three ways a call of \<open>sread\<close> that does not sleep ends.\<close>

lemma sread_result:
  assumes "sread sb devs dev wanted = (sb', Done r woke)"
  obtains i where "r = Some i" "i < length sb" "s_dev (sb ! i) = dev" "sb' = sb"
  | "r = None" "sb' = sb" "\<forall>s \<in> set sb. s_dev s \<noteq> dev \<and> s_count s \<noteq> 0"
  | i t where "i < length sb" "s_count (sb ! i) = 0" "\<forall>s \<in> set sb. s_dev s \<noteq> dev" "sb' = sb[i := t]"
      "s_count t = 1" "s_flags t AND LOCK_S = 0" "r = None \<and> s_dev t = NODEV \<or> r = Some i \<and> s_dev t = dev \<and> devs dev SUPER_BLOCK \<noteq> None"
proof (cases "sread_scan sb dev 0 None")
  case (Pair a t)
  show thesis
  proof (cases a)
    case (Some i)
    then show thesis using that(1)[of i] assms Pair sread_scan_Some[of sb dev 0 None i t]
      by (auto simp: sread_def split: if_splits)
  next
    case None
    note scan = sread_scan_None[OF Pair[unfolded None]]
    show thesis
    proof (cases t)
      case None
      then show thesis using that(2) assms Pair \<open>a = None\<close> scan by (auto simp: sread_def)
    next
      case (Some i)
      define tmp where "tmp = (sb ! i)\<lparr>s_rooti := None, s_mounti := None, s_count := 1,
        s_wait := [], s_bitop_wait := [], s_dev := dev, s_version := LM_MAGIC,
        s_ipblock := 16, s_ndzones := 7, s_nindirs := 256, s_roflag := False,
        s_isearch := 0, s_zsearch := 0, s_flags := (if wanted then LOCK_S OR WANT_S else LOCK_S)\<rparr>"
      have tmp: "s_count tmp = 1" "s_dev tmp = dev" by (simp_all add: tmp_def)
      have run: "sread sb devs dev wanted = (let err = (\<lambda>t. (sb[i := fst (unlock_s (t\<lparr>s_dev := NODEV\<rparr>))],
            Done None (snd (unlock_s (t\<lparr>s_dev := NODEV\<rparr>)))))
          in case devs dev SUPER_BLOCK of None \<Rightarrow> err tmp | Some ws \<Rightarrow>
            let t = super_of_words ws tmp in
            if s_magic t \<noteq> LM_MAGIC then err t
            else if s_imblocks t < 1 \<or> s_zmblocks t < 1 \<or> s_ninodes t < 1 \<or> s_zones t < 1 \<or> s_lzsize t \<noteq> 0
            then err t else (sb[i := fst (unlock_s t)], Done (Some i) (snd (unlock_s t))))"
        unfolding sread_def Pair \<open>a = None\<close> Some tmp_def
        by (simp only: prod.case option.case Let_def case_prod_beta fst_conv snd_conv)
      have "\<exists>u. sb' = sb[i := fst (unlock_s u)] \<and> s_count u = 1 \<and> (r = None \<and> s_dev u = NODEV \<or> r = Some i \<and> s_dev u = dev \<and> devs dev SUPER_BLOCK \<noteq> None)"
      proof (cases "devs dev SUPER_BLOCK")
        case None
        then show ?thesis using assms run tmp by (intro exI[of _ "tmp\<lparr>s_dev := NODEV\<rparr>"]) (simp add: Let_def)
      next
        case (Some ws)
        let ?t = "super_of_words ws tmp"
        show ?thesis
        proof (cases "r = None")
          case True
          then show ?thesis using assms run tmp Some
            by (intro exI[of _ "?t\<lparr>s_dev := NODEV\<rparr>"]) (simp add: Let_def split: if_splits)
        next
          case False
          then show ?thesis using assms run tmp Some
            by (intro exI[of _ ?t]) (simp add: Let_def split: if_splits)
        qed
      qed
      then show thesis using that(3)[of i] scan Some by auto
    qed
  qed
qed

section \<open>Properties\<close>

lemma get_sb_scan_hit:
  "i < length sb \<Longrightarrow> s_dev (sb ! i) = dev \<Longrightarrow> \<forall>j < i. s_dev (sb ! j) \<noteq> dev \<Longrightarrow> get_sb_scan sb dev k = Some (k + i)"
proof (induction sb arbitrary: i k)
  case Nil
  then show ?case by simp
next
  case (Cons s sb)
  show ?case
  proof (cases i)
    case 0
    then show ?thesis using Cons.prems by simp
  next
    case (Suc j)
    then have "s_dev s \<noteq> dev" using Cons.prems(3) by force
    moreover have "\<forall>l < j. s_dev (sb ! l) \<noteq> dev" using Cons.prems(3) Suc by force
    ultimately show ?thesis using Cons.IH[of j "Suc k"] Cons.prems Suc by simp
  qed
qed

text \<open>A small file system: one block per map, with only the reserved bit in use.\<close>

definition sb_example :: super_block where
  "sb_example = super_zero\<lparr>s_imblocks := 1, s_zmblocks := 1, s_ninodes := 64, s_fdzone := 5, s_zones := 100,
     s_dev := 0x301\<rparr>"

definition disk_example :: blocks where
  "disk_example k = (if k \<in> {2, 3} then Some (1 # replicate 255 0) else None)"

lemma super_ok_example: "super_ok sb_example"
  by (simp add: super_ok_def sb_example_def super_zero_def NODEV_def)

lemma sb_example_params:
  "map_from sb_example IMAP = 2" "map_from sb_example ZMAP = 3" "map_blocks sb_example which = 1"
  "map_max sb_example IMAP = 64" "map_max sb_example ZMAP = 95" "map_hint sb_example which = 0"
  "s_flags sb_example = 0"
  by (auto simp: sb_example_def super_zero_def map_from_def map_blocks_def map_max_def map_hint_def
      SUPER_BLOCK_def split: which_map.split)

lemma map_ok_example: "map_ok which (sb_example, disk_example)"
proof -
  have "bm_ok disk_example 2 1" "bm_ok disk_example 3 1" "bm_bit disk_example 2 0" "bm_bit disk_example 3 0"
    by (simp_all add: bm_ok_def bm_bit_def disk_example_def WORDS_PER_BLOCK_def)
  then show ?thesis using super_ok_example
    by (cases which) (simp_all add: map_ok_def sb_example_params BITS_PER_BLOCK_def)
qed

text \<open>C18: \<open>bitalloc\<close> on a mounted writable super block hands out the lowest free bit of the
  map, marks it and nothing else as used, and returns \<open>NOBIT\<close> exactly when no bit of the map
  is free; the lock is released, the waiters are woken, and the invariant of the map (the
  search hint included) is kept.\<close>

theorem bitalloc_least_free:
  assumes "map_ok which (sp, disk)"
  shows "\<exists>sp' disk' n. bitalloc sp disk which = Inr (sp', disk', Done n (s_flags sp AND WANT_BITOP \<noteq> 0))
    \<and> map_ok which (sp', disk')
    \<and> (if map_free sp disk which = {} then n = NOBIT \<and> map_used sp' disk' which = map_used sp disk which
       else n \<noteq> NOBIT \<and> n = bit_number sp which (Min (map_free sp disk which))
         \<and> map_used sp' disk' which = insert (Min (map_free sp disk which)) (map_used sp disk which))"
proof (cases rule: bitalloc_cases[OF assms])
  case 1
  then show ?thesis by (auto simp: woken_def map_used_def)
next
  case (2 sp' disk' b)
  have "super_ok sp" using assms by (simp add: map_ok_def)
  then have "bit_number sp which b \<noteq> NOBIT"
    using 2(3) by (cases which) (auto simp: bit_number_def super_ok_def NOBIT_def)
  moreover have "map_free sp disk which \<noteq> {}" using 2(2) by auto
  ultimately show ?thesis using 2 by (auto simp: woken_def)
qed

theorem bitalloc_least_free_witness:
  "map_ok ZMAP (sb_example, disk_example) \<and> (\<exists>sp' disk' n woke.
     bitalloc sb_example disk_example ZMAP = Inr (sp', disk', Done n woke) \<and> map_ok ZMAP (sp', disk'))"
  using bitalloc_least_free[OF map_ok_example[of ZMAP]] map_ok_example[of ZMAP] by blast

text \<open>C24: freeing an allocated inode or zone other than the last one clears its bit, changes no
  other bit of the map, and keeps the invariant, so that the number can be allocated again.\<close>

theorem bitfree_clears:
  assumes "map_ok which (sp, disk)" and "1 \<le> b" and "b < map_max sp which"
  shows "\<exists>sp' disk' woke. bitfree sp disk (bit_number sp which b) which = Inr (sp', disk', Done () woke)
    \<and> map_ok which (sp', disk')
    \<and> map_used sp' disk' which = map_used sp disk which - {b} \<and> b \<in> map_free sp' disk' which"
proof -
  obtain sp' disk' where "bitfree sp disk (bit_number sp which b) which = Inr (sp', disk', Done () (woken sp))"
    "\<forall>c. bm_bit disk' (map_from sp which) c \<longleftrightarrow> c \<noteq> b \<and> bm_bit disk (map_from sp which) c"
    "map_ok which (sp', disk')" "map_from sp' which = map_from sp which" "map_max sp' which = map_max sp which"
    using bitfree_some[OF assms] by blast
  then show ?thesis using assms(3) by (auto simp: map_used_def map_free_def)
qed

theorem bitfree_clears_witness:
  "\<exists>sp' disk' woke. bitfree sb_example disk_example 7 IMAP = Inr (sp', disk', Done () woke)
     \<and> 7 \<in> map_free sp' disk' IMAP"
proof -
  have "(7::nat) < map_max sb_example IMAP" by (simp add: sb_example_params)
  from bitfree_clears[OF map_ok_example[of IMAP] _ this]
  show ?thesis by (auto simp: bit_number_def)
qed

text \<open>C25: the last inode and the last zone of a device are never freed: \<open>bitalloc\<close> takes bits
  up to and including the last one, but \<open>bitfree\<close> rejects that bit as invalid and
  leaves the map as it is.\<close>

theorem bitfree_last_lost:
  assumes "map_ok which (sp, disk)" and "map_free sp disk which = {map_max sp which}"
  shows "\<exists>sp' disk' woke. bitalloc sp disk which
      = Inr (sp', disk', Done (bit_number sp which (map_max sp which)) woke)
    \<and> bitfree sp' disk' (bit_number sp which (map_max sp which)) which = Inr (sp', disk', Done () False)
    \<and> map_free sp' disk' which = {}"
proof (cases rule: bitalloc_cases[OF assms(1)])
  case 1
  then show ?thesis using assms(2) by simp
next
  case (2 sp' disk' b)
  have b: "b = map_max sp which" using 2(2) assms(2) by simp
  have "bitfree sp' disk' (bit_number sp' which b) which = Inr (sp', disk', Done () False)"
    using bitfree_unfold[OF 2(6) 2(3)] b 2(8) by simp
  moreover have "map_free sp' disk' which = {}"
  proof -
    have "c \<in> map_used sp' disk' which" if "c \<le> map_max sp which" for c
      using 2(5) assms(2) that b by (auto simp: map_used_def map_free_def)
    then show ?thesis using 2(8) by (auto simp: map_used_def map_free_def)
  qed
  ultimately show ?thesis using 2(4,7) b by auto
qed

text \<open>A file system with two inodes, the first of them in use.\<close>

definition sb_tiny :: super_block where
  "sb_tiny = sb_example\<lparr>s_ninodes := 2\<rparr>"

definition disk_tiny :: blocks where
  "disk_tiny k = (if k = 2 then Some (3 # replicate 255 0) else None)"

lemma sb_tiny_params:
  "map_from sb_tiny IMAP = 2" "map_blocks sb_tiny IMAP = 1" "map_max sb_tiny IMAP = 2" "map_hint sb_tiny IMAP = 0"
  "s_flags sb_tiny = 0" "super_ok sb_tiny"
  by (simp_all add: sb_tiny_def sb_example_def super_zero_def map_from_def map_blocks_def map_max_def map_hint_def
      SUPER_BLOCK_def super_ok_def NODEV_def)

lemma map_ok_tiny: "map_ok IMAP (sb_tiny, disk_tiny)"
proof -
  have "bm_ok disk_tiny 2 1" "bm_bit disk_tiny 2 0"
    by (simp_all add: bm_ok_def bm_bit_def disk_tiny_def WORDS_PER_BLOCK_def)
  then show ?thesis by (simp add: map_ok_def sb_tiny_params BITS_PER_BLOCK_def)
qed

lemma map_free_tiny: "map_free sb_tiny disk_tiny IMAP = {2}"
proof -
  have w: "bit (3::u32) 0" "bit (3::u32) 1" "\<not> bit (3::u32) 2"
    by (simp_all add: bit_iff_odd)
  have "bm_bit disk_tiny 2 0" "bm_bit disk_tiny 2 1" "\<not> bm_bit disk_tiny 2 2"
    using w by (simp_all add: bm_bit_def disk_tiny_def bm_consts)
  moreover have "c \<le> (2::nat) \<longleftrightarrow> c = 0 \<or> c = 1 \<or> c = 2" for c by auto
  ultimately show ?thesis unfolding map_free_def sb_tiny_params by (metis (mono_tags, lifting) Collect_cong singleton_conv)
qed

theorem bitfree_last_lost_witness:
  "\<exists>sp' disk' woke. bitalloc sb_tiny disk_tiny IMAP = Inr (sp', disk', Done 2 woke)
     \<and> bitfree sp' disk' 2 IMAP = Inr (sp', disk', Done () False)"
proof -
  have m: "map_max sb_tiny IMAP = 2" by (rule sb_tiny_params)
  have "map_free sb_tiny disk_tiny IMAP = {map_max sb_tiny IMAP}" using map_free_tiny m by simp
  from bitfree_last_lost[OF map_ok_tiny this] show ?thesis by (auto simp: bit_number_def m)
qed

text \<open>\<open>get_free_bits_nr\<close> counts the clear bits of a map exactly, without an error and
  without changing the map.\<close>

theorem get_free_bits_nr_counts:
  assumes "map_ok which (sp, disk)"
  shows "\<exists>sp' woke. get_free_bits_nr sp disk which = (sp', Done (0, int (card (map_free sp disk which))) woke)
    \<and> map_ok which (sp', disk)"
  using get_free_bits_nr_eq[OF assms] assms by (auto simp: map_ok_def)

theorem get_free_bits_nr_counts_witness:
  "\<exists>sp' woke. get_free_bits_nr sb_tiny disk_tiny IMAP = (sp', Done (0, 1) woke)"
  using get_free_bits_nr_counts[OF map_ok_tiny] by (auto simp: map_free_tiny)

text \<open>the numbers a sequence of allocations returns are pairwise different, and none of them
  was in use before.\<close>

theorem bitalloc_distinct:
  assumes "map_ok which s" and "pool.take_numbers which k s = (s', ns)"
  shows "distinct ns \<and> set ns \<inter> used_numbers which s = {}
    \<and> used_numbers which s' = used_numbers which s \<union> set ns \<and> map_ok which s'"
  using pool.take_numbers_fresh[OF assms] by blast

theorem bitalloc_distinct_witness:
  "distinct (snd (pool.take_numbers IMAP 3 (sb_example, disk_example)))"
  using bitalloc_distinct[OF map_ok_example[of IMAP], of 3] by (metis prod.collapse)


lemma sread_scan_found: "\<forall>s \<in> set sb. s_dev s \<noteq> dev \<Longrightarrow> sread_scan sb dev k (Some j) = (None, Some j)"
  by (induction sb arbitrary: k) auto

lemma init_super_scan: "dev \<noteq> NODEV \<Longrightarrow> sread_scan init_super dev 0 None = (None, Some 0)"
proof -
  assume d: "dev \<noteq> NODEV"
  let ?s = "super_zero\<lparr>s_dev := NODEV, s_count := 0\<rparr>"
  have e: "init_super = ?s # replicate 9 ?s" by (simp add: init_super_def NR_SB_def flip: replicate_Suc)
  show ?thesis unfolding e using d sread_scan_found[of "replicate 9 ?s" dev] by simp
qed

definition valid_super_words :: "u32 list" where
  "valid_super_words = [0x00640040, 0x00010001, 5, 0, 0x2478, 100] @ replicate 250 0"


definition failed_mounts :: "nat \<Rightarrow> (int \<Rightarrow> blocks) \<Rightarrow> int \<Rightarrow> super_block list" where
  "failed_mounts k devs bad = ((\<lambda>sb. fst (sread sb devs bad False)) ^^ k) init_super"

definition free_slots :: "super_block list \<Rightarrow> nat set" where
  "free_slots sb = {i. i < length sb \<and> s_count (sb ! i) = 0}"

lemma failed_mount_step:
  assumes "\<forall>s \<in> set sb. s_dev s = NODEV" and "bad \<noteq> NODEV" and "devs bad SUPER_BLOCK = None"
  shows "(\<forall>s \<in> set (fst (sread sb devs bad False)). s_dev s = NODEV)
    \<and> length (fst (sread sb devs bad False)) = length sb
    \<and> card (free_slots (fst (sread sb devs bad False))) = card (free_slots sb) - 1"
proof -
  have "\<exists>sb' r woke. sread sb devs bad False = (sb', Done r woke)"
  proof (cases "sread_scan sb bad 0 None")
    case (Pair a t)
    then have "a = None" using sread_scan_Some[of sb bad 0 None _ t] assms(1,2) by (cases a) auto
    then show ?thesis using Pair assms(3) by (cases t) (auto simp: sread_def Let_def case_prod_beta intro: exI[of _ False])
  qed
  then obtain sb' r woke where run: "sread sb devs bad False = (sb', Done r woke)" by blast
  show ?thesis
  proof (cases rule: sread_result[OF run])
    case (1 i)
    then show ?thesis using assms(1,2) by (metis nth_mem)
  next
    case 2
    then have "free_slots sb = {}" by (auto simp: free_slots_def)
    then show ?thesis using 2 run assms(1) by simp
  next
    case (3 i t)
    have "free_slots sb' = free_slots sb - {i}"
      using 3 by (auto simp: free_slots_def nth_list_update split: if_splits)
    moreover have "i \<in> free_slots sb" using 3 by (simp add: free_slots_def)
    ultimately have "card (free_slots sb') = card (free_slots sb) - 1" by simp
    moreover have "\<forall>s \<in> set sb'. s_dev s = NODEV"
      using 3 assms set_update_subset_insert[of sb i t] by auto
    ultimately show ?thesis using run 3(4) by simp
  qed
qed

lemma failed_mounts_state:
  assumes "bad \<noteq> NODEV" and "devs bad SUPER_BLOCK = None"
  shows "(\<forall>s \<in> set (failed_mounts k devs bad). s_dev s = NODEV) \<and> card (free_slots (failed_mounts k devs bad)) = 10 - k"
proof (induction k)
  case 0
  have "free_slots init_super = {..<10}" by (auto simp: free_slots_def init_super_def NR_SB_def)
  then show ?case by (auto simp: failed_mounts_def init_super_def)
next
  case (Suc k)
  then show ?case using failed_mount_step[of "failed_mounts k devs bad" bad devs] assms
    by (simp add: failed_mounts_def)
qed

text \<open>C26: a super block that cannot be read costs a table entry for good: after ten failed
  mounts no device can be mounted any more, a readable one included.\<close>

theorem sread_failures_exhaust:
  assumes "bad \<noteq> NODEV" and "devs bad SUPER_BLOCK = None" and "dev \<noteq> NODEV"
  shows "sread (failed_mounts 10 devs bad) devs dev False = (failed_mounts 10 devs bad, Done None False)"
proof -
  let ?sb = "failed_mounts 10 devs bad"
  have nodev: "\<forall>s \<in> set ?sb. s_dev s = NODEV" and "card (free_slots ?sb) = 0"
    using failed_mounts_state[of bad devs 10] assms by auto
  moreover have "finite (free_slots ?sb)" by (simp add: free_slots_def)
  ultimately have empty: "free_slots ?sb = {}" by simp
  obtain a t where scan: "sread_scan ?sb dev 0 None = (a, t)" by fastforce
  then have a: "a = None" using sread_scan_Some[of ?sb dev 0 None _ t] nodev assms(3) by (cases a) auto
  then have "t = None" using sread_scan_None[of ?sb dev 0 None t] scan empty
    by (cases t) (auto simp: free_slots_def)
  then show ?thesis using scan a by (simp add: sread_def)
qed

theorem sread_failures_exhaust_witness:
  "let devs = (\<lambda>d k. if d = 0x301 then Some valid_super_words else None)
   in snd (sread (failed_mounts 10 devs 0x200) devs 0x301 False) = Done None False"
  using sread_failures_exhaust[of "0x200" "\<lambda>d k. if d = 0x301 then Some valid_super_words else None" "0x301"]
  by (simp add: NODEV_def)

end
