(* ===== verification/Page_Alloc.thy ===== *)
theory Page_Alloc
  imports Klist Number_Pool
begin

text \<open>
  The page allocator of \<open>mm/page_alloc.c\<close> and its start-up in \<open>mm/init.c\<close>: a
  buddy system over the page frames. The heads of the ten free lists are the
  elements of \<open>free_area_list\<close>, their nodes the elements of \<open>mem_map\<close>; both are
  list nodes of one heap, with the \<open>prev\<close> and \<open>next\<close> fields the C assignments
  change. The bitmap of an order has one bit for a pair of buddies. A write outside
  a bitmap or \<open>mem_map\<close> is the result \<open>Overrun\<close>.
\<close>

section \<open>State\<close>

definition NR_FREE_LIST :: nat where "NR_FREE_LIST = 10"
definition PAGE_SHIFT :: nat where "PAGE_SHIFT = 12"
definition PAGE_SIZE :: nat where "PAGE_SIZE = 4096"
definition PageReserved :: nat where "PageReserved = 1"
definition PageDMA :: nat where "PageDMA = 2"
definition PageWait :: u32 where "PageWait = 4"

datatype mnode = Area nat | Page nat

record mem_state =
  mm_heap :: "mnode lheap"
  mm_map :: "u32 list list"
  area_count :: "int list"
  pg_flags :: "u32 list"
  pg_count :: "int list"
  nfreepages :: int
  mm_mem :: "nat \<Rightarrow> u8"

text \<open>\<open>area->map[index / 32] ^= 1 << (index % 32)\<close> and the test of that bit.\<close>

definition map_toggle :: "nat \<Rightarrow> nat \<Rightarrow> mem_state \<Rightarrow> mem_state kres" where
  "map_toggle k index st =
     (let ws = mm_map st ! k; i = index div 32 in
      if i < length ws
      then Inr (st\<lparr>mm_map := (mm_map st)[k := ws[i := ws ! i XOR push_bit (index mod 32) 1]]\<rparr>)
      else Inl Overrun)"

definition map_bit :: "nat \<Rightarrow> nat \<Rightarrow> mem_state \<Rightarrow> bool" where
  "map_bit k index st = bit (mm_map st ! k ! (index div 32)) (index mod 32)"

definition area_count_add :: "nat \<Rightarrow> int \<Rightarrow> mem_state \<Rightarrow> mem_state" where
  "area_count_add k d st = st\<lparr>area_count := (area_count st)[k := area_count st ! k + d]\<rparr>"

definition memset0 :: "nat \<Rightarrow> nat \<Rightarrow> (nat \<Rightarrow> u8) \<Rightarrow> nat \<Rightarrow> u8" where
  "memset0 addr n m = (\<lambda>a. if addr \<le> a \<and> a < addr + n then 0 else m a)"

section \<open>Allocation\<close>

text \<open>The \<open>do ... while\<close> loop: the first order from \<open>k\<close> on whose list is not empty.\<close>

function find_area :: "mnode lheap \<Rightarrow> nat \<Rightarrow> nat" where
  "find_area h k =
     (if lnext h (Area k) \<noteq> Area k then k
      else if Suc k < NR_FREE_LIST then find_area h (Suc k) else Suc k)"
  by pat_completeness auto
termination
  by (relation "measure (\<lambda>(h, k). NR_FREE_LIST - k)") auto

declare find_area.simps [simp del]

text \<open>
  The splitting loop: as long as the block in hand is too big, its front half goes to
  the next smaller list and its back half is kept.
\<close>

function split_loop :: "nat \<Rightarrow> nat \<Rightarrow> nat \<Rightarrow> mem_state \<Rightarrow> (mem_state \<times> nat) kres" where
  "split_loop order new_order ret st =
     (if new_order > order then
        let k = new_order - 1;
            h0 = mm_heap st;
            h1 = set_next (Page ret) (lnext h0 (Area k)) h0;
            h2 = set_prev (Page ret) (Area k) h1;
            h3 = set_prev (lnext h2 (Page ret)) (Page ret) h2;
            h4 = set_next (Area k) (Page ret) h3;
            st1 = area_count_add k 1 (st\<lparr>mm_heap := h4\<rparr>)
        in kbind (map_toggle k (ret div 2 ^ (k + 1)) st1) (split_loop order k (ret + 2 ^ k))
      else Inr (st, ret))"
  by pat_completeness auto
termination
  by (relation "measure (\<lambda>(order, n, ret, st). n)") auto

declare split_loop.simps [simp del]

definition get_free_pages :: "u32 \<Rightarrow> nat \<Rightarrow> mem_state \<Rightarrow> (mem_state \<times> u32 outcome) kres" where
  "get_free_pages attr order st =
     (if order \<ge> NR_FREE_LIST then Inl DIE
      else
        let new_order = find_area (mm_heap st) order in
        if new_order = NR_FREE_LIST then
          Inr (st, if attr AND PageWait \<noteq> 0 then Sleeps else Done 0 False)
        else
          case lnext (mm_heap st) (Area new_order) of
            Area _ \<Rightarrow> Inl Overrun
          | Page ret \<Rightarrow>
              let h0 = mm_heap st;
                  h1 = set_next (Area new_order) (lnext h0 (Page ret)) h0;
                  h2 = set_prev (lnext h1 (Page ret)) (Area new_order) h1
              in kbind (map_toggle new_order (ret div 2 ^ (new_order + 1)) (st\<lparr>mm_heap := h2\<rparr>)) (\<lambda>st1.
                 kbind (split_loop order new_order ret st1) (\<lambda>(st2, map_nr).
                   if map_nr < length (pg_count st2) then
                     Inr (st2\<lparr>pg_count := (pg_count st2)[map_nr := 1],
                              nfreepages := nfreepages st2 - 2 ^ order,
                              mm_mem := memset0 (map_nr * PAGE_SIZE) (PAGE_SIZE * 2 ^ order) (mm_mem st2)\<rparr>,
                          Done (push_bit PAGE_SHIFT (word_of_nat map_nr)) False)
                   else Inl Overrun)))"

definition get_one_page :: "mem_state \<Rightarrow> (mem_state \<times> u32 outcome) kres" where
  "get_one_page st = get_free_pages 0 0 st"

section \<open>Release\<close>

text \<open>
  The merging loop of \<open>__free_pages\<close>: \<open>k\<close> is the index of \<open>area\<close> in
  \<open>free_area_list\<close>. It ends at the largest order, at a buddy that is not free,
  or by leaving the array.
\<close>

function free_loop :: "u32 \<Rightarrow> u32 \<Rightarrow> u32 \<Rightarrow> nat \<Rightarrow> mem_state \<Rightarrow> (mem_state \<times> u32 \<times> nat) kres" where
  "free_loop msk map_nr index k st =
     (if msk + push_bit (NR_FREE_LIST - 1) 1 = 0 then Inr (st, map_nr, k)
      else if k \<ge> NR_FREE_LIST then Inl Overrun
      else kbind (map_toggle k (unat index) st) (\<lambda>st1.
        if map_bit k (unat index) st1 then Inr (st1, map_nr, k)
        else
          let buddy = unat (map_nr XOR (- msk));
              h0 = mm_heap st1;
              prev = lprev h0 (Page buddy);
              nxt = lnext h0 (Page buddy);
              h1 = set_next prev nxt h0;
              h2 = set_prev nxt prev h1;
              st2 = area_count_add k (- 1) (st1\<lparr>mm_heap := h2\<rparr>);
              msk' = push_bit 1 msk
          in if buddy < length (pg_count st1)
             then free_loop msk' (map_nr AND msk') (drop_bit 1 index) (Suc k) st2
             else Inl Overrun))"
  by pat_completeness auto
termination
  by (relation "measure (\<lambda>(msk, map_nr, index, k, st). NR_FREE_LIST - k)") auto

declare free_loop.simps [simp del]

definition free_pages :: "u32 \<Rightarrow> nat \<Rightarrow> mem_state \<Rightarrow> mem_state kres" where
  "free_pages addr order st =
     (let msk = NOT (push_bit order 1 - 1);
          map_nr = drop_bit PAGE_SHIFT addr AND msk;
          index = drop_bit (order + 1) map_nr
      in kbind (free_loop msk map_nr index order st) (\<lambda>(st1, map_nr', k).
           let b = unat map_nr';
               h0 = mm_heap st1;
               h1 = set_next (Page b) (lnext h0 (Area k)) h0;
               h2 = set_prev (Page b) (Area k) h1;
               h3 = set_prev (lnext h2 (Area k)) (Page b) h2;
               h4 = set_next (Area k) (Page b) h3;
               st2 = area_count_add k 1 (st1\<lparr>mm_heap := h4\<rparr>)
           in if b < length (pg_count st1) \<and> k < NR_FREE_LIST
              then Inr (st2\<lparr>nfreepages := nfreepages st2 + 2 ^ order\<rparr>)
              else Inl Overrun))"

definition free_one_page :: "u32 \<Rightarrow> mem_state \<Rightarrow> mem_state kres" where
  "free_one_page addr st =
     (let map_nr = unat (drop_bit PAGE_SHIFT addr) in
      if map_nr \<ge> length (pg_count st) then Inl Overrun
      else if pg_count st ! map_nr \<le> 0 then Inl DIE
      else if pg_flags st ! map_nr AND push_bit PageReserved 1 \<noteq> 0 then Inr st
      else
        let st1 = st\<lparr>pg_count := (pg_count st)[map_nr := pg_count st ! map_nr - 1]\<rparr> in
        if pg_count st1 ! map_nr = 0 then free_pages addr 0 st1 else Inr st1)"

section \<open>Start-up\<close>

definition LONG_ALIGN :: "nat \<Rightarrow> nat" where
  "LONG_ALIGN x = (x + 3) div 4 * 4"

text \<open>The 32-bit word at an address, lowest byte first.\<close>

definition word_at :: "(nat \<Rightarrow> u8) \<Rightarrow> nat \<Rightarrow> u32" where
  "word_at m a = ucast (m a) OR push_bit 8 (ucast (m (a + 1))) OR push_bit 16 (ucast (m (a + 2)))
     OR push_bit 24 (ucast (m (a + 3)))"

definition words_at :: "(nat \<Rightarrow> u8) \<Rightarrow> nat \<Rightarrow> nat \<Rightarrow> u32 list" where
  "words_at m a n = map (\<lambda>i. word_at m (a + 4 * i)) [0..<n]"

definition bitlength :: "nat \<Rightarrow> nat \<Rightarrow> nat" where
  "bitlength end_mem order = (end_mem div 2 ^ (PAGE_SHIFT + order + 1) + 7) div 8"

text \<open>The loop over the areas: the bitmaps lie one behind the other from \<open>start_mem\<close> on.\<close>

fun area_maps :: "nat \<Rightarrow> nat \<Rightarrow> nat list \<Rightarrow> (nat \<Rightarrow> u8) \<Rightarrow> u32 list list \<times> (nat \<Rightarrow> u8) \<times> nat" where
  "area_maps end_mem start [] m = ([], m, start)"
| "area_maps end_mem start (order # orders) m =
     (let m1 = memset0 start (bitlength end_mem order) m;
          next_start = LONG_ALIGN (start + bitlength end_mem order);
          ws = words_at m1 start ((next_start - start) div 4);
          (maps, m2, fin) = area_maps end_mem next_start orders m1
      in (ws # maps, m2, fin))"

text \<open>\<open>free_area_init\<close>; \<open>m\<close> is the memory before it runs, an element of \<open>mem_map\<close> has 16 bytes.\<close>

definition free_area_init :: "nat \<Rightarrow> nat \<Rightarrow> (nat \<Rightarrow> u8) \<Rightarrow> mem_state \<times> nat" where
  "free_area_init start_mem end_mem m =
     (let map_nr = end_mem div PAGE_SIZE;
          p = start_mem + 16 * map_nr;
          (maps, m', fin) = area_maps end_mem (LONG_ALIGN p) [0..<NR_FREE_LIST] (memset0 start_mem (16 * map_nr) m)
      in (\<lparr>mm_heap = \<lparr>lprev = id, lnext = id\<rparr>, mm_map = maps,
           area_count = replicate NR_FREE_LIST 0,
           pg_flags = replicate map_nr (push_bit PageReserved 1 OR push_bit PageDMA 1),
           pg_count = replicate map_nr 0, nfreepages = 0, mm_mem = m'\<rparr>, fin))"

definition RESERVED_MEM :: nat where "RESERVED_MEM = 4 * 0x1000"
definition LOW_MEM :: nat where "LOW_MEM = 160 * 0x1000"
definition DMA_HIGH_MEM :: nat where "DMA_HIGH_MEM = 0x1000000"

definition page_align :: "nat \<Rightarrow> nat" where
  "page_align a = (a + (PAGE_SIZE - 1)) div PAGE_SIZE * PAGE_SIZE"

text \<open>The body of the two loops of \<open>mem_init\<close> that give a page to the allocator.\<close>

definition release_page :: "nat \<Rightarrow> mem_state \<Rightarrow> mem_state kres" where
  "release_page addr st =
     (let i = addr div PAGE_SIZE;
          f0 = pg_flags st ! i;
          f1 = (if addr > DMA_HIGH_MEM then f0 AND NOT (push_bit PageDMA 1) else f0);
          f2 = f1 AND NOT (push_bit PageReserved 1)
      in if i < length (pg_count st) then
           kbind (free_one_page (word_of_nat addr)
                    (st\<lparr>pg_flags := (pg_flags st)[i := f2], pg_count := (pg_count st)[i := 1]\<rparr>))
                 (\<lambda>st1. Inr (st1\<lparr>nfreepages := nfreepages st1 + 1\<rparr>))
         else Inl Overrun)"

function release_loop :: "nat \<Rightarrow> nat \<Rightarrow> mem_state \<Rightarrow> mem_state kres" where
  "release_loop addr limit st =
     (if addr < limit then kbind (release_page addr st) (release_loop (addr + PAGE_SIZE) limit) else Inr st)"
  by pat_completeness auto
termination
  by (relation "measure (\<lambda>(addr, limit, st). limit - addr)") (auto simp: PAGE_SIZE_def)

declare release_loop.simps [simp del]

text \<open>The statistics of the reserved pages; \<open>etext\<close> and \<open>kend\<close> are the linker's \<open>_etext\<close> and \<open>_end\<close>.\<close>

record page_stats =
  ncodepages :: int
  ndatapages :: int
  nreservedpages :: int
  nmemmap_and_bitmap :: int

function reserved_loop :: "nat \<Rightarrow> nat \<Rightarrow> nat \<Rightarrow> nat \<Rightarrow> page_stats \<Rightarrow> nat \<times> page_stats" where
  "reserved_loop etext kend start_mem addr s =
     (if addr < start_mem then
        let s1 = (if addr \<ge> 0x100000 \<and> addr < etext then s\<lparr>ncodepages := ncodepages s + 1\<rparr>
                  else if addr \<ge> etext \<and> addr < kend then s\<lparr>ndatapages := ndatapages s + 1\<rparr>
                  else if addr \<ge> kend then s\<lparr>nmemmap_and_bitmap := nmemmap_and_bitmap s + 1\<rparr>
                  else s)
        in reserved_loop etext kend start_mem (addr + PAGE_SIZE) (s1\<lparr>nreservedpages := nreservedpages s1 + 1\<rparr>)
      else (addr, s))"
  by pat_completeness auto
termination
  by (relation "measure (\<lambda>(e, k, start_mem, addr, s). start_mem - addr)") (auto simp: PAGE_SIZE_def)

declare reserved_loop.simps [simp del]

text \<open>\<open>mem_init\<close> up to its last call, \<open>kmalloc_init\<close>.\<close>

definition mem_init :: "nat \<Rightarrow> nat \<Rightarrow> nat \<Rightarrow> nat \<Rightarrow> mem_state \<Rightarrow> (mem_state \<times> page_stats) kres" where
  "mem_init etext kend start_mem end_mem st =
     kbind (release_loop RESERVED_MEM LOW_MEM (st\<lparr>nfreepages := 0\<rparr>)) (\<lambda>st1.
       let (addr, stats) = reserved_loop etext kend (page_align start_mem) 0
             \<lparr>ncodepages = 0, ndatapages = 0, nreservedpages = 0, nmemmap_and_bitmap = 0\<rparr>
       in kbind (release_loop addr (end_mem div PAGE_SIZE * PAGE_SIZE) st1) (\<lambda>st2. Inr (st2, stats)))"

section \<open>Blocks\<close>

text \<open>\<open>covers k b x\<close>: page \<open>x\<close> is in the block of order \<open>k\<close> that starts at page \<open>b\<close>.\<close>

definition covers :: "nat \<Rightarrow> nat \<Rightarrow> nat \<Rightarrow> bool" where
  "covers k b x \<longleftrightarrow> x div 2 ^ k = b div 2 ^ k"

definition buddy :: "nat \<Rightarrow> nat \<Rightarrow> nat" where
  "buddy k b = (if even (b div 2 ^ k) then b + 2 ^ k else b - 2 ^ k)"

lemma covers_self [simp]: "covers k b b"
  by (simp add: covers_def)

lemma covers_swap: "covers k b x \<Longrightarrow> covers k b y \<Longrightarrow> covers k x y"
  by (simp add: covers_def)

lemma covers_trans: "covers k b x \<Longrightarrow> covers k x y \<Longrightarrow> covers k b y"
  by (simp add: covers_def)

lemma covers_range: "2 ^ k dvd b \<Longrightarrow> covers k b x \<longleftrightarrow> b \<le> x \<and> x < b + 2 ^ k"
proof -
  assume "2 ^ k dvd b"
  then obtain q where b: "b = 2 ^ k * q" by (rule dvdE)
  show ?thesis
  proof
    assume "covers k b x"
    then have "x div 2 ^ k = q" using b by (simp add: covers_def)
    then have "x = 2 ^ k * q + x mod 2 ^ k" by (metis mult_div_mod_eq)
    moreover have "x mod 2 ^ k < 2 ^ k" by simp
    ultimately show "b \<le> x \<and> x < b + 2 ^ k" using b by linarith
  next
    assume "b \<le> x \<and> x < b + 2 ^ k"
    then have "x div 2 ^ k = q" using b by (intro div_nat_eqI) (auto simp: mult.commute)
    then show "covers k b x" using b by (simp add: covers_def)
  qed
qed

lemma covers_aligned: "2 ^ k dvd b \<Longrightarrow> 2 ^ k dvd c \<Longrightarrow> covers k c b \<Longrightarrow> c = b"
proof -
  assume b: "2 ^ k dvd b" and c: "2 ^ k dvd c" and "covers k c b"
  then have "b div 2 ^ k * 2 ^ k = c div 2 ^ k * 2 ^ k" by (simp only: covers_def)
  then show ?thesis using b c by (simp only: dvd_div_mult_self)
qed

lemma covers_mono: "covers j b x \<Longrightarrow> j \<le> k \<Longrightarrow> covers k b x"
proof -
  assume c: "covers j b x" and "j \<le> k"
  then have "(2::nat) ^ k = 2 ^ j * 2 ^ (k - j)" by (simp flip: power_add)
  then show ?thesis using c by (simp add: covers_def div_mult2_eq)
qed

lemma aligned_index:
  assumes "2 ^ k dvd b"
  shows "b = b div 2 ^ (k + 1) * 2 ^ (k + 1) \<and> buddy k b = b + 2 ^ k
    \<or> b = b div 2 ^ (k + 1) * 2 ^ (k + 1) + 2 ^ k \<and> buddy k b = b div 2 ^ (k + 1) * 2 ^ (k + 1)"
proof -
  obtain q where b: "b = 2 ^ k * q" using assms by (rule dvdE)
  have d: "b div 2 ^ k = q" using b by simp
  have "b div 2 ^ (k + 1) = q div 2" using b by (simp add: div_mult2_eq mult.commute[of 2])
  moreover have "q = 2 * (q div 2) \<or> q = 2 * (q div 2) + 1 \<and> odd q" by auto
  ultimately show ?thesis
    using b d by (cases "even q") (auto simp: buddy_def algebra_simps elim!: evenE oddE)
qed

lemma buddy_facts:
  assumes "2 ^ k dvd b"
  shows "2 ^ k dvd buddy k b" "buddy k b \<noteq> b" "buddy k b div 2 ^ (k + 1) = b div 2 ^ (k + 1)"
    "covers (k + 1) b x \<longleftrightarrow> covers k b x \<or> covers k (buddy k b) x"
proof -
  let ?i = "b div 2 ^ (k + 1)"
  have al: "2 ^ k dvd ?i * 2 ^ (k + 1)" "2 ^ (k + 1) dvd ?i * 2 ^ (k + 1)" by (auto intro: dvd_mult)
  show dv: "2 ^ k dvd buddy k b" using aligned_index[OF assms] assms al by auto
  show "buddy k b \<noteq> b" using aligned_index[OF assms] by auto
  have half: "(?i * 2 ^ (k + 1) + 2 ^ k) div 2 ^ (k + 1) = ?i" by simp
  show "buddy k b div 2 ^ (k + 1) = ?i" using aligned_index[OF assms] half by (metis nonzero_mult_div_cancel_right power_eq_0_iff zero_neq_numeral)
  have "covers (k + 1) b x \<longleftrightarrow> covers (k + 1) (?i * 2 ^ (k + 1)) x" by (simp add: covers_def)
  also have "\<dots> \<longleftrightarrow> ?i * 2 ^ (k + 1) \<le> x \<and> x < ?i * 2 ^ (k + 1) + 2 ^ (k + 1)" by (rule covers_range[OF al(2)])
  also have "\<dots> \<longleftrightarrow> covers k b x \<or> covers k (buddy k b) x"
    using aligned_index[OF assms] by (auto simp: covers_range[OF assms] covers_range[OF dv])
  finally show "covers (k + 1) b x \<longleftrightarrow> covers k b x \<or> covers k (buddy k b) x" .
qed

section \<open>The free lists\<close>

text \<open>The heap represents the lists \<open>fl\<close> of the starts of the free blocks, by order.\<close>

definition one_list :: "(nat \<Rightarrow> nat list) \<Rightarrow> bool" where
  "one_list fl \<longleftrightarrow> (\<forall>j k b. j < NR_FREE_LIST \<longrightarrow> k < NR_FREE_LIST \<longrightarrow> b \<in> set (fl j) \<longrightarrow> b \<in> set (fl k) \<longrightarrow> j = k)"

lemma one_listD: "one_list fl \<Longrightarrow> j < NR_FREE_LIST \<Longrightarrow> k < NR_FREE_LIST \<Longrightarrow> b \<in> set (fl j) \<Longrightarrow> b \<in> set (fl k) \<Longrightarrow> j = k"
  by (simp add: one_list_def)

lemma one_list_put: "one_list fl \<Longrightarrow> \<forall>j < NR_FREE_LIST. b \<notin> set (fl j) \<Longrightarrow> one_list (fl(k := b # fl k))"
  unfolding one_list_def by (metis fun_upd_apply set_ConsD)

lemma one_list_take: "one_list fl \<Longrightarrow> set xs \<subseteq> set (fl k) \<Longrightarrow> one_list (fl(k := xs))"
  unfolding one_list_def by (metis fun_upd_apply subsetD)

definition lists_ok :: "mnode lheap \<Rightarrow> (nat \<Rightarrow> nat list) \<Rightarrow> bool" where
  "lists_ok h fl \<longleftrightarrow> (\<forall>k < NR_FREE_LIST. is_klist h (Area k) (map Page (fl k)))
 \<and> one_list fl"

lemma lists_insert:
  assumes ok: "lists_ok h fl" and k: "k < NR_FREE_LIST" and new: "\<forall>j < NR_FREE_LIST. b \<notin> set (fl j)"
  shows "lists_ok (list_insert (Area k) (Page b) h) (fl(k := b # fl k))"
proof -
  have kl: "is_klist h (Area j) (map Page (fl j))" if "j < NR_FREE_LIST" for j
    using ok that by (simp add: lists_ok_def)
  have nn: "lnext h (Area k) \<noteq> Page b"
    using is_klist_next[OF kl[OF k]] new k by (cases "fl k") auto
  have eq: "list_insert (Area k) (Page b) h = list_add_head (Area k) (Page b) h"
    using nn by (simp add: list_add_head_insert)
  have "is_klist (list_insert (Area k) (Page b) h) (Area j) (map Page ((fl(k := b # fl k)) j))"
    if j: "j < NR_FREE_LIST" for j
  proof (cases "j = k")
    case True
    then show ?thesis using is_klist_add_head[OF kl[OF k], of "Page b"] new k eq by auto
  next
    case False
    have "set (Area j # map Page (fl j)) \<inter> set (Page b # Area k # map Page (fl k)) = {}"
      using False new j k ok by (auto simp: lists_ok_def dest: one_listD)
    then show ?thesis using False add_head_frame[OF kl[OF k] kl[OF j]] eq by simp
  qed
  then show ?thesis using ok new by (auto simp: lists_ok_def intro: one_list_put)
qed

lemma lists_remove:
  assumes ok: "lists_ok h fl" and k: "k < NR_FREE_LIST" and b: "b \<in> set (fl k)"
  shows "lists_ok (list_del (Page b) h) (fl(k := remove1 b (fl k)))"
proof -
  have kl: "is_klist h (Area j) (map Page (fl j))" if "j < NR_FREE_LIST" for j
    using ok that by (simp add: lists_ok_def)
  obtain us vs where f: "fl k = us @ b # vs" "b \<notin> set us" using b by (metis split_list_first)
  then have r: "remove1 b (fl k) = us @ vs" by (simp add: remove1_append)
  have kk: "is_klist h (Area k) (map Page us @ Page b # map Page vs)" using kl[OF k] f by simp
  have "is_klist (list_del (Page b) h) (Area j) (map Page ((fl(k := remove1 b (fl k))) j))"
    if j: "j < NR_FREE_LIST" for j
  proof (cases "j = k")
    case True
    then show ?thesis using is_klist_del[OF kk] r by simp
  next
    case False
    have "set (Area j # map Page (fl j)) \<inter> set (Area k # map Page (fl k)) = {}"
      using False j k ok by (auto simp: lists_ok_def dest: one_listD)
    then show ?thesis using False del_frame[OF kl[OF k] _ kl[OF j], of "Page b"] b by simp
  qed
  moreover have "set (remove1 b (fl k)) \<subseteq> set (fl k)" by (rule set_remove1_subset)
  ultimately show ?thesis using ok by (auto simp: lists_ok_def intro!: one_list_take)
qed

text \<open>The pages of the free blocks; the free blocks are aligned, inside memory and disjoint.\<close>

definition pages :: "(nat \<Rightarrow> nat list) \<Rightarrow> nat set" where
  "pages fl = {x. \<exists>k b. k < NR_FREE_LIST \<and> b \<in> set (fl k) \<and> covers k b x}"

definition blocks_ok :: "nat \<Rightarrow> (nat \<Rightarrow> nat list) \<Rightarrow> bool" where
  "blocks_ok N fl \<longleftrightarrow> (\<forall>k < NR_FREE_LIST. distinct (fl k) \<and> (\<forall>b \<in> set (fl k). 2 ^ k dvd b \<and> b + 2 ^ k \<le> N))
     \<and> (\<forall>j k b c x. j < NR_FREE_LIST \<longrightarrow> k < NR_FREE_LIST \<longrightarrow> b \<in> set (fl j) \<longrightarrow> c \<in> set (fl k)
          \<longrightarrow> covers j b x \<longrightarrow> covers k c x \<longrightarrow> j = k \<and> b = c)"

text \<open>A block in hand: aligned, inside memory and not free.\<close>

definition hand_ok :: "nat \<Rightarrow> (nat \<Rightarrow> nat list) \<Rightarrow> nat \<Rightarrow> nat \<Rightarrow> bool" where
  "hand_ok N fl k b \<longleftrightarrow> 2 ^ k dvd b \<and> b + 2 ^ k \<le> N \<and> (\<forall>x. covers k b x \<longrightarrow> x \<notin> pages fl)"

lemma listed_page: "k < NR_FREE_LIST \<Longrightarrow> b \<in> set (fl k) \<Longrightarrow> b \<in> pages fl"
  unfolding pages_def using covers_self by blast

lemma hand_not_listed: "hand_ok N fl k b \<Longrightarrow> \<forall>j < NR_FREE_LIST. b \<notin> set (fl j)"
  unfolding hand_ok_def pages_def using covers_self by blast

lemma pages_put: "k < NR_FREE_LIST \<Longrightarrow> pages (fl(k := b # fl k)) = pages fl \<union> {x. covers k b x}"
  by (auto simp: pages_def split: if_splits)

lemma blocks_put:
  assumes ok: "blocks_ok N fl" and h: "hand_ok N fl k b" and k: "k < NR_FREE_LIST"
  shows "blocks_ok N (fl(k := b # fl k))"
  unfolding blocks_ok_def
proof (intro conjI)
  show "\<forall>j < NR_FREE_LIST. distinct ((fl(k := b # fl k)) j) \<and> (\<forall>c \<in> set ((fl(k := b # fl k)) j). 2 ^ j dvd c \<and> c + 2 ^ j \<le> N)"
    using ok h hand_not_listed[OF h] k by (auto simp: blocks_ok_def hand_ok_def)
  have far: "False" if "j < NR_FREE_LIST" "c \<in> set (fl j)" "covers j c x" "covers k b x" for j c x
    using h that by (auto simp: hand_ok_def pages_def)
  have old: "j = i \<and> c = d" if "j < NR_FREE_LIST" "i < NR_FREE_LIST" "c \<in> set (fl j)" "d \<in> set (fl i)"
      "covers j c x" "covers i d x" for i j c d x
    using ok that unfolding blocks_ok_def by blast
  show "\<forall>j i c d x. j < NR_FREE_LIST \<longrightarrow> i < NR_FREE_LIST \<longrightarrow> c \<in> set ((fl(k := b # fl k)) j)
      \<longrightarrow> d \<in> set ((fl(k := b # fl k)) i) \<longrightarrow> covers j c x \<longrightarrow> covers i d x \<longrightarrow> j = i \<and> c = d"
  proof (intro allI impI)
    fix j i c d x
    assume a: "j < NR_FREE_LIST" "i < NR_FREE_LIST" "c \<in> set ((fl(k := b # fl k)) j)"
      "d \<in> set ((fl(k := b # fl k)) i)" "covers j c x" "covers i d x"
    have c: "c \<in> set (fl j) \<or> j = k \<and> c = b" and d: "d \<in> set (fl i) \<or> i = k \<and> d = b"
      using a(3,4) by (auto split: if_splits)
    from c d show "j = i \<and> c = d"
      using a(1,2,5,6) far[of j c x] far[of i d x] old[of j i c d x] by auto
  qed
qed

lemma blocks_take:
  assumes ok: "blocks_ok N fl" and b: "b \<in> set (fl k)" and k: "k < NR_FREE_LIST"
  shows "blocks_ok N (fl(k := remove1 b (fl k)))"
    and "pages (fl(k := remove1 b (fl k))) = pages fl - {x. covers k b x}"
    and "hand_ok N (fl(k := remove1 b (fl k))) k b"
proof -
  let ?fl = "fl(k := remove1 b (fl k))"
  have d: "distinct (fl k)" using ok k by (simp add: blocks_ok_def)
  have mem: "c \<in> set (?fl j) \<longleftrightarrow> c \<in> set (fl j) \<and> (j, c) \<noteq> (k, b)" for j c using d by auto
  have old: "j = i \<and> c = e" if "j < NR_FREE_LIST" "i < NR_FREE_LIST" "c \<in> set (fl j)" "e \<in> set (fl i)"
      "covers j c x" "covers i e x" for i j c e x
    using ok that unfolding blocks_ok_def by blast
  show "blocks_ok N ?fl"
    using ok unfolding blocks_ok_def mem by (auto simp: distinct_remove1)
  show pg: "pages ?fl = pages fl - {x. covers k b x}"
    unfolding pages_def mem using old[OF _ k _ b] k b by blast
  show "hand_ok N ?fl k b" using ok b k pg by (auto simp: hand_ok_def blocks_ok_def)
qed

section \<open>The bitmaps\<close>

definition mbit :: "u32 list list \<Rightarrow> nat \<Rightarrow> nat \<Rightarrow> bool" where
  "mbit ms k i = bit (ms ! k ! (i div 32)) (i mod 32)"

definition mtoggle :: "nat \<Rightarrow> nat \<Rightarrow> u32 list list \<Rightarrow> u32 list list" where
  "mtoggle k i ms = ms[k := (ms ! k)[i div 32 := ms ! k ! (i div 32) XOR push_bit (i mod 32) 1]]"

text \<open>
  The bit of a pair of buddies is set when exactly one of them is a free block;
  both are never free at once, because they are merged.
\<close>

definition maps_ok :: "nat \<Rightarrow> u32 list list \<Rightarrow> (nat \<Rightarrow> nat list) \<Rightarrow> bool" where
  "maps_ok N ms fl \<longleftrightarrow> length ms = NR_FREE_LIST
     \<and> (\<forall>k i. k < NR_FREE_LIST \<longrightarrow> i * 2 ^ (k + 1) < N \<longrightarrow> i div 32 < length (ms ! k))
     \<and> (\<forall>k i. k < NR_FREE_LIST - 1 \<longrightarrow> i * 2 ^ (k + 1) < N \<longrightarrow>
          mbit ms k i = (i * 2 ^ (k + 1) \<in> set (fl k) \<or> i * 2 ^ (k + 1) + 2 ^ k \<in> set (fl k))
          \<and> \<not> (i * 2 ^ (k + 1) \<in> set (fl k) \<and> i * 2 ^ (k + 1) + 2 ^ k \<in> set (fl k)))"

lemma mbit_toggle:
  assumes "k < length ms" and "i div 32 < length (ms ! k)"
  shows "mbit (mtoggle k i ms) j n = (mbit ms j n \<noteq> (j = k \<and> n = i))"
proof (cases "j = k \<and> n div 32 = i div 32")
  case True
  have w: "bit (w XOR push_bit a 1) c = (bit w c \<noteq> (c = a))" if "a < 32" "c < 32" for w :: u32 and a c
    using that by (auto simp: bit_xor_iff bit_push_bit_iff bit_1_iff bit_exp_iff)
  have x: "bit (w XOR 2 ^ a) c = (bit w c \<noteq> (c = a))" if "a < 32" "c < 32" for w :: u32 and a c
    using w[OF that] by simp
  have "n = i \<longleftrightarrow> n mod 32 = i mod 32"
    using True div_mult_mod_eq[of n 32] div_mult_mod_eq[of i 32] by auto
  then show ?thesis using True assms by (simp add: mbit_def mtoggle_def x)
next
  case False
  then show ?thesis using assms by (auto simp: mbit_def mtoggle_def nth_list_update)
qed

lemma mtoggle_length [simp]: "length (mtoggle k i ms) = length ms" "length (mtoggle k i ms ! j) = length (ms ! j)"
  by (auto simp: mtoggle_def) (cases "j = k"; cases "k < length ms"; simp add: list_update_beyond)

lemma map_toggle_eq:
  "index div 32 < length (mm_map st ! k) \<Longrightarrow> map_toggle k index st = Inr (st\<lparr>mm_map := mtoggle k index (mm_map st)\<rparr>)"
  by (simp add: map_toggle_def mtoggle_def Let_def)

lemma map_bit_eq: "map_bit k i st = mbit (mm_map st) k i"
  by (simp add: map_bit_def mbit_def)

text \<open>A block and its pair index.\<close>

lemma pair_index:
  assumes "2 ^ k dvd (b::nat)" and "b + 2 ^ k \<le> N"
  shows "b div 2 ^ (k + 1) * 2 ^ (k + 1) < N"
    and "\<And>i. b = i * 2 ^ (k + 1) \<or> b = i * 2 ^ (k + 1) + 2 ^ k \<longleftrightarrow>
      i = b div 2 ^ (k + 1)"
proof -
  show "b div 2 ^ (k + 1) * 2 ^ (k + 1) < N"
    using div_times_less_eq_dividend[of b "2 ^ (k + 1)"] assms(2)
    by (metis add_gr_0 le_less_trans less_add_same_cancel1 less_le_trans zero_less_numeral zero_less_power)
  fix i :: nat
  have "(i * 2 ^ (k + 1) + 2 ^ k) div 2 ^ (k + 1) = i" by simp
  moreover have "i * 2 ^ (k + 1) div 2 ^ (k + 1) = i" by simp
  ultimately show "b = i * 2 ^ (k + 1) \<or> b = i * 2 ^ (k + 1) + 2 ^ k \<longleftrightarrow> i = b div 2 ^ (k + 1)"
    using aligned_index[OF assms(1)] by metis
qed

lemma maps_put:
  assumes ok: "maps_ok N ms fl" and b: "2 ^ k dvd b" "b + 2 ^ k \<le> N" and k: "k < NR_FREE_LIST"
    and new: "b \<notin> set (fl k)" and bud: "k < NR_FREE_LIST - 1 \<Longrightarrow> buddy k b \<notin> set (fl k)"
  shows "maps_ok N (mtoggle k (b div 2 ^ (k + 1)) ms) (fl(k := b # fl k))"
proof -
  let ?i = "b div 2 ^ (k + 1)"
  have len: "k < length ms" "?i div 32 < length (ms ! k)"
    using ok k pair_index(1)[OF b] by (auto simp: maps_ok_def)
  have "mbit (mtoggle k ?i ms) j i = (i * 2 ^ (j + 1) \<in> set ((fl(k := b # fl k)) j) \<or> i * 2 ^ (j + 1) + 2 ^ j \<in> set ((fl(k := b # fl k)) j))
      \<and> \<not> (i * 2 ^ (j + 1) \<in> set ((fl(k := b # fl k)) j) \<and> i * 2 ^ (j + 1) + 2 ^ j \<in> set ((fl(k := b # fl k)) j))"
    if j: "j < NR_FREE_LIST - 1" and i: "i * 2 ^ (j + 1) < N" for i j
  proof -
    have old: "mbit ms j i = (i * 2 ^ (j + 1) \<in> set (fl j) \<or> i * 2 ^ (j + 1) + 2 ^ j \<in> set (fl j))
        \<and> \<not> (i * 2 ^ (j + 1) \<in> set (fl j) \<and> i * 2 ^ (j + 1) + 2 ^ j \<in> set (fl j))"
      using ok j i by (simp add: maps_ok_def)
    show ?thesis
    proof (cases "j = k")
      case True
      show ?thesis
      proof (cases "i = ?i")
        case ii: True
        have "{i * 2 ^ (k + 1), i * 2 ^ (k + 1) + 2 ^ k} = {b, buddy k b}" "b \<noteq> buddy k b"
          using aligned_index[OF b(1)] ii by auto
        then show ?thesis using old True ii new bud j unfolding mbit_toggle[OF len]
          by (auto simp: doubleton_eq_iff)
      next
        case False
        then have "b \<noteq> i * 2 ^ (k + 1)" "b \<noteq> i * 2 ^ (k + 1) + 2 ^ k" using pair_index(2)[OF b, of i] by auto
        then show ?thesis using old True False unfolding mbit_toggle[OF len] by auto
      qed
    next
      case False
      then show ?thesis using old unfolding mbit_toggle[OF len] by auto
    qed
  qed
  then show ?thesis using ok by (simp add: maps_ok_def)
qed

lemma maps_put_top:
  "maps_ok N ms fl \<Longrightarrow> k = NR_FREE_LIST - 1 \<Longrightarrow> maps_ok N ms (fl(k := xs))"
  by (simp add: maps_ok_def)

lemma maps_toggle_top:
  "maps_ok N ms fl \<Longrightarrow> k = NR_FREE_LIST - 1 \<Longrightarrow> i div 32 < length (ms ! k) \<Longrightarrow> maps_ok N (mtoggle k i ms) fl"
  by (auto simp: maps_ok_def mbit_toggle NR_FREE_LIST_def)

lemma maps_take:
  assumes ok: "maps_ok N ms fl" and b: "2 ^ k dvd b" "b + 2 ^ k \<le> N" and k: "k < NR_FREE_LIST"
    and listed: "b \<in> set (fl k)" and d: "distinct (fl k)"
  shows "maps_ok N (mtoggle k (b div 2 ^ (k + 1)) ms) (fl(k := remove1 b (fl k)))"
proof -
  let ?i = "b div 2 ^ (k + 1)" and ?fl = "fl(k := remove1 b (fl k))"
  have len: "k < length ms" "?i div 32 < length (ms ! k)"
    using ok k pair_index(1)[OF b] by (auto simp: maps_ok_def)
  have mem: "c \<in> set (?fl j) \<longleftrightarrow> c \<in> set (fl j) \<and> (j, c) \<noteq> (k, b)" for j c using d by auto
  have "mbit (mtoggle k ?i ms) j i = (i * 2 ^ (j + 1) \<in> set (?fl j) \<or> i * 2 ^ (j + 1) + 2 ^ j \<in> set (?fl j))
      \<and> \<not> (i * 2 ^ (j + 1) \<in> set (?fl j) \<and> i * 2 ^ (j + 1) + 2 ^ j \<in> set (?fl j))"
    if j: "j < NR_FREE_LIST - 1" and i: "i * 2 ^ (j + 1) < N" for i j
  proof -
    have old: "mbit ms j i = (i * 2 ^ (j + 1) \<in> set (fl j) \<or> i * 2 ^ (j + 1) + 2 ^ j \<in> set (fl j))
        \<and> \<not> (i * 2 ^ (j + 1) \<in> set (fl j) \<and> i * 2 ^ (j + 1) + 2 ^ j \<in> set (fl j))"
      using ok j i by (simp add: maps_ok_def)
    show ?thesis
    proof (cases "j = k \<and> i = ?i")
      case True
      then have "b = i * 2 ^ (k + 1) \<or> b = i * 2 ^ (k + 1) + 2 ^ k" using pair_index(2)[OF b, of i] by auto
      then show ?thesis using old True listed unfolding mem mbit_toggle[OF len] by auto
    next
      case False
      then have "j = k \<Longrightarrow> b \<noteq> i * 2 ^ (k + 1) \<and> b \<noteq> i * 2 ^ (k + 1) + 2 ^ k" using pair_index(2)[OF b, of i] by auto
      then show ?thesis using old False unfolding mem mbit_toggle[OF len] by auto
    qed
  qed
  then show ?thesis using ok by (simp add: maps_ok_def)
qed

text \<open>The bit of a block in hand tells whether its buddy is free.\<close>

lemma maps_buddy:
  assumes ok: "maps_ok N ms fl" and b: "2 ^ k dvd b" "b + 2 ^ k \<le> N" and k: "k < NR_FREE_LIST - 1"
    and new: "b \<notin> set (fl k)"
  shows "mbit ms k (b div 2 ^ (k + 1)) \<longleftrightarrow> buddy k b \<in> set (fl k)"
proof -
  let ?i = "b div 2 ^ (k + 1)"
  have "mbit ms k ?i = (?i * 2 ^ (k + 1) \<in> set (fl k) \<or> ?i * 2 ^ (k + 1) + 2 ^ k \<in> set (fl k))"
    using ok k pair_index(1)[OF b] by (simp add: maps_ok_def)
  then show ?thesis using aligned_index[OF b(1)] new by metis
qed

section \<open>The invariant of the allocator\<close>

definition buddy_ok :: "mem_state \<Rightarrow> (nat \<Rightarrow> nat list) \<Rightarrow> bool" where
  "buddy_ok st fl \<longleftrightarrow> lists_ok (mm_heap st) fl \<and> blocks_ok (length (pg_count st)) fl
     \<and> maps_ok (length (pg_count st)) (mm_map st) fl \<and> length (area_count st) = NR_FREE_LIST
     \<and> length (pg_flags st) = length (pg_count st) \<and> length (pg_count st) \<le> 2 ^ 20"

lemma area_count_add_sel [simp]:
  "mm_heap (area_count_add k d st) = mm_heap st" "mm_map (area_count_add k d st) = mm_map st"
  "pg_flags (area_count_add k d st) = pg_flags st" "pg_count (area_count_add k d st) = pg_count st"
  "nfreepages (area_count_add k d st) = nfreepages st" "mm_mem (area_count_add k d st) = mm_mem st"
  "length (area_count (area_count_add k d st)) = length (area_count st)"
  by (simp_all add: area_count_add_def)

text \<open>What an operation on the lists and bitmaps leaves alone.\<close>

definition same_pages :: "mem_state \<Rightarrow> mem_state \<Rightarrow> bool" where
  "same_pages st st' \<longleftrightarrow> pg_flags st' = pg_flags st \<and> pg_count st' = pg_count st
     \<and> nfreepages st' = nfreepages st \<and> mm_mem st' = mm_mem st \<and> length (area_count st') = length (area_count st)"

lemma same_pages_trans: "same_pages a b \<Longrightarrow> same_pages b c \<Longrightarrow> same_pages a c"
  by (auto simp: same_pages_def)

text \<open>The assignments of the allocator are insertion after the head and removal.\<close>

lemma insert_assignments:
  assumes "lnext h (Area k) \<noteq> Page b"
  shows "set_next (Area k) (Page b) (set_prev (lnext (set_prev (Page b) (Area k)
      (set_next (Page b) (lnext h (Area k)) h)) (Page b)) (Page b)
      (set_prev (Page b) (Area k) (set_next (Page b) (lnext h (Area k)) h)))
    = list_insert (Area k) (Page b) h"
    and "set_next (Area k) (Page b) (set_prev (lnext (set_prev (Page b) (Area k)
      (set_next (Page b) (lnext h (Area k)) h)) (Area k)) (Page b)
      (set_prev (Page b) (Area k) (set_next (Page b) (lnext h (Area k)) h)))
    = list_insert (Area k) (Page b) h"
  using assms by (auto intro!: lheap_eqI simp: klist_ops klist_simps fun_eq_iff)

lemma lists_next_fresh:
  assumes "lists_ok h fl" and "k < NR_FREE_LIST" and "b \<notin> set (fl k)"
  shows "lnext h (Area k) \<noteq> Page b"
  using is_klist_next[of h "Area k" "map Page (fl k)"] assms by (cases "fl k") (auto simp: lists_ok_def)

lemma lists_head:
  assumes "lists_ok h fl" and "k < NR_FREE_LIST"
  shows "fl k = [] \<Longrightarrow> lnext h (Area k) = Area k"
    and "fl k = b # bs \<Longrightarrow> lnext h (Area k) = Page b \<and> lprev h (Page b) = Area k"
  using assms is_klist_next[of h "Area k" "map Page (fl k)"]
  by (auto simp: lists_ok_def is_klist_def dest!: spec[of _ k])

lemma remove_head_assignments:
  assumes "lprev h (Page b) = Area k"
  shows "set_prev (lnext (set_next (Area k) (lnext h (Page b)) h) (Page b)) (Area k)
      (set_next (Area k) (lnext h (Page b)) h) = list_del (Page b) h"
  using assms by (auto intro!: lheap_eqI simp: klist_ops klist_simps fun_eq_iff)

lemma remove_assignments:
  assumes "lprev h (Page b) \<noteq> Page b"
  shows "set_prev (lnext h (Page b)) (lprev h (Page b)) (set_next (lprev h (Page b)) (lnext h (Page b)) h)
    = list_del (Page b) h"
  using assms by (auto intro!: lheap_eqI simp: klist_ops klist_simps fun_eq_iff)

lemma lists_prev_neq:
  assumes "lists_ok h fl" and "k < NR_FREE_LIST" and "b \<in> set (fl k)"
  shows "lprev h (Page b) \<noteq> Page b"
proof -
  obtain us vs where "fl k = us @ b # vs" using assms(3) by (auto dest: split_list)
  then have "is_klist h (Area k) (map Page us @ Page b # map Page vs)"
    using assms(1,2) by (auto simp: lists_ok_def dest!: spec[of _ k])
  then show ?thesis by (rule is_klist_prev_neq)
qed

section \<open>Allocation\<close>

lemma find_area_spec:
  assumes ok: "lists_ok h fl" and k: "k < NR_FREE_LIST"
  shows "k \<le> find_area h k \<and> find_area h k \<le> NR_FREE_LIST \<and> (\<forall>j. k \<le> j \<and> j < find_area h k \<longrightarrow> fl j = [])
    \<and> (find_area h k < NR_FREE_LIST \<longrightarrow> fl (find_area h k) \<noteq> [])"
  using assms
proof (induction h k rule: find_area.induct)
  case (1 h k)
  note h = lists_head[OF "1.prems"]
  show ?case
  proof (cases "fl k = []")
    case False
    then have "lnext h (Area k) \<noteq> Area k" using h(2) by (cases "fl k") auto
    then have "find_area h k = k" by (simp add: find_area.simps)
    then show ?thesis using False "1.prems" by auto
  next
    case True
    then have e: "lnext h (Area k) = Area k" using h(1) by simp
    show ?thesis
    proof (cases "Suc k < NR_FREE_LIST")
      case False
      then have "find_area h k = Suc k" using e by (simp add: find_area.simps)
      then show ?thesis using True False "1.prems" by (auto simp: less_Suc_eq)
    next
      case suc: True
      then have "find_area h k = find_area h (Suc k)" using e by (simp add: find_area.simps[of h k])
      moreover note ih = "1.IH"[OF _ suc "1.prems"(1) suc]
      moreover have "fl j = []" if "k \<le> j" "j < find_area h (Suc k)" for j
        using that ih e True by (cases "j = k") auto
      ultimately show ?thesis using e by auto
    qed
  qed
qed

text \<open>The block in hand goes back in halves; what is kept is the last of them.\<close>

lemma split_loop_spec:
  assumes "buddy_ok st fl" and "hand_ok (length (pg_count st)) fl k r" and "order \<le> k" and "k < NR_FREE_LIST"
  shows "\<exists>st' r' fl'. split_loop order k r st = Inr (st', r') \<and> buddy_ok st' fl' \<and> same_pages st st'
    \<and> hand_ok (length (pg_count st)) fl' order r' \<and> (\<forall>x. covers order r' x \<longrightarrow> covers k r x)
    \<and> pages fl' = pages fl \<union> ({x. covers k r x} - {x. covers order r' x})"
  using assms
proof (induction k arbitrary: r st fl)
  case 0
  then have "split_loop order 0 r st = Inr (st, r)" by (simp add: split_loop.simps)
  then show ?case using 0 by (auto simp: same_pages_def)
next
  case (Suc k)
  let ?N = "length (pg_count st)"
  show ?case
  proof (cases "order < Suc k")
    case False
    then have o: "order = Suc k" using Suc.prems(3) by simp
    have "split_loop order (Suc k) r st = Inr (st, r)" using False by (simp add: split_loop.simps[of order "Suc k"])
    with o show ?thesis using Suc.prems by (auto simp: same_pages_def)
  next
    case True
    have n: "order \<le> k" "k < NR_FREE_LIST" "k < NR_FREE_LIST - 1"
      using True Suc.prems(4) by (auto simp: NR_FREE_LIST_def)
    have al: "2 ^ (k + 1) dvd r" and fit: "r + 2 ^ (k + 1) \<le> ?N"
      and free: "\<And>x. covers (k + 1) r x \<Longrightarrow> x \<notin> pages fl"
      using Suc.prems(2) by (auto simp: hand_ok_def)
    have al': "2 ^ k dvd r" using al by (metis dvd_trans le_add1 le_imp_power_dvd)
    have bud: "buddy k r = r + 2 ^ k"
    proof -
      obtain q where "r = 2 ^ (k + 1) * q" using al by (rule dvdE)
      then show ?thesis by (simp add: buddy_def)
    qed
    note cov = buddy_facts(4)[OF al', unfolded bud]
    have hand: "hand_ok ?N fl k r" using al' fit free cov by (auto simp: hand_ok_def)
    have new: "\<forall>j < NR_FREE_LIST. r \<notin> set (fl j)" by (rule hand_not_listed[OF hand])
    have nb: "buddy k r \<notin> set (fl k)"
      using free[of "r + 2 ^ k"] cov[of "r + 2 ^ k"] n(2) bud listed_page by auto
    let ?fl = "fl(k := r # fl k)" and ?h = "list_insert (Area k) (Page r) (mm_heap st)"
      and ?ms = "mtoggle k (r div 2 ^ (k + 1)) (mm_map st)"
    let ?st1 = "area_count_add k 1 (st\<lparr>mm_heap := ?h\<rparr>)"
    let ?st = "?st1\<lparr>mm_map := ?ms\<rparr>"
    have ok: "lists_ok (mm_heap st) fl" "blocks_ok ?N fl" "maps_ok ?N (mm_map st) fl"
      using Suc.prems(1) by (auto simp: buddy_ok_def)
    have idx: "r div 2 ^ (k + 1) div 32 < length (mm_map st ! k)"
      using ok(3) pair_index(1)[OF al'] fit n(2) by (auto simp: maps_ok_def)
    have h: "set_next (Area k) (Page r) (set_prev (lnext (set_prev (Page r) (Area k)
        (set_next (Page r) (lnext (mm_heap st) (Area k)) (mm_heap st))) (Page r)) (Page r)
        (set_prev (Page r) (Area k) (set_next (Page r) (lnext (mm_heap st) (Area k)) (mm_heap st)))) = ?h"
      using lists_next_fresh[OF ok(1) n(2)] new n(2) by (intro insert_assignments(1)) auto
    have tog: "map_toggle k (r div 2 ^ (k + 1)) ?st1 = Inr ?st"
      using map_toggle_eq[of "r div 2 ^ (k + 1)" ?st1 k] idx by simp
    have run: "split_loop order (Suc k) r st = split_loop order k (r + 2 ^ k) ?st"
      unfolding split_loop.simps[of order "Suc k" r st] Let_def diff_Suc_1 h tog using True by simp
    have ok': "buddy_ok ?st ?fl"
      using Suc.prems(1) lists_insert[OF ok(1) n(2) new] blocks_put[OF ok(2) hand n(2)]
        maps_put[OF ok(3) al' _ n(2) _ nb] new n(2) fit
      by (simp add: buddy_ok_def)
    have pg: "pages ?fl = pages fl \<union> {x. covers k r x}" by (rule pages_put[OF n(2)])
    have rest: "hand_ok (length (pg_count ?st)) ?fl k (r + 2 ^ k)"
    proof -
      have "2 ^ k dvd r + 2 ^ k" using al' by simp
      moreover have "\<not> covers k r x" if "covers k (r + 2 ^ k) x" for x
        using that by (simp add: covers_range al' calculation)
      ultimately show ?thesis using fit free cov pg by (auto simp: hand_ok_def)
    qed
    have pc: "pg_count ?st = pg_count st" by simp
    obtain st' r' fl' where ih: "split_loop order k (r + 2 ^ k) ?st = Inr (st', r')" "buddy_ok st' fl'"
        "same_pages ?st st'" "hand_ok ?N fl' order r'" "\<forall>x. covers order r' x \<longrightarrow> covers k (r + 2 ^ k) x"
        "pages fl' = pages ?fl \<union> ({x. covers k (r + 2 ^ k) x} - {x. covers order r' x})"
      using Suc.IH[OF ok' rest n(1,2), unfolded pc] by blast
    have "same_pages st ?st" by (simp add: same_pages_def)
    then have sp: "same_pages st st'" using ih(3) by (rule same_pages_trans)
    have disj: "\<not> covers order r' x" if "covers k r x" for x
      using that ih(5) rest pg by (auto simp: hand_ok_def)
    have "pages fl' = pages fl \<union> ({x. covers (Suc k) r x} - {x. covers order r' x})"
      unfolding ih(6) pg using cov disj by auto
    moreover have "\<forall>x. covers order r' x \<longrightarrow> covers (Suc k) r x" using ih(5) cov by auto
    ultimately show ?thesis using run ih(1,2,4) sp by auto
  qed
qed

lemma get_free_pages_some:
  assumes ok: "buddy_ok st fl" and order: "order < NR_FREE_LIST" and n: "find_area (mm_heap st) order < NR_FREE_LIST"
  defines "N \<equiv> length (pg_count st)"
  shows "\<exists>st' r fl'. get_free_pages attr order st = Inr (st', Done (push_bit PAGE_SHIFT (word_of_nat r)) False)
    \<and> buddy_ok st' fl' \<and> 2 ^ order dvd r \<and> r + 2 ^ order \<le> N \<and> {x. covers order r x} \<subseteq> pages fl
    \<and> pages fl' = pages fl - {x. covers order r x} \<and> pg_count st' = (pg_count st)[r := 1]
    \<and> pg_flags st' = pg_flags st \<and> nfreepages st' = nfreepages st - 2 ^ order
    \<and> mm_mem st' = memset0 (r * PAGE_SIZE) (PAGE_SIZE * 2 ^ order) (mm_mem st)"
proof -
  let ?n = "find_area (mm_heap st) order"
  have lo: "lists_ok (mm_heap st) fl" and bo: "blocks_ok N fl" and mo: "maps_ok N (mm_map st) fl"
    using ok by (auto simp: buddy_ok_def N_def)
  obtain b bs where fl: "fl ?n = b # bs"
    using find_area_spec[OF lo order] n by (cases "fl ?n") auto
  have le: "order \<le> ?n" using find_area_spec[OF lo order] by simp
  note hd = lists_head(2)[OF lo n fl]
  have rm: "remove1 b (fl ?n) = bs" using fl by simp
  have d: "distinct (fl ?n)" and al: "2 ^ ?n dvd b" and fit: "b + 2 ^ ?n \<le> N" and bin: "b \<in> set (fl ?n)"
    using bo n fl by (auto simp: blocks_ok_def)
  let ?fl = "fl(?n := remove1 b (fl ?n))"
  let ?h = "list_del (Page b) (mm_heap st)"
  let ?st1 = "st\<lparr>mm_heap := ?h, mm_map := mtoggle ?n (b div 2 ^ (?n + 1)) (mm_map st)\<rparr>"
  have idx: "b div 2 ^ (?n + 1) div 32 < length (mm_map st ! ?n)"
    using mo pair_index(1)[OF al fit] n by (auto simp: maps_ok_def)
  have tog: "map_toggle ?n (b div 2 ^ (?n + 1)) (st\<lparr>mm_heap := ?h\<rparr>) = Inr ?st1"
    using map_toggle_eq[of "b div 2 ^ (?n + 1)" "st\<lparr>mm_heap := ?h\<rparr>" ?n] idx by simp
  have ok1: "buddy_ok ?st1 ?fl"
    using ok lists_remove[OF lo n bin] blocks_take(1)[OF bo bin n] maps_take[OF mo al fit n bin d]
    by (simp add: buddy_ok_def N_def)
  have pc1: "pg_count ?st1 = pg_count st" by simp
  have hand: "hand_ok (length (pg_count ?st1)) ?fl ?n b" using blocks_take(3)[OF bo bin n] by (simp add: N_def)
  obtain st2 r fl' where sp: "split_loop order ?n b ?st1 = Inr (st2, r)" "buddy_ok st2 fl'" "same_pages ?st1 st2"
      "hand_ok N fl' order r" "\<forall>x. covers order r x \<longrightarrow> covers ?n b x"
      "pages fl' = pages ?fl \<union> ({x. covers ?n b x} - {x. covers order r x})"
    using split_loop_spec[OF ok1 hand le n, unfolded pc1] unfolding N_def by blast
  have r: "2 ^ order dvd r" "r + 2 ^ order \<le> N" using sp(4) by (auto simp: hand_ok_def)
  then have rN: "r < N" using less_le_trans[of r "r + 2 ^ order" N] by simp
  have hb: "{x. covers ?n b x} \<subseteq> pages fl" using bin n by (auto simp: pages_def)
  have sub: "{x. covers order r x} \<subseteq> pages fl" using sp(5) hb by auto
  have pg: "pages fl' = pages fl - {x. covers order r x}"
    unfolding sp(6) blocks_take(2)[OF bo bin n] using hb sp(5) by auto
  let ?st' = "st2\<lparr>pg_count := (pg_count st2)[r := 1], nfreepages := nfreepages st2 - 2 ^ order,
      mm_mem := memset0 (r * PAGE_SIZE) (PAGE_SIZE * 2 ^ order) (mm_mem st2)\<rparr>"
  have same: "pg_count st2 = pg_count st" "pg_flags st2 = pg_flags st" "nfreepages st2 = nfreepages st"
      "mm_mem st2 = mm_mem st" using sp(3) by (auto simp: same_pages_def)
  have ne: "?n \<noteq> NR_FREE_LIST" "\<not> NR_FREE_LIST \<le> order" using n order by auto
  have "get_free_pages attr order st = Inr (?st', Done (push_bit PAGE_SHIFT (word_of_nat r)) False)"
    unfolding get_free_pages_def Let_def
    using ne hd remove_head_assignments[of "mm_heap st" b ?n] tog sp(1) rN same(1) by (simp add: N_def)
  moreover have "buddy_ok ?st' fl'" using sp(2) by (simp add: buddy_ok_def)
  ultimately show ?thesis using r sub pg same by (intro exI[of _ ?st'] exI[of _ r] exI[of _ fl']) simp
qed

lemma get_free_pages_none:
  assumes "lists_ok (mm_heap st) fl" and "order < NR_FREE_LIST" and "\<forall>k. order \<le> k \<and> k < NR_FREE_LIST \<longrightarrow> fl k = []"
  shows "get_free_pages attr order st = Inr (st, if attr AND PageWait \<noteq> 0 then Sleeps else Done 0 False)"
proof -
  have "find_area (mm_heap st) order = NR_FREE_LIST"
    using find_area_spec[OF assms(1,2)] assms(3) by (metis le_neq_implies_less)
  then show ?thesis using assms(2) by (simp add: get_free_pages_def)
qed

text \<open>
  Because buddies are merged, an aligned run of free pages lies inside one free block: the
  lists of the orders from \<open>k\<close> on are empty only if no aligned run of \<open>2\<^sup>k\<close> pages is free.
\<close>

lemma aligned_run_in_block:
  assumes ok: "buddy_ok st fl" and "k < NR_FREE_LIST" and "2 ^ k dvd b" and "b + 2 ^ k \<le> length (pg_count st)"
    and "\<forall>x. covers k b x \<longrightarrow> x \<in> pages fl"
  shows "\<exists>j c. k \<le> j \<and> j < NR_FREE_LIST \<and> c \<in> set (fl j) \<and> (\<forall>x. covers k b x \<longrightarrow> covers j c x)"
  using assms(2-)
proof (induction k arbitrary: b)
  case 0
  then have "b \<in> pages fl" using covers_self by blast
  then show ?case by (auto simp: pages_def covers_def)
next
  case (Suc k)
  let ?N = "length (pg_count st)"
  have bo: "blocks_ok ?N fl" and mo: "maps_ok ?N (mm_map st) fl" using ok by (auto simp: buddy_ok_def)
  have al: "2 ^ k dvd b" using Suc.prems(2) by (metis dvd_trans le_Suc_eq le_imp_power_dvd order_refl)
  have bud: "buddy k b = b + 2 ^ k"
  proof -
    obtain q where "b = 2 ^ Suc k * q" using Suc.prems(2) by (rule dvdE)
    then show ?thesis by (simp add: buddy_def)
  qed
  note cov = buddy_facts(4)[OF al, unfolded bud]
  have k: "k < NR_FREE_LIST" "k < NR_FREE_LIST - 1" using Suc.prems(1) by (auto simp: NR_FREE_LIST_def)
  have big: "\<exists>j c. Suc k \<le> j \<and> j < NR_FREE_LIST \<and> c \<in> set (fl j) \<and> (\<forall>x. covers (Suc k) b x \<longrightarrow> covers j c x)"
    if jc: "k < j" "j < NR_FREE_LIST" "c \<in> set (fl j)" "covers j c d" "covers (Suc k) b d" for j c d
  proof -
    have "covers j c x" if "covers (Suc k) b x" for x
    proof -
      have "covers (Suc k) d x" using jc(5) that by (rule covers_swap)
      then have "covers j d x" by (rule covers_mono) (use jc(1) in simp)
      with jc(4) show ?thesis by (rule covers_trans)
    qed
    then show ?thesis using jc by (intro exI[of _ j] exI[of _ c]) auto
  qed
  obtain j c where jc: "k \<le> j" "j < NR_FREE_LIST" "c \<in> set (fl j)" "\<forall>x. covers k b x \<longrightarrow> covers j c x"
    using Suc.IH[OF k(1) al] Suc.prems(3,4) cov by auto
  obtain i e where ie: "k \<le> i" "i < NR_FREE_LIST" "e \<in> set (fl i)" "\<forall>x. covers k (b + 2 ^ k) x \<longrightarrow> covers i e x"
    using Suc.IH[OF k(1), of "b + 2 ^ k"] al Suc.prems(3,4) cov by auto
  show ?case
  proof (cases "k < j \<or> k < i")
    case True
    then show ?thesis using big[of j c b] big[of i e "b + 2 ^ k"] jc ie cov by auto
  next
    case False
    then have eq: "j = k" "i = k" using jc ie by auto
    have "c = b"
    proof -
      have "covers k c b" using jc(4) eq by simp
      moreover have "2 ^ k dvd c" using bo jc eq by (auto simp: blocks_ok_def)
      ultimately show ?thesis using al by (intro covers_aligned)
    qed
    moreover have "e = b + 2 ^ k"
    proof -
      have "covers k e (b + 2 ^ k)" using ie(4) eq by simp
      moreover have "2 ^ k dvd e" "2 ^ k dvd b + 2 ^ k" using bo ie eq al by (auto simp: blocks_ok_def)
      ultimately show ?thesis by (intro covers_aligned)
    qed
    moreover have "\<not> (b \<in> set (fl k) \<and> b + 2 ^ k \<in> set (fl k))"
    proof -
      let ?i = "b div 2 ^ (k + 1)"
      have bi: "?i * 2 ^ (k + 1) = b" using Suc.prems(2) by simp
      have "b < ?N" using Suc.prems(3) less_le_trans[of b "b + 2 ^ Suc k" ?N] by simp
      then have "?i * 2 ^ (k + 1) < ?N" unfolding bi .
      then have "\<not> (?i * 2 ^ (k + 1) \<in> set (fl k) \<and> ?i * 2 ^ (k + 1) + 2 ^ k \<in> set (fl k))"
        using mo k(2) unfolding maps_ok_def by blast
      then show ?thesis unfolding bi .
    qed
    ultimately have False using jc ie eq by simp
    then show ?thesis ..
  qed
qed

section \<open>Release\<close>

text \<open>The mask arithmetic of \<open>__free_pages\<close> on page numbers.\<close>

lemma xor_buddy: "2 ^ k dvd b \<Longrightarrow> b XOR 2 ^ k = buddy k b"
proof -
  assume "2 ^ k dvd b"
  then obtain q where b: "b = 2 ^ k * q" by (rule dvdE)
  have "b XOR 2 ^ k = push_bit k q XOR push_bit k 1" using b by (simp add: push_bit_eq_mult mult.commute)
  also have "\<dots> = push_bit k (q XOR 1)" by simp
  also have "q XOR 1 = (if even q then q + 1 else q - 1)" by (subst xor_one_eq) auto
  finally show ?thesis using b by (auto simp: buddy_def push_bit_eq_mult algebra_simps)
qed

lemma and_mask_word: "(w::u32) AND - (2 ^ k) = push_bit k (drop_bit k w)"
proof (rule bit_word_eqI)
  fix n assume "n < LENGTH(32)"
  have "- (2 ^ k) = NOT (Bit_Operations.mask k :: u32)" by (simp add: mask_eq_exp_minus_1 minus_eq_not_minus_1)
  then show "bit (w AND - (2 ^ k)) n = bit (push_bit k (drop_bit k w)) n" using \<open>n < LENGTH(32)\<close>
    by (auto simp: bit_and_iff bit_not_iff bit_push_bit_iff bit_drop_bit_eq bit_mask_iff)
qed

lemma unat_and_mask: "unat ((w::u32) AND - (2 ^ k)) = unat w div 2 ^ k * 2 ^ k"
proof -
  have "unat w div 2 ^ k * 2 ^ k \<le> unat w" by (rule div_times_less_eq_dividend)
  also have "\<dots> < 2 ^ 32" using unsigned_less[of w] by simp
  finally have "take_bit 32 (push_bit k (drop_bit k (unat w))) = unat w div 2 ^ k * 2 ^ k"
    by (simp add: push_bit_eq_mult drop_bit_eq_div take_bit_nat_eq_self)
  then show ?thesis by (simp add: and_mask_word unsigned_push_bit_eq unat_drop_bit_eq)
qed

lemma mask_top: "k < NR_FREE_LIST \<Longrightarrow> - (2 ^ k) + push_bit (NR_FREE_LIST - 1) (1::u32) = 0 \<longleftrightarrow> k = NR_FREE_LIST - 1"
proof -
  assume "k < NR_FREE_LIST"
  then have "k \<in> {0, 1, 2, 3, 4, 5, 6, 7, 8, 9}" by (auto simp: NR_FREE_LIST_def)
  then show ?thesis by (auto simp: NR_FREE_LIST_def)
qed

lemma unat_xor_buddy:
  assumes "2 ^ k dvd unat w" and "k < 32"
  shows "unat ((w::u32) XOR - (- (2 ^ k))) = buddy k (unat w)"
proof -
  have "(2::nat) ^ k < 2 ^ 32" using assms(2) by (intro power_strict_increasing) auto
  then have "unat (word_of_nat (2 ^ k) :: u32) = 2 ^ k" using assms(2) by (simp add: unsigned_of_nat take_bit_nat_eq_self del: of_nat_power)
  then have "unat ((2::u32) ^ k) = 2 ^ k" by simp
  then show ?thesis using xor_buddy[OF assms(1)] by (simp add: unsigned_xor_eq)
qed

lemma merged_start:
  assumes "2 ^ k dvd b"
  shows "2 ^ (k + 1) dvd b div 2 ^ (k + 1) * 2 ^ (k + 1)"
    and "covers (k + 1) (b div 2 ^ (k + 1) * 2 ^ (k + 1)) x \<longleftrightarrow> covers k b x \<or> covers k (buddy k b) x"
    and "b + 2 ^ k \<le> N \<Longrightarrow> buddy k b + 2 ^ k \<le> N \<Longrightarrow> b div 2 ^ (k + 1) * 2 ^ (k + 1) + 2 ^ (k + 1) \<le> N"
proof -
  show "2 ^ (k + 1) dvd b div 2 ^ (k + 1) * 2 ^ (k + 1)" by (rule dvd_triv_right)
  have "covers (k + 1) (b div 2 ^ (k + 1) * 2 ^ (k + 1)) x = covers (k + 1) b x" by (simp add: covers_def)
  then show "covers (k + 1) (b div 2 ^ (k + 1) * 2 ^ (k + 1)) x \<longleftrightarrow> covers k b x \<or> covers k (buddy k b) x"
    using buddy_facts(4)[OF assms] by simp
  show "b + 2 ^ k \<le> N \<Longrightarrow> buddy k b + 2 ^ k \<le> N \<Longrightarrow> b div 2 ^ (k + 1) * 2 ^ (k + 1) + 2 ^ (k + 1) \<le> N"
    using aligned_index[OF assms] by auto
qed

text \<open>
  The merging loop returns the merged block in hand, its bit in the bitmap already
  set for the insertion that follows.
\<close>

lemma free_loop_spec:
  assumes "buddy_ok st fl" and "hand_ok (length (pg_count st)) fl k (unat m)" and "k < NR_FREE_LIST"
    and "unat ix = unat m div 2 ^ (k + 1)"
  shows "\<exists>st' m' k' fl'. free_loop (- (2 ^ k)) m ix k st = Inr (st', m', k') \<and> k' < NR_FREE_LIST
    \<and> same_pages st st' \<and> lists_ok (mm_heap st') fl' \<and> blocks_ok (length (pg_count st)) fl'
    \<and> hand_ok (length (pg_count st)) fl' k' (unat m')
    \<and> maps_ok (length (pg_count st)) (mm_map st') (fl'(k' := unat m' # fl' k'))
    \<and> pages fl' \<union> {x. covers k' (unat m') x} = pages fl \<union> {x. covers k (unat m) x}"
  using assms
proof (induction "NR_FREE_LIST - k" arbitrary: k m ix st fl)
  case 0
  then show ?case by simp
next
  case (Suc d)
  let ?N = "length (pg_count st)" and ?b = "unat m" and ?i = "unat m div 2 ^ (k + 1)"
  have lo: "lists_ok (mm_heap st) fl" and bo: "blocks_ok ?N fl" and mo: "maps_ok ?N (mm_map st) fl"
    and N: "?N \<le> 2 ^ 20" using Suc.prems(1) by (auto simp: buddy_ok_def)
  have al: "2 ^ k dvd ?b" and fit: "?b + 2 ^ k \<le> ?N" using Suc.prems(2) by (auto simp: hand_ok_def)
  have new: "\<forall>j < NR_FREE_LIST. ?b \<notin> set (fl j)" by (rule hand_not_listed[OF Suc.prems(2)])
  show ?case
  proof (cases "k = NR_FREE_LIST - 1")
    case True
    then have "free_loop (- (2 ^ k)) m ix k st = Inr (st, m, k)"
      using mask_top[OF Suc.prems(3)] by (simp add: free_loop.simps[of _ m])
    moreover have "same_pages st st" by (simp add: same_pages_def)
    ultimately show ?thesis using lo bo Suc.prems(2,3) maps_put_top[OF mo True] by blast
  next
    case False
    then have k: "k < NR_FREE_LIST - 1" using Suc.prems(3) by (simp add: NR_FREE_LIST_def)
    have idx: "?i div 32 < length (mm_map st ! k)" "k < length (mm_map st)"
      using mo pair_index(1)[OF al fit] Suc.prems(3) by (auto simp: maps_ok_def)
    let ?st1 = "st\<lparr>mm_map := mtoggle k ?i (mm_map st)\<rparr>"
    have tog: "map_toggle k (unat ix) st = Inr ?st1" using map_toggle_eq idx(1) Suc.prems(4) by simp
    have bit1: "map_bit k (unat ix) ?st1 \<longleftrightarrow> buddy k ?b \<notin> set (fl k)"
      using maps_buddy[OF mo al fit k] new Suc.prems(3,4) mbit_toggle[OF idx(2,1)] by (simp add: map_bit_eq)
    note top = mask_top[OF Suc.prems(3)] and notover = Suc.prems(3)[unfolded not_le[symmetric]]
    show ?thesis
    proof (cases "buddy k ?b \<in> set (fl k)")
      case False
      then have "free_loop (- (2 ^ k)) m ix k st = Inr (?st1, m, k)"
        using top notover \<open>k \<noteq> NR_FREE_LIST - 1\<close> tog bit1 by (simp add: free_loop.simps[of _ m])
      moreover have "maps_ok ?N (mm_map ?st1) (fl(k := ?b # fl k))"
        using maps_put[OF mo al fit Suc.prems(3)] new Suc.prems(3) False by simp
      moreover have "same_pages st ?st1" by (simp add: same_pages_def)
      ultimately show ?thesis using lo bo Suc.prems(2,3) by (intro exI[of _ ?st1] exI[of _ m] exI[of _ k] exI[of _ fl]) simp
    next
      case True
      let ?c = "buddy k ?b" and ?fl = "fl(k := remove1 (buddy k ?b) (fl k))"
      have cal: "2 ^ k dvd ?c" and cidx: "?c div 2 ^ (k + 1) = ?i" using buddy_facts(1,3)[OF al] by auto
      have cfit: "?c + 2 ^ k \<le> ?N" and d: "distinct (fl k)"
        using bo True Suc.prems(3) by (auto simp: blocks_ok_def)
      have cN: "?c < ?N" using cfit less_le_trans[of ?c "?c + 2 ^ k" ?N] by simp
      let ?h = "list_del (Page ?c) (mm_heap st)"
      let ?st2 = "area_count_add k (- 1) (?st1\<lparr>mm_heap := ?h\<rparr>)"
      let ?m = "m AND - (2 ^ (k + 1))" and ?ix = "drop_bit 1 ix"
      have m': "unat ?m = ?i * 2 ^ (k + 1)" by (rule unat_and_mask)
      have h: "set_prev (lnext (mm_heap st) (Page ?c)) (lprev (mm_heap st) (Page ?c))
          (set_next (lprev (mm_heap st) (Page ?c)) (lnext (mm_heap st) (Page ?c)) (mm_heap st)) = ?h"
        by (rule remove_assignments[OF lists_prev_neq[OF lo Suc.prems(3) True]])
      have cw: "unat (m XOR - (- (2 ^ k))) = ?c" using unat_xor_buddy[OF al] Suc.prems(3) by (simp add: NR_FREE_LIST_def)
      have msk: "push_bit 1 (- (2 ^ k)) = (- (2 ^ (k + 1)) :: u32)" by (simp add: push_bit_eq_mult)
      have run: "free_loop (- (2 ^ k)) m ix k st = free_loop (- (2 ^ (k + 1))) ?m ?ix (k + 1) ?st2"
        unfolding free_loop.simps[of "- (2 ^ k)" m] Let_def
        using top notover \<open>k \<noteq> NR_FREE_LIST - 1\<close> tog bit1 True cw cN h msk by (simp add: mult.commute)
      have ok2: "buddy_ok ?st2 ?fl"
        using Suc.prems(1) lists_remove[OF lo Suc.prems(3) True] blocks_take(1)[OF bo True Suc.prems(3)]
          maps_take[OF mo cal cfit Suc.prems(3) True d] cidx
        by (simp add: buddy_ok_def)
      have pc: "pg_count ?st2 = pg_count st" by simp
      have pgt: "pages ?fl = pages fl - {x. covers k ?c x}" by (rule blocks_take(2)[OF bo True Suc.prems(3)])
      have cin: "{x. covers k ?c x} \<subseteq> pages fl" using True Suc.prems(3) by (auto simp: pages_def)
      have hand2: "hand_ok (length (pg_count ?st2)) ?fl (k + 1) (unat ?m)"
        unfolding pc m' hand_ok_def using merged_start[OF al] fit cfit pgt Suc.prems(2) by (auto simp: hand_ok_def)
      have ix2: "unat ?ix = unat ?m div 2 ^ (k + 1 + 1)"
      proof -
        have "(2::nat) ^ (k + 1 + 1) = 2 ^ (k + 1) * 2" by simp
        then have "?i * 2 ^ (k + 1) div 2 ^ (k + 1 + 1) = ?i div 2" by (simp only: div_mult2_eq) simp
        moreover have "unat ?ix = unat ix div 2" unfolding unat_drop_bit_eq by (simp add: drop_bit_eq_div)
        ultimately show ?thesis unfolding m' using Suc.prems(4) by simp
      qed
      have k1: "k + 1 < NR_FREE_LIST" using k by (simp add: NR_FREE_LIST_def)
      have d1: "d = NR_FREE_LIST - (k + 1)" using Suc.hyps(2) by simp
      obtain st' m' k' fl' where ih: "free_loop (- (2 ^ (k + 1))) ?m ?ix (k + 1) ?st2 = Inr (st', m', k')"
          "k' < NR_FREE_LIST" "same_pages ?st2 st'" "lists_ok (mm_heap st') fl'" "blocks_ok ?N fl'"
          "hand_ok ?N fl' k' (unat m')" "maps_ok ?N (mm_map st') (fl'(k' := unat m' # fl' k'))"
          "pages fl' \<union> {x. covers k' (unat m') x} = pages ?fl \<union> {x. covers (k + 1) (unat ?m) x}"
        using Suc.hyps(1)[OF d1 ok2 hand2 k1 ix2, unfolded pc] by blast
      have "same_pages st ?st2" by (simp add: same_pages_def)
      then have sp: "same_pages st st'" using ih(3) by (rule same_pages_trans)
      have "pages ?fl \<union> {x. covers (k + 1) (unat ?m) x} = pages fl \<union> {x. covers k ?b x}"
        unfolding pgt m' using cin merged_start(2)[OF al] by auto
      then show ?thesis using run ih sp by auto
    qed
  qed
qed

lemma unat_page: "r < 2 ^ 20 \<Longrightarrow> unat (drop_bit PAGE_SHIFT (word_of_nat (r * PAGE_SIZE) :: u32)) = r"
proof -
  assume r: "r < 2 ^ 20"
  then have "r * 4096 < 2 ^ 32" by simp
  then show ?thesis unfolding PAGE_SHIFT_def PAGE_SIZE_def unat_drop_bit_eq
    by (simp add: unsigned_of_nat take_bit_nat_eq_self drop_bit_eq_div del: of_nat_mult)
qed

lemma page_addr: "push_bit PAGE_SHIFT (word_of_nat r) = (word_of_nat (r * PAGE_SIZE) :: u32)"
  by (simp add: PAGE_SHIFT_def PAGE_SIZE_def push_bit_eq_mult)

lemma unat_drop_div: "unat (drop_bit j (w::u32)) = unat w div 2 ^ j"
proof -
  have "unat (drop_bit j w) = drop_bit j (unat w)" by (rule unat_drop_bit_eq)
  also have "\<dots> = unat w div 2 ^ j" by (rule drop_bit_eq_div)
  finally show ?thesis .
qed

lemma free_pages_spec:
  assumes ok: "buddy_ok st fl" and order: "order < NR_FREE_LIST" and r: "2 ^ order dvd r"
    "r + 2 ^ order \<le> length (pg_count st)" "\<forall>x. covers order r x \<longrightarrow> x \<notin> pages fl"
  shows "\<exists>st' fl'. free_pages (word_of_nat (r * PAGE_SIZE)) order st = Inr st' \<and> buddy_ok st' fl'
    \<and> pages fl' = pages fl \<union> {x. covers order r x} \<and> pg_count st' = pg_count st \<and> pg_flags st' = pg_flags st
    \<and> mm_mem st' = mm_mem st \<and> nfreepages st' = nfreepages st + 2 ^ order"
proof -
  let ?N = "length (pg_count st)"
  have N: "?N \<le> 2 ^ 20" using ok by (simp add: buddy_ok_def)
  have "r < r + 2 ^ order" by simp
  then have r20: "r < 2 ^ 20" using r(2) N by linarith
  let ?m = "drop_bit PAGE_SHIFT (word_of_nat (r * PAGE_SIZE) :: u32) AND - (2 ^ order)"
  have m: "unat ?m = r" unfolding unat_and_mask unat_page[OF r20] using r(1) by simp
  have msk: "NOT (push_bit order 1 - 1) = (- (2 ^ order) :: u32)" by (simp add: minus_eq_not_minus_1)
  have hand: "hand_ok ?N fl order (unat ?m)" using r m by (simp add: hand_ok_def)
  have ix: "unat (drop_bit (order + 1) ?m) = unat ?m div 2 ^ (order + 1)"
    by (rule unat_drop_div)
  obtain st1 m' k fl' where run: "free_loop (- (2 ^ order)) ?m (drop_bit (order + 1) ?m) order st = Inr (st1, m', k)"
      "k < NR_FREE_LIST" "same_pages st st1" "lists_ok (mm_heap st1) fl'" "blocks_ok ?N fl'"
      "hand_ok ?N fl' k (unat m')" "maps_ok ?N (mm_map st1) (fl'(k := unat m' # fl' k))"
      "pages fl' \<union> {x. covers k (unat m') x} = pages fl \<union> {x. covers order (unat ?m) x}"
    using free_loop_spec[OF ok hand order ix] by blast
  let ?b = "unat m'" and ?fl = "fl'(k := unat m' # fl' k)"
  let ?h = "list_insert (Area k) (Page ?b) (mm_heap st1)"
  let ?st2 = "area_count_add k 1 (st1\<lparr>mm_heap := ?h\<rparr>)"
  let ?st' = "?st2\<lparr>nfreepages := nfreepages ?st2 + 2 ^ order\<rparr>"
  have new: "\<forall>j < NR_FREE_LIST. ?b \<notin> set (fl' j)" by (rule hand_not_listed[OF run(6)])
  have h: "set_next (Area k) (Page ?b) (set_prev (lnext (set_prev (Page ?b) (Area k)
      (set_next (Page ?b) (lnext (mm_heap st1) (Area k)) (mm_heap st1))) (Area k)) (Page ?b)
      (set_prev (Page ?b) (Area k) (set_next (Page ?b) (lnext (mm_heap st1) (Area k)) (mm_heap st1)))) = ?h"
    using lists_next_fresh[OF run(4,2)] new run(2) by (intro insert_assignments(2)) auto
  have pc: "pg_count st1 = pg_count st" using run(3) by (simp add: same_pages_def)
  have "?b < ?b + 2 ^ k" "?b + 2 ^ k \<le> ?N" using run(6) by (auto simp: hand_ok_def)
  then have bN: "?b < length (pg_count st1)" unfolding pc by linarith
  have "free_pages (word_of_nat (r * PAGE_SIZE)) order st = Inr ?st'"
    unfolding free_pages_def Let_def msk using run(1,2) h bN by simp
  moreover have "buddy_ok ?st' ?fl"
    using ok run(3,7) lists_insert[OF run(4,2) new] blocks_put[OF run(5,6,2)] pc
    by (simp add: buddy_ok_def same_pages_def)
  moreover have "pages ?fl = pages fl \<union> {x. covers order r x}"
    using pages_put[OF run(2), of fl' ?b] run(8) m by simp
  ultimately show ?thesis using run(3) by (intro exI[of _ ?st'] exI[of _ ?fl]) (simp add: same_pages_def)
qed

lemma free_one_page_spec:
  assumes ok: "buddy_ok st fl" and r: "r < length (pg_count st)" "r \<notin> pages fl"
    and c: "pg_count st ! r = 1" and f: "pg_flags st ! r AND push_bit PageReserved 1 = 0"
  shows "\<exists>st' fl'. free_one_page (word_of_nat (r * PAGE_SIZE)) st = Inr st' \<and> buddy_ok st' fl'
    \<and> pages fl' = insert r (pages fl) \<and> pg_count st' = (pg_count st)[r := 0] \<and> pg_flags st' = pg_flags st
    \<and> mm_mem st' = mm_mem st \<and> nfreepages st' = nfreepages st + 1"
proof -
  let ?st1 = "st\<lparr>pg_count := (pg_count st)[r := 0]\<rparr>"
  have r20: "r < 2 ^ 20" using ok r by (simp add: buddy_ok_def)
  have ok1: "buddy_ok ?st1 fl" using ok by (simp add: buddy_ok_def)
  have cov0: "covers 0 r x \<longleftrightarrow> x = r" for x by (auto simp: covers_def)
  then have cov: "{x. covers 0 r x} = {r}" by simp
  have "free_one_page (word_of_nat (r * PAGE_SIZE)) st = free_pages (word_of_nat (r * PAGE_SIZE)) 0 ?st1"
    using r(1) c f by (simp only: free_one_page_def Let_def unat_page[OF r20]) simp
  moreover obtain st' fl' where "free_pages (word_of_nat (r * PAGE_SIZE)) 0 ?st1 = Inr st'" "buddy_ok st' fl'"
    "pages fl' = pages fl \<union> {x. covers 0 r x}" "pg_count st' = pg_count ?st1" "pg_flags st' = pg_flags st"
    "mm_mem st' = mm_mem st" "nfreepages st' = nfreepages st + 1"
    using free_pages_spec[OF ok1, of 0 r] r cov cov0 by (auto simp: NR_FREE_LIST_def)
  ultimately show ?thesis using cov by auto
qed

text \<open>Two processes sharing a page: only the last release frees it.\<close>

lemma free_one_page_shared:
  assumes "r < length (pg_count st)" and "r < 2 ^ 20" and "pg_count st ! r > 1"
    and "pg_flags st ! r AND push_bit PageReserved 1 = 0"
  shows "free_one_page (word_of_nat (r * PAGE_SIZE)) st = Inr (st\<lparr>pg_count := (pg_count st)[r := pg_count st ! r - 1]\<rparr>)"
  using assms(1,3,4) by (simp only: free_one_page_def Let_def unat_page[OF assms(2)]) simp

section \<open>Start-up\<close>

lemma bit_word_at: "n < 32 \<Longrightarrow> bit (word_at m a) n = bit (m (a + n div 8)) (n mod 8)"
proof -
  assume n: "n < 32"
  have b: "bit (w::u8) j = (j < 8 \<and> bit w j)" for w j using bit_imp_le_length[of w j] by auto
  consider "n < 8" | "8 \<le> n" "n < 16" | "16 \<le> n" "n < 24" | "24 \<le> n" using n by linarith
  then show ?thesis
  proof cases
    case 1
    then show ?thesis by (simp add: word_at_def bit_or_iff bit_push_bit_iff bit_ucast_iff)
  next
    case 2
    then have d: "n div 8 = 1" by (intro div_nat_eqI) auto
    moreover from d have "n mod 8 = n - 8" using div_mult_mod_eq[of n 8] by simp
    ultimately show ?thesis using 2 b[of "m a" n] n by (auto simp: word_at_def bit_or_iff bit_push_bit_iff bit_ucast_iff)
  next
    case 3
    then have d: "n div 8 = 2" by (intro div_nat_eqI) auto
    moreover from d have "n mod 8 = n - 16" using div_mult_mod_eq[of n 8] by simp
    ultimately show ?thesis using 3 b[of "m a" n] b[of "m (a + 1)" "n - 8"] n
      by (auto simp: word_at_def bit_or_iff bit_push_bit_iff bit_ucast_iff)
  next
    case 4
    then have d: "n div 8 = 3" using n by (intro div_nat_eqI) auto
    moreover from d have "n mod 8 = n - 24" using div_mult_mod_eq[of n 8] by simp
    ultimately show ?thesis using 4 b[of "m a" n] b[of "m (a + 1)" "n - 8"] b[of "m (a + 2)" "n - 16"] n
      by (auto simp: word_at_def bit_or_iff bit_push_bit_iff bit_ucast_iff)
  qed
qed

lemma memset0_in: "addr \<le> a \<Longrightarrow> a < addr + n \<Longrightarrow> memset0 addr n m a = 0"
  by (simp add: memset0_def)

text \<open>The bitmaps have room for the bits that were cleared, and those are clear.\<close>

lemma area_maps_spec:
  assumes "area_maps end_mem start orders m = (maps, m', fin)" and "4 dvd start"
  shows "length maps = length orders \<and> (\<forall>j < length orders. length (maps ! j) = (bitlength end_mem (orders ! j) + 3) div 4
    \<and> (\<forall>i. i div 8 < bitlength end_mem (orders ! j) \<longrightarrow> \<not> bit (maps ! j ! (i div 32)) (i mod 32)))"
  using assms
proof (induction orders arbitrary: start m maps m' fin)
  case Nil
  then show ?case by simp
next
  case (Cons k orders)
  let ?bl = "bitlength end_mem k" and ?next = "LONG_ALIGN (start + bitlength end_mem k)"
  let ?m1 = "memset0 start ?bl m"
  obtain maps1 m1 fin1 where rec: "area_maps end_mem ?next orders ?m1 = (maps1, m1, fin1)" by (metis prod_cases3)
  obtain s where s: "start = 4 * s" using Cons.prems(2) by (rule dvdE)
  have len: "(?next - start) div 4 = (?bl + 3) div 4" by (simp add: s LONG_ALIGN_def add.assoc)
  have maps: "maps = words_at ?m1 start ((?bl + 3) div 4) # maps1"
    using Cons.prems(1) rec len by (simp add: Let_def)
  have tail: "length maps1 = length orders \<and> (\<forall>j < length orders. length (maps1 ! j) = (bitlength end_mem (orders ! j) + 3) div 4
    \<and> (\<forall>i. i div 8 < bitlength end_mem (orders ! j) \<longrightarrow> \<not> bit (maps1 ! j ! (i div 32)) (i mod 32)))"
    by (rule Cons.IH[OF rec]) (simp add: LONG_ALIGN_def)
  have first: "\<not> bit (words_at ?m1 start ((?bl + 3) div 4) ! (i div 32)) (i mod 32)" if i: "i div 8 < ?bl" for i
  proof -
    have split: "i div 8 = 4 * (i div 32) + i mod 32 div 8"
    proof -
      have "i = (4 * (i div 32)) * 8 + i mod 32" by simp
      then have "i div 8 = ((4 * (i div 32)) * 8 + i mod 32) div 8" by (rule arg_cong)
      also have "\<dots> = 4 * (i div 32) + i mod 32 div 8" by (rule div_mult_self3) simp
      finally show ?thesis .
    qed
    have "i div 32 < (?bl + 3) div 4" using i split by linarith
    then have "words_at ?m1 start ((?bl + 3) div 4) ! (i div 32) = word_at ?m1 (start + 4 * (i div 32))"
      by (simp add: words_at_def)
    moreover have "bit (word_at ?m1 (start + 4 * (i div 32))) (i mod 32)
        = bit (?m1 (start + 4 * (i div 32) + i mod 32 div 8)) (i mod 32 mod 8)"
      by (rule bit_word_at) simp
    moreover have "?m1 (start + 4 * (i div 32) + i mod 32 div 8) = 0"
      using i split by (intro memset0_in) auto
    ultimately show ?thesis by simp
  qed
  show ?case
  proof (intro conjI allI impI)
    show "length maps = length (k # orders)" using maps tail by simp
  next
    fix j assume "j < length (k # orders)"
    then show "length (maps ! j) = (bitlength end_mem ((k # orders) ! j) + 3) div 4"
      using maps tail by (cases j) (auto simp: words_at_def)
  next
    fix j i assume "j < length (k # orders)" "i div 8 < bitlength end_mem ((k # orders) ! j)"
    then show "\<not> bit (maps ! j ! (i div 32)) (i mod 32)" using maps tail first by (cases j) auto
  qed
qed

text \<open>The memory sizes for which every pair of buddies has a cleared bit.\<close>

definition maps_fit :: "nat \<Rightarrow> bool" where
  "maps_fit end_mem \<longleftrightarrow> (\<forall>k < NR_FREE_LIST. \<forall>i. i * 2 ^ (k + 1) < end_mem div PAGE_SIZE \<longrightarrow> i div 8 < bitlength end_mem k)"

lemma maps_fit_4M:
  assumes "1024 dvd end_mem div PAGE_SIZE"
  shows "maps_fit end_mem"
  unfolding maps_fit_def
proof (intro allI impI)
  fix k i assume k: "k < NR_FREE_LIST" and i: "i * 2 ^ (k + 1) < end_mem div PAGE_SIZE"
  have "(2::nat) ^ (k + 1) dvd 2 ^ 10" using k by (intro le_imp_power_dvd) (simp add: NR_FREE_LIST_def)
  then have "2 ^ (k + 1) dvd end_mem div PAGE_SIZE" using assms by (simp only: power_numeral Num.pow.simps) (rule dvd_trans, simp_all)
  then obtain q where q: "end_mem div PAGE_SIZE = 2 ^ (k + 1) * q" by (rule dvdE)
  have "PAGE_SHIFT + k + 1 = PAGE_SHIFT + (k + 1)" by simp
  then have "end_mem div 2 ^ (PAGE_SHIFT + k + 1) = end_mem div 2 ^ PAGE_SHIFT div 2 ^ (k + 1)"
    by (simp only: power_add[of 2 PAGE_SHIFT] div_mult2_eq)
  then have "bitlength end_mem k = (q + 7) div 8" using q by (simp add: bitlength_def PAGE_SIZE_def PAGE_SHIFT_def)
  moreover have "i < q" using i unfolding q by (simp add: mult.commute)
  ultimately show "i div 8 < bitlength end_mem k" by linarith
qed

lemma free_area_init_ok:
  assumes fit: "maps_fit end_mem" and N: "end_mem div PAGE_SIZE \<le> 2 ^ 20"
  shows "buddy_ok (fst (free_area_init start_mem end_mem m)) (\<lambda>_. [])"
proof -
  let ?N = "end_mem div PAGE_SIZE" and ?s = "LONG_ALIGN (start_mem + 16 * (end_mem div PAGE_SIZE))"
  obtain maps m' fin where a: "area_maps end_mem ?s [0..<NR_FREE_LIST] (memset0 start_mem (16 * ?N) m) = (maps, m', fin)"
    by (metis prod_cases3)
  have al: "4 dvd ?s" by (simp add: LONG_ALIGN_def)
  note sp = area_maps_spec[OF a al]
  have st: "fst (free_area_init start_mem end_mem m) =
      \<lparr>mm_heap = \<lparr>lprev = id, lnext = id\<rparr>, mm_map = maps, area_count = replicate NR_FREE_LIST 0,
       pg_flags = replicate ?N (push_bit PageReserved 1 OR push_bit PageDMA 1),
       pg_count = replicate ?N 0, nfreepages = 0, mm_mem = m'\<rparr>"
    using a by (simp add: free_area_init_def Let_def)
  have "maps_ok ?N maps (\<lambda>_. [])" unfolding maps_ok_def
  proof (intro conjI allI impI)
    show "length maps = NR_FREE_LIST" using sp by simp
  next
    fix k i assume ki: "k < NR_FREE_LIST" "i * 2 ^ (k + 1) < ?N"
    then have "i div 8 < bitlength end_mem k" using fit by (simp add: maps_fit_def)
    then have "i div 8 div 4 < (bitlength end_mem k + 3) div 4" by linarith
    then show "i div 32 < length (maps ! k)" using sp ki by (simp add: div_mult2_eq[symmetric])
  next
    fix k i assume ki: "k < NR_FREE_LIST - 1" "i * 2 ^ (k + 1) < ?N"
    then have "i div 8 < bitlength end_mem k" using fit by (simp add: maps_fit_def)
    then show "mbit maps k i = (i * 2 ^ (k + 1) \<in> set [] \<or> i * 2 ^ (k + 1) + 2 ^ k \<in> set [])"
      using sp ki by (simp add: mbit_def)
  qed simp
  then show ?thesis using N
    by (simp add: st buddy_ok_def lists_ok_def one_list_def blocks_ok_def is_klist_def)
qed

lemma release_page_spec:
  assumes ok: "buddy_ok st fl" and r: "r < length (pg_count st)" "r \<notin> pages fl"
  shows "\<exists>st' fl'. release_page (r * PAGE_SIZE) st = Inr st' \<and> buddy_ok st' fl' \<and> pages fl' = insert r (pages fl)
    \<and> length (pg_count st') = length (pg_count st) \<and> nfreepages st' = nfreepages st + 2"
proof -
  let ?f1 = "if r * PAGE_SIZE > DMA_HIGH_MEM then pg_flags st ! r AND NOT (push_bit PageDMA 1) else pg_flags st ! r"
  let ?f = "?f1 AND NOT (push_bit PageReserved 1)"
  let ?st = "st\<lparr>pg_flags := (pg_flags st)[r := ?f], pg_count := (pg_count st)[r := 1]\<rparr>"
  have d: "r * PAGE_SIZE div PAGE_SIZE = r" by (simp add: PAGE_SIZE_def)
  have ok1: "buddy_ok ?st fl" using ok by (simp add: buddy_ok_def)
  have z: "(w AND NOT x) AND x = 0" for w x :: u32 by (rule bit_word_eqI) (auto simp: bit_simps)
  have fl: "pg_flags ?st ! r AND push_bit PageReserved 1 = 0"
    using r(1) ok by (simp add: buddy_ok_def z del: push_bit_of_1)
  obtain st' fl' where "free_one_page (word_of_nat (r * PAGE_SIZE)) ?st = Inr st'" "buddy_ok st' fl'"
    "pages fl' = insert r (pages fl)" "pg_count st' = (pg_count ?st)[r := 0]" "nfreepages st' = nfreepages st + 1"
    using free_one_page_spec[OF ok1 _ r(2) _ fl] r(1) by auto
  then show ?thesis using r(1)
    by (intro exI[of _ "st'\<lparr>nfreepages := nfreepages st' + 1\<rparr>"] exI[of _ fl'])
      (simp add: release_page_def d Let_def buddy_ok_def del: of_nat_mult)
qed

lemma release_loop_spec:
  assumes "buddy_ok st fl" and "b \<le> length (pg_count st)" and "{a..<b} \<inter> pages fl = {}"
  shows "\<exists>st' fl'. release_loop (a * PAGE_SIZE) (b * PAGE_SIZE) st = Inr st' \<and> buddy_ok st' fl'
    \<and> pages fl' = pages fl \<union> {a..<b} \<and> length (pg_count st') = length (pg_count st)
    \<and> nfreepages st' = nfreepages st + 2 * int (b - a)"
  using assms
proof (induction "b - a" arbitrary: a st fl)
  case 0
  then have "release_loop (a * PAGE_SIZE) (b * PAGE_SIZE) st = Inr st"
    by (simp add: release_loop.simps[of "a * PAGE_SIZE"])
  then show ?case using 0 by auto
next
  case (Suc d)
  then have ab: "a < b" by simp
  obtain st1 fl1 where s: "release_page (a * PAGE_SIZE) st = Inr st1" "buddy_ok st1 fl1"
      "pages fl1 = insert a (pages fl)" "length (pg_count st1) = length (pg_count st)" "nfreepages st1 = nfreepages st + 2"
    using release_page_spec[OF Suc.prems(1), of a] Suc.prems(2,3) ab by fastforce
  have run: "release_loop (a * PAGE_SIZE) (b * PAGE_SIZE) st = release_loop (Suc a * PAGE_SIZE) (b * PAGE_SIZE) st1"
  proof -
    have "a * PAGE_SIZE < b * PAGE_SIZE" using ab by (simp add: PAGE_SIZE_def)
    then show ?thesis using s(1) by (simp add: release_loop.simps[of "a * PAGE_SIZE" _ st] add.commute)
  qed
  have "{Suc a..<b} \<subseteq> {a..<b} - {a}" by auto
  then have dj: "{Suc a..<b} \<inter> pages fl1 = {}" using Suc.prems(3) unfolding s(3) by blast
  have "d = b - Suc a" "b \<le> length (pg_count st1)" using Suc.hyps(2) Suc.prems(2) s(4) by auto
  from Suc.hyps(1)[OF this(1) s(2) this(2) dj] obtain st' fl' where "release_loop (Suc a * PAGE_SIZE) (b * PAGE_SIZE) st1 = Inr st'" "buddy_ok st' fl'"
      "pages fl' = pages fl1 \<union> {Suc a..<b}" "length (pg_count st') = length (pg_count st1)"
      "nfreepages st' = nfreepages st1 + 2 * int (b - Suc a)"
    by blast
  moreover have "insert a {Suc a..<b} = {a..<b}" using ab by auto
  ultimately show ?case using run s ab by (intro exI[of _ st'] exI[of _ fl']) auto
qed

section \<open>Pages as numbers of a pool\<close>

definition free_set :: "mem_state \<Rightarrow> nat set" where
  "free_set st = {x. \<exists>k bs b. k < NR_FREE_LIST \<and> is_klist (mm_heap st) (Area k) (map Page bs) \<and> b \<in> set bs \<and> covers k b x}"

lemma free_set_pages: "lists_ok (mm_heap st) fl \<Longrightarrow> free_set st = pages fl"
proof -
  assume ok: "lists_ok (mm_heap st) fl"
  have u: "bs = fl k" if "k < NR_FREE_LIST" "is_klist (mm_heap st) (Area k) (map Page bs)" for k bs
  proof -
    have "is_klist (mm_heap st) (Area k) (map Page (fl k))" using ok that(1) by (simp add: lists_ok_def)
    with that(2) have "map Page bs = map Page (fl k)" by (rule is_klist_unique)
    then show ?thesis by (simp add: inj_map_eq_map inj_def)
  qed
  have kl: "is_klist (mm_heap st) (Area k) (map Page (fl k))" if "k < NR_FREE_LIST" for k
    using ok that by (simp add: lists_ok_def)
  show ?thesis unfolding free_set_def pages_def
  proof (intro Collect_cong iffI; elim exE conjE)
    fix x k bs b
    assume "k < NR_FREE_LIST" "is_klist (mm_heap st) (Area k) (map Page bs)" "b \<in> set bs" "covers k b x"
    then show "\<exists>k b. k < NR_FREE_LIST \<and> b \<in> set (fl k) \<and> covers k b x" using u by blast
  next
    fix x k b
    assume "k < NR_FREE_LIST" "b \<in> set (fl k)" "covers k b x"
    then show "\<exists>k bs b. k < NR_FREE_LIST \<and> is_klist (mm_heap st) (Area k) (map Page bs) \<and> b \<in> set bs \<and> covers k b x"
      using kl by blast
  qed
qed

text \<open>The allocator between two calls; page 0 is never given to it, its address means failure.\<close>

definition alloc_ok :: "mem_state \<Rightarrow> bool" where
  "alloc_ok st \<longleftrightarrow> (\<exists>fl. buddy_ok st fl) \<and> 0 \<notin> free_set st"

lemma alloc_okE:
  assumes "alloc_ok st"
  obtains fl where "buddy_ok st fl" "free_set st = pages fl" "0 \<notin> pages fl"
  using assms free_set_pages by (auto simp: alloc_ok_def buddy_ok_def)

lemma buddy_free_set: "buddy_ok st fl \<Longrightarrow> free_set st = pages fl"
  using free_set_pages by (simp add: buddy_ok_def)

definition aligned_run :: "nat \<Rightarrow> nat \<Rightarrow> nat set" where
  "aligned_run order r = {r..<r + 2 ^ order}"

lemma covers_aligned_run: "2 ^ k dvd r \<Longrightarrow> {x. covers k r x} = aligned_run k r"
  by (auto simp: covers_range aligned_run_def)

definition page_alloc1 :: "mem_state \<Rightarrow> mem_state \<times> nat option" where
  "page_alloc1 st = (case get_one_page st of
     Inr (st', Done addr woke) \<Rightarrow> (st', if addr = 0 then None else Some (unat (drop_bit PAGE_SHIFT addr)))
   | _ \<Rightarrow> (st, None))"

lemma get_free_pages_cases:
  assumes ok: "alloc_ok st" and order: "order < NR_FREE_LIST"
  obtains "\<nexists>r. 2 ^ order dvd r \<and> aligned_run order r \<subseteq> free_set st"
      "get_free_pages attr order st = Inr (st, if attr AND PageWait \<noteq> 0 then Sleeps else Done 0 False)"
  | st' r where "2 ^ order dvd r" "aligned_run order r \<subseteq> free_set st" "0 < r" "r + 2 ^ order \<le> length (pg_count st)"
      "get_free_pages attr order st = Inr (st', Done (word_of_nat (r * PAGE_SIZE)) False)"
      "alloc_ok st'" "free_set st' = free_set st - aligned_run order r"
      "pg_count st' = (pg_count st)[r := 1]" "pg_flags st' = pg_flags st"
      "nfreepages st' = nfreepages st - 2 ^ order"
      "mm_mem st' = memset0 (r * PAGE_SIZE) (PAGE_SIZE * 2 ^ order) (mm_mem st)"
proof -
  obtain fl where fl: "buddy_ok st fl" "free_set st = pages fl" "0 \<notin> pages fl" using ok by (rule alloc_okE)
  have lo: "lists_ok (mm_heap st) fl" and bo: "blocks_ok (length (pg_count st)) fl" using fl(1) by (simp_all add: buddy_ok_def)
  show thesis
  proof (cases "find_area (mm_heap st) order < NR_FREE_LIST")
    case False
    then have empty: "\<forall>k. order \<le> k \<and> k < NR_FREE_LIST \<longrightarrow> fl k = []"
      using find_area_spec[OF lo order] by auto
    have "\<nexists>r. 2 ^ order dvd r \<and> aligned_run order r \<subseteq> free_set st"
    proof
      assume "\<exists>r. 2 ^ order dvd r \<and> aligned_run order r \<subseteq> free_set st"
      then obtain r where r: "2 ^ order dvd r" "aligned_run order r \<subseteq> pages fl" using fl(2) by auto
      have lt: "x < length (pg_count st)" if x: "x \<in> pages fl" for x
      proof -
        obtain k b where kb: "k < NR_FREE_LIST" "b \<in> set (fl k)" "covers k b x" using x by (auto simp: pages_def)
        then have "2 ^ k dvd b" "b + 2 ^ k \<le> length (pg_count st)" using bo by (auto simp: blocks_ok_def)
        then show ?thesis using kb(3) covers_range[of k b x] by auto
      qed
      have pos: "(0::nat) < 2 ^ order" by simp
      then have "r + (2 ^ order - 1) \<in> aligned_run order r"
        unfolding aligned_run_def atLeastLessThan_iff by linarith
      then have "r + (2 ^ order - 1) < length (pg_count st)" using lt r(2) by blast
      then have "r + 2 ^ order \<le> length (pg_count st)" using pos by linarith
      moreover have "\<forall>x. covers order r x \<longrightarrow> x \<in> pages fl" using r covers_aligned_run[OF r(1)] by auto
      ultimately obtain j c where "order \<le> j" "j < NR_FREE_LIST" "c \<in> set (fl j)"
        using aligned_run_in_block[OF fl(1) order r(1)] by blast
      then show False using empty by auto
    qed
    then show thesis using that(1) get_free_pages_none[OF lo order empty] by blast
  next
    case True
    obtain st' r fl' where s: "get_free_pages attr order st = Inr (st', Done (push_bit PAGE_SHIFT (word_of_nat r)) False)"
      "buddy_ok st' fl'" "2 ^ order dvd r" "r + 2 ^ order \<le> length (pg_count st)" "{x. covers order r x} \<subseteq> pages fl"
      "pages fl' = pages fl - {x. covers order r x}" "pg_count st' = (pg_count st)[r := 1]" "pg_flags st' = pg_flags st"
      "nfreepages st' = nfreepages st - 2 ^ order"
      "mm_mem st' = memset0 (r * PAGE_SIZE) (PAGE_SIZE * 2 ^ order) (mm_mem st)"
      using get_free_pages_some[OF fl(1) order True] by blast
    have run: "aligned_run order r \<subseteq> free_set st" using s(5) fl(2) covers_aligned_run[OF s(3)] by simp
    have "r \<in> free_set st" using run by (auto simp: aligned_run_def)
    then have "0 < r" using fl by (metis gr0I)
    moreover have "alloc_ok st'" using s(2,6) fl(3) buddy_free_set[OF s(2)] by (auto simp: alloc_ok_def)
    moreover have "free_set st' = free_set st - aligned_run order r"
      using buddy_free_set[OF s(2)] s(6) fl(2) covers_aligned_run[OF s(3)] by simp
    ultimately show thesis using that(2)[OF s(3) run _ s(4) _ _ _ s(7-10)] s(1) by (simp add: page_addr)
  qed
qed

lemma page_word_zero: "r < 2 ^ 20 \<Longrightarrow> (word_of_nat (r * PAGE_SIZE) :: u32) = 0 \<longleftrightarrow> r = 0"
  using unat_page[of r] by (metis drop_bit_of_0 mult_0 of_nat_0 unsigned_0)

lemma zero_order: "0 < NR_FREE_LIST"
  by (simp add: NR_FREE_LIST_def)

interpretation frames: number_pool alloc_ok "\<lambda>st. - free_set st" page_alloc1
proof unfold_locales
  fix st st' n
  assume ok: "alloc_ok st" and a: "page_alloc1 st = (st', Some n)"
  show "alloc_ok st' \<and> n \<notin> - free_set st \<and> - free_set st' = insert n (- free_set st)"
  proof (cases rule: get_free_pages_cases[OF ok zero_order, of 0])
    case 1
    then show ?thesis using a by (simp add: page_alloc1_def get_one_page_def)
  next
    case (2 st'' r)
    have r20: "r < 2 ^ 20" using 2(4) ok by (auto simp: alloc_ok_def buddy_ok_def)
    have n: "st' = st''" "n = r" using a 2(5) unat_page[OF r20] page_word_zero[OF r20] 2(3)
      by (auto simp: page_alloc1_def get_one_page_def simp del: of_nat_mult split: if_splits)
    show ?thesis using 2 n by (auto simp: aligned_run_def)
  qed
next
  fix st st'
  assume ok: "alloc_ok st" and a: "page_alloc1 st = (st', None)"
  show "alloc_ok st' \<and> - free_set st' = - free_set st"
  proof (cases rule: get_free_pages_cases[OF ok zero_order, of 0])
    case 1
    then show ?thesis using a ok by (simp add: page_alloc1_def get_one_page_def)
  next
    case (2 st'' r)
    have r20: "r < 2 ^ 20" using 2(4) ok by (auto simp: alloc_ok_def buddy_ok_def)
    then show ?thesis using a 2(3,5) page_word_zero[OF r20]
      by (simp add: page_alloc1_def get_one_page_def del: of_nat_mult)
  qed
qed

lemma reserved_loop_end:
  "k \<le> n \<Longrightarrow> fst (reserved_loop e kend (n * PAGE_SIZE) (k * PAGE_SIZE) s) = n * PAGE_SIZE
     \<and> nreservedpages (snd (reserved_loop e kend (n * PAGE_SIZE) (k * PAGE_SIZE) s)) = nreservedpages s + int (n - k)"
proof (induction "n - k" arbitrary: k s)
  case 0
  then show ?case by (simp add: reserved_loop.simps[of _ _ _ "k * PAGE_SIZE"])
next
  case (Suc d)
  then have k: "k * PAGE_SIZE < n * PAGE_SIZE" "Suc k \<le> n" "k * PAGE_SIZE + PAGE_SIZE = Suc k * PAGE_SIZE"
    by (auto simp: PAGE_SIZE_def)
  have ih: "fst (reserved_loop e kend (n * PAGE_SIZE) (Suc k * PAGE_SIZE) s') = n * PAGE_SIZE
     \<and> nreservedpages (snd (reserved_loop e kend (n * PAGE_SIZE) (Suc k * PAGE_SIZE) s')) = nreservedpages s' + int (n - Suc k)"
    for s' using Suc.hyps k(2) by (intro Suc.hyps(1)) auto
  show ?case
    unfolding reserved_loop.simps[of _ _ _ "k * PAGE_SIZE"] Let_def if_P[OF k(1)] k(3)
    using ih k(2) by (auto simp del: mult_Suc)
qed

lemma mem_init_spec:
  assumes "maps_fit end_mem" and "end_mem div PAGE_SIZE \<le> 2 ^ 20"
    and "LOW_MEM \<le> page_align start" and "page_align start \<le> end_mem"
  defines "hi \<equiv> {page_align start div PAGE_SIZE..<end_mem div PAGE_SIZE}"
  shows "\<exists>st stats fl. mem_init etext kend start end_mem (fst (free_area_init s end_mem m)) = Inr (st, stats)
    \<and> nreservedpages stats = int (page_align start div PAGE_SIZE) \<and> buddy_ok st fl
    \<and> pages fl = {4..<160} \<union> hi \<and> nfreepages st = 2 * int (card ({4..<160} \<union> hi))
    \<and> length (pg_count st) = end_mem div PAGE_SIZE"
proof -
  let ?N = "end_mem div PAGE_SIZE" and ?a = "page_align start div PAGE_SIZE"
  let ?st0 = "(fst (free_area_init s end_mem m))\<lparr>nfreepages := 0\<rparr>"
  have pa: "page_align start = ?a * PAGE_SIZE" by (simp add: page_align_def PAGE_SIZE_def)
  have a: "160 \<le> ?a" "?a \<le> ?N"
    using assms(3,4) div_le_mono[of LOW_MEM "page_align start" PAGE_SIZE] div_le_mono[of "page_align start" end_mem PAGE_SIZE]
    by (auto simp: LOW_MEM_def PAGE_SIZE_def)
  have ok0: "buddy_ok ?st0 (\<lambda>_. [])"
    using free_area_init_ok[OF assms(1,2), of s m] by (simp add: buddy_ok_def)
  have len: "length (pg_count ?st0) = ?N"
    by (simp add: free_area_init_def Let_def split: prod.split)
  have pg0: "pages (\<lambda>_. []) = {}" by (simp add: pages_def)
  obtain st1 fl1 where s1: "release_loop (4 * PAGE_SIZE) (160 * PAGE_SIZE) ?st0 = Inr st1" "buddy_ok st1 fl1"
      "pages fl1 = {} \<union> {4..<160}" "length (pg_count st1) = ?N" "nfreepages st1 = nfreepages ?st0 + 2 * int (160 - 4)"
    using release_loop_spec[OF ok0, of 160 4, unfolded pg0 len] a by auto
  have dj: "hi \<inter> {4..<160} = {}" using a by (auto simp: hi_def)
  obtain st2 fl2 where s2: "release_loop (?a * PAGE_SIZE) (?N * PAGE_SIZE) st1 = Inr st2" "buddy_ok st2 fl2"
      "pages fl2 = pages fl1 \<union> {?a..<?N}" "length (pg_count st2) = ?N" "nfreepages st2 = nfreepages st1 + 2 * int (?N - ?a)"
    using release_loop_spec[OF s1(2), of ?N ?a] s1(3,4) dj by (auto simp: hi_def)
  let ?zero = "\<lparr>ncodepages = 0, ndatapages = 0, nreservedpages = 0, nmemmap_and_bitmap = 0\<rparr>"
  let ?stats = "snd (reserved_loop etext kend (?a * PAGE_SIZE) (0 * PAGE_SIZE) ?zero)"
  have rl: "fst (reserved_loop etext kend (?a * PAGE_SIZE) (0 * PAGE_SIZE) ?zero) = ?a * PAGE_SIZE"
      "nreservedpages ?stats = int ?a"
    using reserved_loop_end[of 0 ?a etext kend ?zero] by auto
  have low: "release_loop RESERVED_MEM LOW_MEM ?st0 = Inr st1"
    using s1(1) by (simp add: RESERVED_MEM_def LOW_MEM_def PAGE_SIZE_def)
  have "mem_init etext kend start end_mem (fst (free_area_init s end_mem m)) = Inr (st2, ?stats)"
    using s2(1) rl(1) by (simp add: mem_init_def low case_prod_beta Let_def flip: pa)
  moreover have "card ({4..<160} \<union> hi) = (160 - 4) + (?N - ?a)"
    using dj by (subst card_Un_disjoint) (auto simp: hi_def)
  ultimately show ?thesis using s1(3,5) s2 rl(2) by (auto simp: hi_def)
qed

section \<open>Properties\<close>

text \<open>A machine with four megabytes, whose kernel and tables end at 1.5 megabytes.\<close>

definition boot_4M :: mem_state where
  "boot_4M = (case mem_init 0x130000 0x150000 0x180000 0x400000 (fst (free_area_init 0x150000 0x400000 (\<lambda>_. 0))) of
     Inr (st, stats) \<Rightarrow> st | Inl _ \<Rightarrow> fst (free_area_init 0x150000 0x400000 (\<lambda>_. 0)))"

lemma boot_4M: "alloc_ok boot_4M" "free_set boot_4M = {4..<160} \<union> {384..<1024}"
  "length (pg_count boot_4M) = 1024"
proof -
  have fit: "maps_fit 0x400000" by (rule maps_fit_4M) (simp add: PAGE_SIZE_def)
  have e: "page_align 0x180000 = 0x180000" "(0x180000::nat) div PAGE_SIZE = 384" "(0x400000::nat) div PAGE_SIZE = 1024"
    by (simp_all add: page_align_def PAGE_SIZE_def)
  obtain st stats fl where s: "mem_init 0x130000 0x150000 0x180000 0x400000 (fst (free_area_init 0x150000 0x400000 (\<lambda>_. 0)))
        = Inr (st, stats)"
      "buddy_ok st fl" "pages fl = {4..<160} \<union> {384..<1024}" "length (pg_count st) = 1024"
    using mem_init_spec[OF fit, of "0x180000" "0x130000" "0x150000" "0x150000" "\<lambda>_. 0", unfolded e]
    by (auto simp: LOW_MEM_def)
  have "boot_4M = st" using s(1) by (simp add: boot_4M_def)
  then show "alloc_ok boot_4M" "free_set boot_4M = {4..<160} \<union> {384..<1024}" "length (pg_count boot_4M) = 1024"
    using buddy_free_set[OF s(2)] s(2-) by (auto simp: alloc_ok_def)
qed

text \<open>The same machine with one owner of page 200.\<close>

definition boot_4M_owned :: mem_state where
  "boot_4M_owned = boot_4M\<lparr>pg_count := (pg_count boot_4M)[200 := 1], pg_flags := (pg_flags boot_4M)[200 := 0]\<rparr>"

lemma boot_4M_owned: "alloc_ok boot_4M_owned" "free_set boot_4M_owned = {4..<160} \<union> {384..<1024}"
  "length (pg_count boot_4M_owned) = 1024" "pg_count boot_4M_owned ! 200 = 1" "pg_flags boot_4M_owned ! 200 = 0"
proof -
  have f: "free_set boot_4M_owned = free_set boot_4M" by (simp add: free_set_def boot_4M_owned_def)
  obtain fl where "buddy_ok boot_4M fl" using boot_4M(1) by (auto simp: alloc_ok_def)
  then have "buddy_ok boot_4M_owned fl" and l: "length (pg_flags boot_4M) = 1024"
    using boot_4M(3) by (simp_all add: buddy_ok_def boot_4M_owned_def)
  then show "alloc_ok boot_4M_owned" using f boot_4M(1) by (auto simp: alloc_ok_def)
  show "free_set boot_4M_owned = {4..<160} \<union> {384..<1024}" using f boot_4M(2) by simp
  show "length (pg_count boot_4M_owned) = 1024" "pg_count boot_4M_owned ! 200 = 1" "pg_flags boot_4M_owned ! 200 = 0"
    using boot_4M(3) l by (simp_all add: boot_4M_owned_def)
qed

text \<open>C2: \<open>get_free_pages\<close> is sound and complete. If an aligned run of \<open>2 ^ order\<close> free page
  frames exists, the call returns the address of one, cleared, removes exactly these frames
  from the free set, sets its reference count and keeps the invariant of the buddy system.
  Otherwise it changes nothing and sleeps or returns 0.\<close>

theorem get_free_pages_correct:
  assumes "alloc_ok st" and "order < NR_FREE_LIST"
  shows "if \<exists>r. 2 ^ order dvd r \<and> aligned_run order r \<subseteq> free_set st
    then \<exists>r st'. get_free_pages attr order st = Inr (st', Done (word_of_nat (r * PAGE_SIZE)) False)
      \<and> 0 < r \<and> 2 ^ order dvd r \<and> aligned_run order r \<subseteq> free_set st
      \<and> alloc_ok st' \<and> free_set st' = free_set st - aligned_run order r
      \<and> pg_count st' ! r = 1 \<and> nfreepages st' = nfreepages st - 2 ^ order
      \<and> (\<forall>a. r * PAGE_SIZE \<le> a \<and> a < (r + 2 ^ order) * PAGE_SIZE \<longrightarrow> mm_mem st' a = 0)
    else get_free_pages attr order st = Inr (st, if attr AND PageWait \<noteq> 0 then Sleeps else Done 0 False)"
proof (cases rule: get_free_pages_cases[OF assms, of attr])
  case 1
  then show ?thesis by simp
next
  case (2 st' r)
  have ex: "\<exists>r. 2 ^ order dvd r \<and> aligned_run order r \<subseteq> free_set st" using 2(1,2) by blast
  have "r < r + 2 ^ order" by simp
  then have "r < length (pg_count st)" using 2(4) by linarith
  then have c: "pg_count st' ! r = 1" using 2(8) by simp
  have z: "\<forall>a. r * PAGE_SIZE \<le> a \<and> a < (r + 2 ^ order) * PAGE_SIZE \<longrightarrow> mm_mem st' a = 0"
    unfolding 2(11) by (auto intro!: memset0_in simp: algebra_simps)
  show ?thesis unfolding if_P[OF ex]
    by (intro exI[of _ r] exI[of _ st'] conjI 2 c z)
qed

theorem get_free_pages_correct_witness:
  "\<exists>r st'. get_free_pages 0 5 boot_4M = Inr (st', Done (word_of_nat (r * PAGE_SIZE)) False) \<and> alloc_ok st'"
proof -
  have "2 ^ 5 dvd (384::nat) \<and> aligned_run 5 384 \<subseteq> free_set boot_4M"
    by (auto simp: boot_4M aligned_run_def)
  then have "\<exists>r. 2 ^ 5 dvd r \<and> aligned_run 5 r \<subseteq> free_set boot_4M" by blast
  then show ?thesis using get_free_pages_correct[OF boot_4M(1), of 5 0] by (auto simp: NR_FREE_LIST_def)
qed

text \<open>C3: \<open>__free_pages\<close> of an aligned run of frames that are not free adds exactly these frames
  to the free set, whatever merging it takes, counts them and keeps the invariant.\<close>

theorem free_pages_correct:
  assumes "alloc_ok st" and "order < NR_FREE_LIST" and "0 < r" and "2 ^ order dvd r"
    and "r + 2 ^ order \<le> length (pg_count st)" and "aligned_run order r \<inter> free_set st = {}"
  shows "\<exists>st'. free_pages (word_of_nat (r * PAGE_SIZE)) order st = Inr st' \<and> alloc_ok st'
    \<and> free_set st' = free_set st \<union> aligned_run order r \<and> nfreepages st' = nfreepages st + 2 ^ order"
proof -
  obtain fl where fl: "buddy_ok st fl" "free_set st = pages fl" "0 \<notin> pages fl" using assms(1) by (rule alloc_okE)
  have out: "\<forall>x. covers order r x \<longrightarrow> x \<notin> pages fl"
    using assms(6) covers_aligned_run[OF assms(4)] fl(2) by auto
  obtain st' fl' where s: "free_pages (word_of_nat (r * PAGE_SIZE)) order st = Inr st'" "buddy_ok st' fl'"
    "pages fl' = pages fl \<union> {x. covers order r x}" "nfreepages st' = nfreepages st + 2 ^ order"
    using free_pages_spec[OF fl(1) assms(2,4,5) out] by blast
  have fs: "free_set st' = free_set st \<union> aligned_run order r"
    using buddy_free_set[OF s(2)] s(3) fl(2) covers_aligned_run[OF assms(4)] by simp
  moreover have "0 \<notin> free_set st'" using fs fl(2,3) assms(3) by (simp add: aligned_run_def)
  then have "alloc_ok st'" using s(2) by (auto simp: alloc_ok_def)
  ultimately show ?thesis using s by blast
qed

theorem free_pages_correct_witness:
  "\<exists>st'. free_pages (word_of_nat (256 * PAGE_SIZE)) 4 boot_4M = Inr st' \<and> alloc_ok st'
     \<and> free_set st' = {4..<160} \<union> {384..<1024} \<union> aligned_run 4 256"
proof -
  have "aligned_run 4 256 \<inter> free_set boot_4M = {}" by (auto simp: boot_4M aligned_run_def)
  then show ?thesis using free_pages_correct[OF boot_4M(1), of 4 256] by (auto simp: NR_FREE_LIST_def boot_4M)
qed

text \<open>the page frames a sequence of \<open>get_one_page\<close> calls returns are pairwise different and
  were free before, and the allocator's invariant still holds.\<close>

theorem get_one_page_distinct:
  assumes "alloc_ok st" and "frames.take_numbers k st = (st', ns)"
  shows "distinct ns \<and> set ns \<subseteq> free_set st \<and> free_set st' = free_set st - set ns \<and> alloc_ok st'"
  using frames.take_numbers_fresh[OF assms] by blast

theorem get_one_page_distinct_witness:
  "distinct (snd (frames.take_numbers 7 boot_4M))"
  using get_one_page_distinct[OF boot_4M(1), of 7] by (metis prod.collapse)





text \<open>C29: the bitmaps are too short for some memory sizes. With 4097 page frames the bitmap of
  order 0 has 2048 bits, but the last frame needs bit 2048: giving it to the allocator writes
  outside the bitmap.\<close>

theorem bitmap_overrun_4097:
  "release_page (4096 * PAGE_SIZE) (fst (free_area_init s (4097 * PAGE_SIZE) m)) = Inl Overrun"
proof -
  let ?st = "fst (free_area_init s (4097 * PAGE_SIZE) m)"
  have dv: "4097 * PAGE_SIZE div PAGE_SIZE = 4097" "4096 * PAGE_SIZE div PAGE_SIZE = 4096" by (simp_all add: PAGE_SIZE_def)
  obtain maps m' fin where a: "area_maps (4097 * PAGE_SIZE) (LONG_ALIGN (s + 16 * 4097)) [0..<NR_FREE_LIST]
      (memset0 s (16 * 4097) m) = (maps, m', fin)" by (metis prod_cases3)
  have al: "4 dvd LONG_ALIGN (s + 16 * 4097)" by (simp add: LONG_ALIGN_def)
  have st: "pg_count ?st = replicate 4097 0" "mm_map ?st = maps" "length (pg_flags ?st) = 4097"
    using a by (simp_all add: free_area_init_def Let_def dv)
  have "length (maps ! 0) = 64"
    using area_maps_spec[OF a al] zero_order by (simp add: bitlength_def PAGE_SIZE_def PAGE_SHIFT_def)
  then have tog: "map_toggle 0 2048 st' = Inl Overrun" if "mm_map st' = maps" for st'
    using that by (simp add: map_toggle_def)
  let ?w = "word_of_nat (4096 * PAGE_SIZE) :: u32"
  have pn: "unat (drop_bit PAGE_SHIFT ?w) = 4096" by (rule unat_page) simp
  have "unat (drop_bit PAGE_SHIFT ?w AND - (2 ^ 0)) = 4096" unfolding unat_and_mask pn by simp
  then have ix: "unat (drop_bit (0 + 1) (drop_bit PAGE_SHIFT ?w AND - (2 ^ 0))) = 2048"
    unfolding unat_drop_div by simp
  have msk: "NOT (push_bit 0 1 - 1) = (- (2 ^ 0) :: u32)" by simp
  have top: "- (2 ^ 0) + push_bit (NR_FREE_LIST - 1) (1::u32) \<noteq> 0" by (simp add: NR_FREE_LIST_def)
  have fp: "free_pages ?w 0 st' = Inl Overrun" if "mm_map st' = maps" for st'
    unfolding free_pages_def Let_def msk free_loop.simps[of "- (2 ^ 0)"] ix tog[OF that] if_not_P[OF top]
    by (simp add: NR_FREE_LIST_def)
  have z: "(w AND NOT x) AND x = 0" for w x :: u32 by (rule bit_word_eqI) (auto simp: bit_simps)
  show ?thesis
    unfolding release_page_def Let_def dv free_one_page_def pn
    using st by (simp add: fp z del: push_bit_of_1 of_nat_mult)
qed

end
