(* ===== verification/Vsprintf.thy ===== *)
theory Vsprintf
  imports Cnix_Prelude
begin

text \<open>
  Formatted output: \<open>kernel/vsprintf.c\<close> and \<open>kernel/printk.c\<close>. The output buffer is
  filled from the left, so a function that writes at \<open>buf[idx++]\<close> is a function that
  returns the characters it writes. The variable arguments are a list of 32-bit
  words and strings; taking an argument that is not there, or not of that kind, is
  the result \<open>Overrun\<close>. Field widths are assumed to stay below \<open>2 ^ 31\<close>.
\<close>

section \<open>Definitions\<close>

datatype radix_type = SI | UI | OI | xI | XI

datatype va_arg = Int_Arg u32 | Str_Arg string

text \<open>The copy loop of \<open>fillbuf\<close>; \<open>n\<close> characters have been written so far.\<close>

fun fill_copy :: "string \<Rightarrow> nat \<Rightarrow> nat \<Rightarrow> string" where
  "fill_copy [] limit n = []"
| "fill_copy (c # cs) limit n =
     c # (if limit \<noteq> 0 \<and> n + 1 > limit then [] else fill_copy cs limit (n + 1))"

definition fillbuf :: "string \<Rightarrow> nat \<Rightarrow> char \<Rightarrow> string" where
  "fillbuf tmp limit ch1 =
     (let len = length tmp;
          pad = (if len < limit then replicate (limit - len) ch1 else [])
      in pad @ fill_copy tmp limit (length pad))"

definition scales :: "radix_type \<Rightarrow> nat" where
  "scales type = (case type of SI \<Rightarrow> 10 | UI \<Rightarrow> 10 | OI \<Rightarrow> 8 | xI \<Rightarrow> 16 | XI \<Rightarrow> 16)"

definition model1 :: string where "model1 = ''0123456789abcdef''"
definition model2 :: string where "model2 = ''0123456789ABCDEF''"

text \<open>The digit loop: \<open>tmp\<close> gets the digits from the last to the first.\<close>

function digit_loop :: "string \<Rightarrow> nat \<Rightarrow> nat \<Rightarrow> string" where
  "digit_loop digit scale nownum =
     (if nownum > 0 \<and> scale > 1 then digit ! (nownum mod scale) # digit_loop digit scale (nownum div scale) else [])"
  by pat_completeness auto
termination
  by (relation "measure (\<lambda>(digit, scale, n). n)") (auto intro: div_less_dividend)

declare digit_loop.simps [simp del]

definition number :: "u32 \<Rightarrow> radix_type \<Rightarrow> nat \<Rightarrow> char \<Rightarrow> string" where
  "number num type limit ch1 =
     (let flag = (sint num < 0 \<and> type = SI);
          nownum = (if flag then unat (- num) else unat num);
          digit = (if type = XI then model2 else model1);
          tmp = (if nownum > 0 then digit_loop digit (scales type) nownum else ''0'');
          tmp1 = rev tmp
      in (if flag then ''-'' else []) @ fillbuf tmp1 limit ch1)"

text \<open>\<open>formatch\<close>: the characters written for one conversion and the arguments left.\<close>

definition formatch :: "char \<Rightarrow> va_arg list \<Rightarrow> nat \<Rightarrow> char \<Rightarrow> (string \<times> va_arg list) kres" where
  "formatch ch ap limit ch1 =
     (let int_conv = (\<lambda>type. case ap of Int_Arg w # ap' \<Rightarrow> Inr (number w type limit ch1, ap') | _ \<Rightarrow> Inl Overrun)
      in if ch = CHR ''d'' \<or> ch = CHR ''i'' then int_conv SI
         else if ch = CHR ''u'' then int_conv UI
         else if ch = CHR ''o'' then int_conv OI
         else if ch = CHR ''x'' then int_conv xI
         else if ch = CHR ''X'' then int_conv XI
         else if ch = CHR ''c'' then
           (case ap of Int_Arg w # ap' \<Rightarrow> Inr ([char_of (unat w)], ap') | _ \<Rightarrow> Inl Overrun)
         else if ch = CHR ''s'' then
           (case ap of Str_Arg s # ap' \<Rightarrow> Inr (fillbuf s limit ch1, ap') | _ \<Rightarrow> Inl Overrun)
         else Inr ([], ap))"

text \<open>The loop of \<open>vsprintf\<close>: \<open>state\<close> is 0 in plain text and 1 inside a conversion.\<close>

fun vs_loop :: "string \<Rightarrow> nat \<Rightarrow> nat \<Rightarrow> char \<Rightarrow> va_arg list \<Rightarrow> string kres" where
  "vs_loop [] state limit ch1 ap = Inr []"
| "vs_loop (ch # fmt) state limit ch1 ap =
     (if state = 0 then
        if ch = CHR ''%'' then vs_loop fmt 1 0 CHR '' '' ap
        else kbind (vs_loop fmt 0 limit ch1 ap) (\<lambda>out. Inr (ch # out))
      else
        if ch = CHR ''0'' then
          if ch1 = CHR '' '' \<and> limit = 0 then vs_loop fmt 1 limit CHR ''0'' ap
          else vs_loop fmt 1 (limit * 10) ch1 ap
        else if ch \<in> set ''123456789'' then
          vs_loop fmt 1 (limit * 10 + (of_char ch - 48)) ch1 ap
        else kbind (formatch ch ap limit ch1) (\<lambda>(s, ap').
          kbind (vs_loop fmt 0 limit ch1 ap') (\<lambda>out.
            Inr ((if s = [] then [CHR ''%'', ch] else s) @ out))))"

definition vsprintf :: "string \<Rightarrow> va_arg list \<Rightarrow> string kres" where
  "vsprintf fmt ap = vs_loop fmt 0 0 CHR '' '' ap"

text \<open>
  \<open>printk\<close> formats into a static buffer of 1024 bytes; the result is what goes to the
  console and the length. \<open>sprintf\<close> formats into the same buffer and copies the text out.
\<close>

definition printk_buf :: "string \<Rightarrow> va_arg list \<Rightarrow> string kres" where
  "printk_buf fmt ap =
     kbind (vsprintf fmt ap) (\<lambda>out. if length out < 1024 then Inr out else Inl Overrun)"

definition printk :: "string \<Rightarrow> va_arg list \<Rightarrow> (string \<times> nat) kres" where
  "printk fmt ap = kbind (printk_buf fmt ap) (\<lambda>out. Inr (out, length out))"

definition sprintf :: "string \<Rightarrow> va_arg list \<Rightarrow> (string \<times> nat) kres" where
  "sprintf fmt ap = kbind (printk_buf fmt ap) (\<lambda>out. Inr (out, length out))"

section \<open>Padding\<close>

lemma fill_copy_no_limit: "fill_copy cs 0 n = cs"
  by (induction cs arbitrary: n) auto

lemma fill_copy_take: "n \<le> limit \<Longrightarrow> limit \<noteq> 0 \<Longrightarrow> fill_copy cs limit n = take (limit + 1 - n) cs"
proof (induction cs arbitrary: n)
  case Nil
  then show ?case by simp
next
  case (Cons c cs)
  show ?case
  proof (cases "n = limit")
    case True
    then show ?thesis using Cons.prems by simp
  next
    case False
    then have "fill_copy cs limit (n + 1) = take (limit + 1 - (n + 1)) cs" using Cons.prems by (intro Cons.IH) auto
    moreover have "limit + 1 - n = Suc (limit + 1 - (n + 1))" using False Cons.prems by simp
    ultimately show ?thesis using False Cons.prems by (simp del: One_nat_def)
  qed
qed

text \<open>The text is right-aligned in the field, or cut one character behind the field width.\<close>

lemma fillbuf_eq:
  "fillbuf tmp limit ch1 =
     (if limit = 0 then tmp
      else if length tmp \<le> limit then replicate (limit - length tmp) ch1 @ tmp
      else take (limit + 1) tmp)"
proof (cases "limit = 0")
  case True
  then show ?thesis by (simp add: fillbuf_def fill_copy_no_limit Let_def)
next
  case False
  let ?pad = "if length tmp < limit then replicate (limit - length tmp) ch1 else []"
  have "length ?pad \<le> limit" by simp
  then have "fill_copy tmp limit (length ?pad) = take (limit + 1 - length ?pad) tmp"
    using False by (intro fill_copy_take)
  then show ?thesis using False by (auto simp: fillbuf_def Let_def)
qed

section \<open>Digits\<close>

text \<open>The value of a digit, and of a numeral written with the first digit first.\<close>

definition digit_val :: "char \<Rightarrow> nat" where
  "digit_val c = (if c \<in> set ''0123456789'' then of_char c - 48
     else if c \<in> set ''abcdef'' then of_char c - 87 else of_char c - 55)"

definition num_val :: "nat \<Rightarrow> string \<Rightarrow> nat" where
  "num_val base s = foldl (\<lambda>v c. v * base + digit_val c) 0 s"

lemma digit_val_model:
  assumes "d < 16"
  shows "digit_val (model1 ! d) = d" and "digit_val (model2 ! d) = d"
proof -
  have "\<forall>d \<in> set [0..<16]. digit_val (model1 ! d) = d \<and> digit_val (model2 ! d) = d" by code_simp
  then show "digit_val (model1 ! d) = d" "digit_val (model2 ! d) = d" using assms by auto
qed

lemma num_val_snoc: "num_val base (s @ [c]) = num_val base s * base + digit_val c"
  by (simp add: num_val_def)

lemma digit_loop_val:
  assumes "digit = model1 \<or> digit = model2" and "1 < base" and "base \<le> 16"
  shows "num_val base (rev (digit_loop digit base n)) = n"
proof (induction n rule: less_induct)
  case (less n)
  show ?case
  proof (cases "n = 0")
    case True
    then show ?thesis by (simp add: digit_loop.simps num_val_def)
  next
    case False
    then have "digit_loop digit base n = digit ! (n mod base) # digit_loop digit base (n div base)"
      using assms(2) by (simp add: digit_loop.simps[of digit base n])
    moreover have "num_val base (rev (digit_loop digit base (n div base))) = n div base"
      using False assms(2) by (intro less) (simp add: div_less_dividend)
    moreover have "n mod base < 16" using assms(2,3) mod_less_divisor[of base n] by linarith
    ultimately show ?thesis using assms(1) digit_val_model by (auto simp: num_val_snoc)
  qed
qed

text \<open>No leading zero, and at most eleven digits, so the arrays of 32 characters are long enough.\<close>

lemma digit_loop_length: "1 < base \<Longrightarrow> n < base ^ k \<Longrightarrow> length (digit_loop digit base n) \<le> k"
proof (induction k arbitrary: n)
  case 0
  then show ?case by (simp add: digit_loop.simps)
next
  case (Suc k)
  then have "n div base < base ^ k" by (simp add: less_mult_imp_div_less mult.commute)
  then have "length (digit_loop digit base (n div base)) \<le> k" using Suc by blast
  then show ?case by (simp add: digit_loop.simps[of digit base n])
qed

lemma digit_loop_last: "0 < n \<Longrightarrow> 1 < base \<Longrightarrow> base \<le> 16 \<Longrightarrow> digit = model1 \<or> digit = model2 \<Longrightarrow>
  digit_loop digit base n \<noteq> [] \<and> digit_val (last (digit_loop digit base n)) \<noteq> 0"
proof (induction n rule: less_induct)
  case (less n)
  have eq: "digit_loop digit base n = digit ! (n mod base) # digit_loop digit base (n div base)"
    using less.prems by (simp add: digit_loop.simps[of digit base n])
  show ?case
  proof (cases "n div base = 0")
    case True
    then have "n < base" using less.prems by (simp add: div_eq_0_iff)
    then have "digit_val (digit ! (n mod base)) = n" using less.prems digit_val_model[of n] by auto
    then show ?thesis using eq True less.prems by (simp add: digit_loop.simps[of digit base 0])
  next
    case False
    then show ?thesis using eq less.IH[of "n div base"] less.prems by (simp add: div_less_dividend)
  qed
qed

text \<open>The decimal numeral of a number.\<close>

definition decimal :: "nat \<Rightarrow> string" where
  "decimal n = rev (digit_loop model1 10 n)"

lemma decimal_digits: "set (decimal n) \<subseteq> set ''0123456789''"
proof (induction n rule: less_induct)
  case (less n)
  show ?case
  proof (cases "n = 0")
    case True
    then show ?thesis by (simp add: decimal_def digit_loop.simps)
  next
    case False
    have "\<forall>d \<in> set [0..<10]. model1 ! d \<in> set ''0123456789''" by code_simp
    then have "model1 ! (n mod 10) \<in> set ''0123456789''" by simp
    moreover have "decimal n = decimal (n div 10) @ [model1 ! (n mod 10)]"
      using False by (simp add: decimal_def digit_loop.simps[of model1 10 n])
    ultimately show ?thesis using less[of "n div 10"] False by simp
  qed
qed

lemma decimal_val: "num_val 10 (decimal n) = n"
  using digit_loop_val[of model1 10 n] by (simp add: decimal_def)

lemma decimal_hd: "0 < n \<Longrightarrow> decimal n \<noteq> [] \<and> hd (decimal n) \<noteq> CHR ''0''"
proof -
  assume "0 < n"
  then have "digit_loop model1 10 n \<noteq> []" "digit_val (last (digit_loop model1 10 n)) \<noteq> 0"
    using digit_loop_last[of n 10 model1] by auto
  moreover have "digit_val CHR ''0'' = 0" by code_simp
  ultimately show ?thesis by (auto simp: decimal_def hd_rev)
qed

section \<open>Conversions\<close>

lemma digit_chars: "c \<in> set ''0123456789'' \<Longrightarrow> c \<noteq> CHR ''0'' \<Longrightarrow> c \<in> set ''123456789''"
  "c \<in> set ''123456789'' \<Longrightarrow> of_char c - 48 = digit_val c"
  by (auto simp: digit_val_def)

lemma vs_loop_digits:
  assumes "set s \<subseteq> set ''0123456789''" and "s \<noteq> [] \<Longrightarrow> hd s \<noteq> CHR ''0'' \<or> limit \<noteq> 0 \<or> ch1 \<noteq> CHR '' ''"
  shows "vs_loop (s @ fmt) 1 limit ch1 ap = vs_loop fmt 1 (foldl (\<lambda>v c. v * 10 + digit_val c) limit s) ch1 ap"
  using assms
proof (induction s arbitrary: limit)
  case Nil
  then show ?case by simp
next
  case (Cons c s)
  show ?case
  proof (cases "c = CHR ''0''")
    case True
    have z: "digit_val CHR ''0'' = 0" by code_simp
    have "limit \<noteq> 0 \<or> ch1 \<noteq> CHR '' ''" using Cons.prems(2) True by simp
    then have "vs_loop ((c # s) @ fmt) 1 limit ch1 ap = vs_loop (s @ fmt) 1 (limit * 10) ch1 ap" using True by auto
    moreover have "vs_loop (s @ fmt) 1 (limit * 10) ch1 ap
        = vs_loop fmt 1 (foldl (\<lambda>v c. v * 10 + digit_val c) (limit * 10) s) ch1 ap"
      using Cons.prems \<open>limit \<noteq> 0 \<or> ch1 \<noteq> CHR '' ''\<close> by (intro Cons.IH) auto
    ultimately show ?thesis using True z by simp
  next
    case False
    then have c: "c \<in> set ''123456789''" using Cons.prems(1) digit_chars(1)[of c] by auto
    have nz: "digit_val c \<noteq> 0" using c by (auto simp: digit_val_def)
    have "vs_loop ((c # s) @ fmt) 1 limit ch1 ap = vs_loop (s @ fmt) 1 (limit * 10 + digit_val c) ch1 ap"
      using False c digit_chars(2)[OF c] by simp
    moreover have "vs_loop (s @ fmt) 1 (limit * 10 + digit_val c) ch1 ap
        = vs_loop fmt 1 (foldl (\<lambda>v c. v * 10 + digit_val c) (limit * 10 + digit_val c) s) ch1 ap"
      using Cons.prems nz by (intro Cons.IH) auto
    ultimately show ?thesis by simp
  qed
qed

text \<open>In plain text the width and the padding of the last conversion are forgotten.\<close>

lemma vs_loop_plain: "vs_loop fmt 0 limit ch1 ap = vsprintf fmt ap"
proof -
  have "vs_loop fmt 0 limit ch1 ap = vs_loop fmt 0 limit' ch1' ap" for limit ch1 limit' ch1'
  proof (induction fmt)
    case Nil
    then show ?case by simp
  next
    case (Cons c fmt)
    then show ?case by (cases "c = CHR ''%''") simp_all
  qed
  then show ?thesis by (simp add: vsprintf_def)
qed

lemma vsprintf_text: "c \<noteq> CHR ''%'' \<Longrightarrow> vsprintf (c # fmt) ap = kbind (vsprintf fmt ap) (\<lambda>out. Inr (c # out))"
  by (simp add: vsprintf_def)

lemma unat_minus_sint: "sint (w::u32) < 0 \<Longrightarrow> int (unat (- w)) = - sint w"
proof -
  assume neg: "sint w < 0"
  have "- sint w \<le> 2 ^ 31" using sint_greater_eq[of w] by simp
  then have "uint (word_of_int (- sint w) :: u32) = - sint w"
    by (subst unsigned_of_int) (use neg in \<open>simp add: take_bit_int_eq_self\<close>)
  then show ?thesis by simp
qed

lemma unat_sint: "0 \<le> sint (w::u32) \<Longrightarrow> int (unat w) = sint w"
proof -
  assume pos: "0 \<le> sint w"
  have "sint w < 2 ^ 31" using sint_less[of w] by simp
  then have "uint (word_of_int (sint w) :: u32) = sint w"
    by (subst unsigned_of_int) (use pos in \<open>simp add: take_bit_int_eq_self\<close>)
  then show ?thesis by simp
qed

section \<open>Properties\<close>







end
