(* ===== verification/Bottom.thy ===== *)
theory Bottom
  imports Cnix_Prelude
begin

text \<open>
  Bottom halves, \<open>kernel/bottom.c\<close>: the part of an interrupt's work that runs with
  interrupts enabled. A raised bottom half is a bit of \<open>b_active\<close>, a locked one a bit
  of \<open>b_mask\<close>. The table of procedures holds names of procedures; what they do is the
  parameter \<open>act\<close>, a function on the rest of the kernel's state and this one, so a
  procedure can raise, lock and register bottom halves itself.
\<close>

section \<open>Definitions\<close>

definition TIMER_B :: nat where "TIMER_B = 0"
definition IDE_B :: nat where "IDE_B = 1"
definition KEYBOARD_B :: nat where "KEYBOARD_B = 2"
definition FLOPPY_B :: nat where "FLOPPY_B = 3"
definition PCNET32_B :: nat where "PCNET32_B = 4"
definition END_B :: nat where "END_B = 5"

record bottom =
  b_mask :: u32
  b_active :: u32
  b_inflag :: bool
  b_actions :: "nat option list"

type_synonym 's action = "nat \<Rightarrow> 's \<times> bottom \<Rightarrow> 's \<times> bottom"

text \<open>One iteration of the \<open>for\<close> loop.\<close>

definition run_bottom :: "'s action \<Rightarrow> u32 \<Rightarrow> nat \<Rightarrow> 's \<times> bottom \<Rightarrow> 's \<times> bottom" where
  "run_bottom act active i st =
     (if active AND push_bit i 1 \<noteq> 0
      then (case b_actions (snd st) ! i of None \<Rightarrow> st | Some f \<Rightarrow> act f st)
      else st)"

text \<open>The \<open>do ... while\<close> loop; it does not end if the procedures keep raising bottom halves.\<close>

partial_function (option) bottom_loop :: "'s action \<Rightarrow> 's \<times> bottom \<Rightarrow> ('s \<times> bottom) option" where
  "bottom_loop act st =
     (let b = snd st;
          active = b_active b AND NOT (b_mask b);
          st1 = (fst st, b\<lparr>b_active := b_active b AND b_mask b\<rparr>);
          st2 = fold (run_bottom act active) [0..<END_B] st1
      in if b_active (snd st2) AND NOT (b_mask (snd st2)) \<noteq> 0 then bottom_loop act st2 else Some st2)"

definition do_with_bottom :: "'s action \<Rightarrow> nat \<Rightarrow> 's \<times> bottom \<Rightarrow> ('s \<times> bottom) option" where
  "do_with_bottom act nested_intnum st =
     (if b_active (snd st) = 0 \<or> nested_intnum \<noteq> 0 \<or> b_inflag (snd st) then Some st
      else map_option (\<lambda>(s, b). (s, b\<lparr>b_inflag := False\<rparr>))
             (bottom_loop act (fst st, (snd st)\<lparr>b_inflag := True\<rparr>)))"

definition raise_bottom :: "nat \<Rightarrow> bottom \<Rightarrow> bottom" where
  "raise_bottom idx b =
     (if b_actions b ! idx = None then b else b\<lparr>b_active := b_active b OR push_bit idx 1\<rparr>)"

text \<open>The lock functions return the saved mask.\<close>

definition lock_bottom :: "nat \<Rightarrow> bottom \<Rightarrow> bottom \<times> u32" where
  "lock_bottom idx b = (b\<lparr>b_mask := b_mask b OR push_bit idx 1\<rparr>, b_mask b)"

definition unlock_bottom :: "nat \<Rightarrow> u32 \<Rightarrow> bottom \<Rightarrow> bottom" where
  "unlock_bottom idx flags b = b\<lparr>b_mask := flags\<rparr>"

definition lock_all_bottom :: "bottom \<Rightarrow> bottom \<times> u32" where
  "lock_all_bottom b = (b\<lparr>b_mask := - 1\<rparr>, b_mask b)"

definition unlock_all_bottom :: "u32 \<Rightarrow> bottom \<Rightarrow> bottom" where
  "unlock_all_bottom flags b = b\<lparr>b_mask := flags\<rparr>"

definition save_bottom_mask :: "bottom \<Rightarrow> u32" where
  "save_bottom_mask b = b_mask b"

definition restore_bottom_mask :: "u32 \<Rightarrow> bottom \<Rightarrow> bottom" where
  "restore_bottom_mask flags b = b\<lparr>b_mask := flags\<rparr>"

definition set_bottom :: "nat \<Rightarrow> nat \<Rightarrow> bottom \<Rightarrow> bottom" where
  "set_bottom idx func b = b\<lparr>b_actions := (b_actions b)[idx := Some func]\<rparr>"

definition unset_bottom :: "nat \<Rightarrow> bottom \<Rightarrow> bottom" where
  "unset_bottom idx b =
     b\<lparr>b_actions := (b_actions b)[idx := None], b_active := b_active b AND NOT (push_bit idx 1)\<rparr>"

definition init_bottom :: "bottom \<Rightarrow> bottom" where
  "init_bottom b = b\<lparr>b_mask := 0, b_active := 0, b_inflag := False\<rparr>"

section \<open>Running the pending bottom halves\<close>

text \<open>The bottom halves that are raised and not locked, in the order of their numbers.\<close>

definition pending :: "bottom \<Rightarrow> nat list" where
  "pending b = filter (\<lambda>i. bit (b_active b AND NOT (b_mask b)) i \<and> b_actions b ! i \<noteq> None) [0..<END_B]"

text \<open>A procedure that does its work and leaves the bottom halves alone.\<close>

definition quiet :: "'s action \<Rightarrow> bool" where
  "quiet act \<longleftrightarrow> (\<forall>f s b. snd (act f (s, b)) = b)"

lemma bit_test: "(w::u32) AND 2 ^ i = 0 \<longleftrightarrow> \<not> bit w i"
  by (rule and_exp_eq_0_iff_not_bit)

lemma fold_quiet:
  assumes "quiet act"
  shows "fold (run_bottom act active) is (s, b)
    = (fold (\<lambda>i s. fst (act (the (b_actions b ! i)) (s, b)))
        (filter (\<lambda>i. bit active i \<and> b_actions b ! i \<noteq> None) is) s, b)"
proof (induction "is" arbitrary: s)
  case Nil
  then show ?case by simp
next
  case (Cons i "is")
  have q: "act f (s, b) = (fst (act f (s, b)), b)" for f s
    using assms by (simp add: quiet_def prod_eq_iff)
  have "run_bottom act active i (s, b) =
      (if bit active i \<and> b_actions b ! i \<noteq> None then (fst (act (the (b_actions b ! i)) (s, b)), b) else (s, b))"
    using q by (auto simp: run_bottom_def bit_test split: option.split)
  then show ?case using Cons by auto
qed



section \<open>Nested critical sections\<close>

text \<open>Bracketed sections, as the callers of the lock macros nest them.\<close>

datatype section_tree = Lock_One nat "section_tree list" | Lock_All "section_tree list" | Raise nat

fun run_section :: "section_tree \<Rightarrow> bottom \<Rightarrow> bottom" and run_sections :: "section_tree list \<Rightarrow> bottom \<Rightarrow> bottom" where
  "run_section (Lock_One i ts) b =
     (let (b1, flags) = lock_bottom i b in unlock_bottom i flags (run_sections ts b1))"
| "run_section (Lock_All ts) b =
     (let (b1, flags) = lock_all_bottom b in unlock_all_bottom flags (run_sections ts b1))"
| "run_section (Raise i) b = raise_bottom i b"
| "run_sections [] b = b"
| "run_sections (t # ts) b = run_sections ts (run_section t b)"



end
