(* ===== verification/Sched.thy ===== *)
theory Sched
  imports Klist
begin

text \<open>
  Tasks and scheduling, \<open>kernel/sched.c\<close> and \<open>include/cnix/sched.h\<close>. A task is named by
  its slot of \<open>task[]\<close>; the idle task has slot 0 and its list node is the head of the
  run queue, so it is never a member. The run queue and the wait queues are the
  sequences their links represent. A context switch is the change of \<open>current\<close>: a
  function that calls \<open>schedule\<close> in the middle is split there, and the second part
  runs when the task is current again.
\<close>

section \<open>State\<close>

definition NR_TASKS :: nat where "NR_TASKS = 64"
definition IDLEPID :: nat where "IDLEPID = 0"
definition INITPID :: nat where "INITPID = 1"
definition SIGNR :: nat where "SIGNR = 32"

datatype task_state = TASK_RUNNING | TASK_INTERRUPTIBLE | TASK_UNINTERRUPTIBLE | TASK_ZOMBIE | TASK_STOPPED

definition SIG_DFL :: u32 where "SIG_DFL = 0"
definition SIG_IGN :: u32 where "SIG_IGN = 1"

record sigaction =
  sa_handler :: u32
  sa_mask :: u32
  sa_flags :: u32

datatype fpu_image = Fpu_init | Fpu_image nat

record mmap_struct =
  mm_start :: u32
  mm_end :: u32
  mm_flags :: int
  mm_prot :: int
  mm_ino :: "nat option"
  mm_offset :: u32
  mm_length :: u32

record mm_struct =
  mmap_num :: int
  mmap :: "mmap_struct list"

text \<open>
  \<open>struct task_struct\<close> without its list links and saved \<open>esp\<close> and \<open>eip\<close>. Pointers to
  files, inodes and queue heads are numbers. The image of the floating-point unit is
  either the one \<open>fsave\<close> leaves in the unit or one a program made.
\<close>

record task_struct =
  need_sched :: bool
  signal :: u32
  esp0 :: u32
  pg_dir :: u32
  blocked :: u32
  blocked_saved :: u32
  sigactions :: "sigaction list"
  tstate :: task_state
  priority :: int
  counter :: int
  mm :: mm_struct
  start_time :: u32
  stime :: u32
  utime :: u32
  cstime :: u32
  cutime :: u32
  alarm_expire :: u32
  uids :: "nat \<times> nat \<times> nat"
  gids :: "nat \<times> nat \<times> nat"
  pwd :: "nat option"
  root :: "nat option"
  filp :: "nat option list"
  fflags :: "int list"
  umask :: nat
  exit_code :: int
  pid :: nat
  ppid :: nat
  clist :: "nat list"
  pgid :: nat
  tty :: int
  session :: int
  sleep_spot :: "nat option"
  rlims :: "(u32 \<times> u32) list"
  sleep_eip :: u32
  chk :: bool
  kernel :: bool
  i387 :: fpu_image
  bitmap :: "u8 list"
  myname :: string

record tss_struct =
  tss_esp0 :: u32
  tss_ss0 :: u32
  tss_iobase :: u16
  tss_bitmap :: "u8 list"

text \<open>The kernel's scheduling state, the links of the process group rings (the \<open>pglist\<close> fields),
  the owner of each terminal (\<open>t_owner\<close> of \<open>ttys[]\<close>), and the
  processor's page directory and floating-point unit.\<close>

record sched =
  tasks :: "nat \<Rightarrow> task_struct"
  slots :: "nat \<Rightarrow> bool"
  current :: nat
  run_queue :: "nat list"
  wait_queues :: "nat \<Rightarrow> nat list"
  pg_links :: "nat lheap"
  tty_owner :: "int \<Rightarrow> nat"
  tss :: tss_struct
  cr3 :: u32
  fpu :: fpu_image
  nested_intnum :: int

definition upd_task :: "nat \<Rightarrow> (task_struct \<Rightarrow> task_struct) \<Rightarrow> sched \<Rightarrow> sched" where
  "upd_task t f s = s\<lparr>tasks := (tasks s)(t := f (tasks s t))\<rparr>"

section \<open>Scheduling\<close>

definition add_run :: "nat \<Rightarrow> sched \<Rightarrow> sched" where
  "add_run t s =
     (if run_queue s = [] then s\<lparr>run_queue := t # run_queue s\<rparr>
      else s\<lparr>run_queue := run_queue s @ [t]\<rparr>)"

definition del_run :: "nat \<Rightarrow> sched \<Rightarrow> sched" where
  "del_run t s = s\<lparr>run_queue := remove1 t (run_queue s)\<rparr>"

definition is_run_quene_empty :: "sched \<Rightarrow> bool" where
  "is_run_quene_empty s \<longleftrightarrow> run_queue s = []"

text \<open>The selection loop: the first task with the largest positive counter.\<close>

fun select_task :: "(nat \<Rightarrow> task_struct) \<Rightarrow> nat list \<Rightarrow> int \<Rightarrow> nat option \<Rightarrow> int \<times> nat option" where
  "select_task tk [] c sel = (c, sel)"
| "select_task tk (p # ps) c sel =
     (if counter (tk p) > c then select_task tk ps (counter (tk p)) (Some p) else select_task tk ps c sel)"

text \<open>The second loop: every runnable task gets its priority as counter.\<close>

fun refill :: "nat list \<Rightarrow> (nat \<Rightarrow> task_struct) \<Rightarrow> nat \<Rightarrow> task_struct" where
  "refill [] tk = tk"
| "refill (p # ps) tk = refill ps (tk(p := (tk p)\<lparr>counter := priority (tk p)\<rparr>))"

partial_function (option) sched_repeat :: "nat list \<Rightarrow> (nat \<Rightarrow> task_struct) \<Rightarrow> ((nat \<Rightarrow> task_struct) \<times> nat option) option" where
  "sched_repeat rq tk =
     (let (c, sel) = select_task tk rq 0 None
      in if c = 0 then sched_repeat rq (refill rq tk) else Some (tk, sel))"

text \<open>
  What \<open>schedule\<close> and \<open>switch_to\<close> do once \<open>next\<close> is chosen: the floating-point image
  of a user task is saved, and a user task gets its own, its port bitmap, its kernel
  stack and its page directory. A kernel task runs on whatever is loaded.
\<close>

definition switch_task :: "nat \<Rightarrow> nat \<Rightarrow> sched \<Rightarrow> sched" where
  "switch_task prev nxt s =
     (if prev = nxt then s
      else
        let s1 = (if kernel (tasks s prev) then s
                  else (upd_task prev (\<lambda>t. t\<lparr>i387 := fpu s\<rparr>) s)\<lparr>fpu := Fpu_init\<rparr>);
            n = tasks s1 nxt
        in if kernel n then s1
           else s1\<lparr>fpu := i387 n,
                   tss := (tss s1)\<lparr>tss_bitmap := memcpy_at (tss_bitmap (tss s1)) 0 (bitmap n) 128,
                                   tss_esp0 := esp0 n\<rparr>,
                   cr3 := pg_dir n\<rparr>)"

text \<open>\<open>schedule\<close>; \<open>None\<close> is a call that never returns.\<close>

definition schedule :: "sched \<Rightarrow> sched option" where
  "schedule s0 =
     (let s = upd_task (current s0) (\<lambda>t. t\<lparr>need_sched := False\<rparr>) s0 in
      if run_queue s = []
      then Some (switch_task (current s) IDLEPID (s\<lparr>current := IDLEPID\<rparr>))
      else map_option (\<lambda>(tk, sel). switch_task (current s) (the sel) (s\<lparr>tasks := tk, current := the sel\<rparr>))
             (sched_repeat (run_queue s) (tasks s)))"

section \<open>Sleeping and waking\<close>

definition add_wait_queue :: "nat \<Rightarrow> nat \<Rightarrow> sched \<Rightarrow> sched" where
  "add_wait_queue p t s = s\<lparr>wait_queues := (wait_queues s)(p := t # wait_queues s p)\<rparr>"

text \<open>The walk of \<open>remove_wait_queue\<close>; it stops the kernel if the entry is not there.\<close>

fun unlink_wait :: "nat \<Rightarrow> nat list \<Rightarrow> nat list kres" where
  "unlink_wait t [] = Inl DIE"
| "unlink_wait t (w # ws) =
     (if w = t then Inr ws else kbind (unlink_wait t ws) (\<lambda>ws'. Inr (w # ws')))"

definition remove_wait_queue :: "nat \<Rightarrow> nat \<Rightarrow> sched \<Rightarrow> sched kres" where
  "remove_wait_queue p t s =
     kbind (unlink_wait t (wait_queues s p)) (\<lambda>ws. Inr (s\<lparr>wait_queues := (wait_queues s)(p := ws)\<rparr>))"

text \<open>
  \<open>__sleepon\<close> up to its call of \<open>schedule\<close>, for the queue head at \<open>p\<close> (\<open>None\<close> a null
  pointer, for which it returns at once), and the part behind that call. \<open>sleepon\<close> and
  \<open>interrupt_sleepon\<close> also note their return address \<open>ret\<close> in the task.
\<close>

definition sleep_begin :: "u32 \<Rightarrow> nat option \<Rightarrow> task_state \<Rightarrow> sched \<Rightarrow> sched kres" where
  "sleep_begin ret p st s0 =
     (let s = upd_task (current s0) (\<lambda>t. t\<lparr>sleep_eip := ret\<rparr>) s0 in
      case p of
        None \<Rightarrow> Inr (upd_task (current s) (\<lambda>t. t\<lparr>sleep_eip := 0\<rparr>) s)
      | Some q \<Rightarrow>
          if pid (tasks s (current s)) = 0 then Inl DIE
          else
            let s1 = del_run (current s) s;
                s2 = upd_task (current s) (\<lambda>t. t\<lparr>tstate := st\<rparr>) s1
            in Inr (add_wait_queue q (current s) s2))"

definition sleepon :: "u32 \<Rightarrow> nat option \<Rightarrow> sched \<Rightarrow> sched kres" where
  "sleepon ret p s = sleep_begin ret p TASK_UNINTERRUPTIBLE s"

definition interrupt_sleepon :: "u32 \<Rightarrow> nat option \<Rightarrow> sched \<Rightarrow> sched kres" where
  "interrupt_sleepon ret p s = sleep_begin ret p TASK_INTERRUPTIBLE s"

definition sleep_end :: "nat \<Rightarrow> sched \<Rightarrow> sched kres" where
  "sleep_end p s =
     kbind (remove_wait_queue p (current s) s)
       (\<lambda>s1. Inr (upd_task (current s1) (\<lambda>t. t\<lparr>sleep_eip := 0\<rparr>) s1))"

text \<open>The loop of \<open>wakeup\<close> over the queue, and \<open>wakeup\<close>.\<close>

definition wake_task :: "nat \<Rightarrow> sched \<Rightarrow> sched" where
  "wake_task t s =
     (if tstate (tasks s t) = TASK_UNINTERRUPTIBLE \<or> tstate (tasks s t) = TASK_INTERRUPTIBLE
      then add_run t (upd_task t (\<lambda>k. k\<lparr>tstate := TASK_RUNNING, sleep_spot := None\<rparr>) s)
      else s)"

definition wakeup :: "nat option \<Rightarrow> sched \<Rightarrow> sched" where
  "wakeup p s =
     (case p of None \<Rightarrow> s
      | Some q \<Rightarrow>
          if wait_queues s q = [] then s
          else
            let s1 = fold wake_task (wait_queues s q) s
            in upd_task (current s1) (\<lambda>t. t\<lparr>need_sched := True\<rparr>) s1)"

section \<open>Start-up\<close>

text \<open>The addresses the linker and the boot code provide.\<close>

record image_layout =
  l_kp_dir :: u32
  l_idle :: u32
  l_text :: u32
  l_etext :: u32
  l_data :: u32
  l_edata :: u32
  l_bss :: u32
  l_ebss :: u32

definition SU_UID :: nat where "SU_UID = 0"
definition SU_GID :: nat where "SU_GID = 0"
definition NOTTY :: int where "NOTTY = 11"
definition OPEN_MAX :: nat where "OPEN_MAX = 32"
definition O_CLOEXEC :: int where "O_CLOEXEC = 4"
definition MAX_MMAP_NUM :: nat where "MAX_MMAP_NUM = 16"
definition RLIM_NLIMITS :: nat where "RLIM_NLIMITS = 15"
definition RLIM_INFINITY :: u32 where "RLIM_INFINITY = 0xffffffff"

definition zero_mmap :: mmap_struct where
  "zero_mmap = \<lparr>mm_start = 0, mm_end = 0, mm_flags = 0, mm_prot = 0, mm_ino = None, mm_offset = 0, mm_length = 0\<rparr>"

definition idle_mm :: "image_layout \<Rightarrow> mm_struct" where
  "idle_mm l =
     \<lparr>mmap_num = 4,
      mmap = (replicate MAX_MMAP_NUM zero_mmap)
        [0 := zero_mmap\<lparr>mm_start := l_text l, mm_end := l_etext l\<rparr>,
         1 := zero_mmap\<lparr>mm_start := l_data l, mm_end := l_edata l\<rparr>,
         2 := zero_mmap\<lparr>mm_start := l_idle l, mm_end := l_idle l + 4096\<rparr>,
         3 := zero_mmap\<lparr>mm_start := l_bss l, mm_end := l_ebss l\<rparr>]\<rparr>"

definition idle_rlims :: "(u32 \<times> u32) list" where
  "idle_rlims =
     (replicate RLIM_NLIMITS (RLIM_INFINITY, RLIM_INFINITY))
       [6 := (of_nat NR_TASKS, of_nat NR_TASKS), 7 := (of_nat OPEN_MAX, of_nat OPEN_MAX)]"

definition init_idle :: "image_layout \<Rightarrow> u32 \<Rightarrow> task_struct \<Rightarrow> task_struct" where
  "init_idle l nowticks t =
     t\<lparr>need_sched := False, tstate := TASK_RUNNING, pg_dir := l_kp_dir l, esp0 := l_idle l + 4096,
       priority := 10, counter := 10, mm := idle_mm l,
       start_time := nowticks, stime := 0, utime := 0, cstime := 0, cutime := 0, alarm_expire := 0,
       signal := 0, blocked := 0, blocked_saved := 0,
       sigactions := replicate SIGNR \<lparr>sa_handler = SIG_DFL, sa_mask = 0, sa_flags = 0\<rparr>,
       uids := (SU_UID, SU_UID, SU_UID), gids := (SU_GID, SU_GID, SU_GID), pwd := None, root := None,
       filp := replicate OPEN_MAX None, fflags := replicate OPEN_MAX O_CLOEXEC, umask := 18, exit_code := 0,
       pid := IDLEPID, ppid := IDLEPID, clist := [], pgid := IDLEPID, tty := NOTTY, session := int IDLEPID,
       sleep_spot := None, sleep_eip := 0, rlims := idle_rlims, chk := False, kernel := True,
       myname := ''idle''\<rparr>"

definition sched_init :: "image_layout \<Rightarrow> u32 \<Rightarrow> sched \<Rightarrow> sched" where
  "sched_init l nowticks s =
     s\<lparr>tasks := (tasks s)(current s := init_idle l nowticks (tasks s (current s))),
       tss := \<lparr>tss_esp0 = l_idle l + 4096, tss_ss0 = 0x10, tss_iobase = 104,
               tss_bitmap = replicate 129 0xff @ drop 129 (tss_bitmap (tss s))\<rparr>,
       run_queue := [], pg_links := list_head_init (current s) (pg_links s),
       slots := (\<lambda>i. if 1 \<le> i \<and> i < NR_TASKS then False else slots s i),
       nested_intnum := nested_intnum s - 1\<rparr>"

section \<open>What schedule chooses\<close>

text \<open>The reference: the first element on which \<open>f\<close> is largest.\<close>

definition first_max :: "('a \<Rightarrow> int) \<Rightarrow> 'a list \<Rightarrow> 'a" where
  "first_max f xs = hd (filter (\<lambda>x. \<forall>y\<in>set xs. f y \<le> f x) xs)"

lemma first_max_Cons:
  "first_max f (p # ps) = (if \<forall>y\<in>set ps. f y \<le> f p then p else first_max f ps)"
proof (cases "\<forall>y\<in>set ps. f y \<le> f p")
  case True
  then show ?thesis by (simp add: first_max_def)
next
  case False
  then obtain y where "y \<in> set ps" and "f p < f y" by force
  then have "(\<forall>z\<in>set (p # ps). f z \<le> f x) \<longleftrightarrow> (\<forall>z\<in>set ps. f z \<le> f x)" for x by force
  with False show ?thesis by (auto simp: first_max_def)
qed

lemma first_max_in: "xs \<noteq> [] \<Longrightarrow> first_max f xs \<in> set xs"
  by (induction xs) (fastforce simp: first_max_Cons)+

lemma first_max_ge: "x \<in> set xs \<Longrightarrow> f x \<le> f (first_max f xs)"
proof (induction xs arbitrary: x)
  case (Cons p ps)
  show ?case
  proof (cases "\<forall>y\<in>set ps. f y \<le> f p")
    case False
    then obtain y where "y \<in> set ps" and "f p < f y" by force
    with Cons.IH [of y] Cons.IH [of x] Cons.prems False show ?thesis by (auto simp: first_max_Cons)
  qed (use Cons.prems in \<open>auto simp: first_max_Cons\<close>)
qed simp

lemma first_max_cong: "(\<And>x. x \<in> set xs \<Longrightarrow> f x = g x) \<Longrightarrow> first_max f xs = first_max g xs"
  unfolding first_max_def by (intro arg_cong [where f = hd] filter_cong) auto

lemma select_task_eq:
  "select_task tk ps c sel =
     (if \<exists>p\<in>set ps. c < counter (tk p)
      then (counter (tk (first_max (\<lambda>p. counter (tk p)) ps)), Some (first_max (\<lambda>p. counter (tk p)) ps))
      else (c, sel))"
proof (induction ps arbitrary: c sel)
  case (Cons p ps)
  show ?case
  proof (cases "c < counter (tk p)")
    case True
    then show ?thesis
      by (auto simp: Cons.IH first_max_Cons not_less)
  next
    case False
    then show ?thesis
      by (auto simp: Cons.IH first_max_Cons)
  qed
qed simp

lemma refill_apply:
  "refill ps tk t = (if t \<in> set ps then (tk t)\<lparr>counter := priority (tk t)\<rparr> else tk t)"
  by (induction ps arbitrary: tk) auto

lemma select_positive:
  assumes "\<exists>p\<in>set rq. 0 < counter (tk p)"
  shows "sched_repeat rq tk = Some (tk, Some (first_max (\<lambda>p. counter (tk p)) rq))"
proof -
  from assms obtain p where p: "p \<in> set rq" "0 < counter (tk p)" by blast
  with first_max_ge [of p rq "\<lambda>p. counter (tk p)"] assms show ?thesis
    by (subst sched_repeat.simps) (auto simp: select_task_eq)
qed

lemma select_refilled:
  assumes "\<forall>p\<in>set rq. counter (tk p) \<le> 0" and "\<exists>p\<in>set rq. 0 < priority (tk p)"
  shows "sched_repeat rq tk = Some (refill rq tk, Some (first_max (\<lambda>p. priority (tk p)) rq))"
proof -
  have "select_task tk rq 0 None = (0, None)" using assms(1) by (force simp: select_task_eq)
  then have "sched_repeat rq tk = sched_repeat rq (refill rq tk)" by (subst sched_repeat.simps) simp
  also have "\<dots> = Some (refill rq tk, Some (first_max (\<lambda>p. counter (refill rq tk p)) rq))"
    by (rule select_positive) (use assms(2) in \<open>auto simp: refill_apply\<close>)
  also have "first_max (\<lambda>p. counter (refill rq tk p)) rq = first_max (\<lambda>p. priority (tk p)) rq"
    by (rule first_max_cong) (simp add: refill_apply)
  finally show ?thesis .
qed

lemma sched_repeat_returns_only:
  "sched_repeat rq tk = Some r \<Longrightarrow> \<exists>p\<in>set rq. 0 < counter (tk p) \<or> 0 < priority (tk p)"
proof (induction rule: sched_repeat.raw_induct [rotated 1, consumes 1, case_names step])
  case (step f rq tk r)
  show ?case
  proof (cases "\<exists>p\<in>set rq. 0 < counter (tk p)")
    case False
    then have "select_task tk rq 0 None = (0, None)" by (auto simp: select_task_eq)
    with step(2) have "f rq (refill rq tk) = Some r" by simp
    from step(1) [OF this] show ?thesis by (auto simp: refill_apply)
  qed auto
qed

section \<open>Reading the scheduler's state\<close>

lemma upd_task_sel [simp]:
  "tasks (upd_task t f s) x = (if x = t then f (tasks s t) else tasks s x)"
  "slots (upd_task t f s) = slots s" "current (upd_task t f s) = current s"
  "run_queue (upd_task t f s) = run_queue s" "wait_queues (upd_task t f s) = wait_queues s"
  "pg_links (upd_task t f s) = pg_links s" "tty_owner (upd_task t f s) = tty_owner s" "tss (upd_task t f s) = tss s" "cr3 (upd_task t f s) = cr3 s" "fpu (upd_task t f s) = fpu s"
  by (simp_all add: upd_task_def)

lemma add_run_eq: "add_run t s = s\<lparr>run_queue := run_queue s @ [t]\<rparr>"
  by (simp add: add_run_def)

lemma switch_task_sel [simp]:
  "slots (switch_task p n s) = slots s" "current (switch_task p n s) = current s"
  "run_queue (switch_task p n s) = run_queue s" "wait_queues (switch_task p n s) = wait_queues s"
  "pg_links (switch_task p n s) = pg_links s"
  by (simp_all add: switch_task_def Let_def)

text \<open>A switch changes nothing of a task but its floating-point image.\<close>

lemma switch_task_tasks:
  "tasks (switch_task p n s) t =
     (if t = p \<and> p \<noteq> n \<and> \<not> kernel (tasks s p) then (tasks s t)\<lparr>i387 := fpu s\<rparr> else tasks s t)"
  by (simp add: switch_task_def Let_def)

text \<open>The outcome of \<open>schedule\<close> in the three cases of its loop.\<close>

definition runnable :: "sched \<Rightarrow> bool" where
  "runnable s \<longleftrightarrow> (\<exists>t\<in>set (run_queue s). 0 < counter (tasks s t) \<or> 0 < priority (tasks s t))"

definition chosen :: "sched \<Rightarrow> nat" where
  "chosen s =
     (if run_queue s = [] then IDLEPID
      else if \<exists>t\<in>set (run_queue s). 0 < counter (tasks s t)
      then first_max (\<lambda>t. counter (tasks s t)) (run_queue s)
      else first_max (\<lambda>t. priority (tasks s t)) (run_queue s))"

definition refilled :: "sched \<Rightarrow> nat \<Rightarrow> task_struct" where
  "refilled s =
     (if \<exists>t\<in>set (run_queue s). 0 < counter (tasks s t) then tasks s else refill (run_queue s) (tasks s))"

lemma schedule_eq:
  "schedule s =
     (let s1 = upd_task (current s) (\<lambda>t. t\<lparr>need_sched := False\<rparr>) s in
      if run_queue s = [] \<or> runnable s
      then Some (switch_task (current s) (chosen s) (s1\<lparr>tasks := refilled s1, current := chosen s\<rparr>))
      else None)"
proof -
  let ?s1 = "upd_task (current s) (\<lambda>t. t\<lparr>need_sched := False\<rparr>) s"
  have c: "counter (tasks ?s1 t) = counter (tasks s t)" "priority (tasks ?s1 t) = priority (tasks s t)" for t
    by simp_all
  consider "run_queue s = []" | "\<exists>t\<in>set (run_queue s). 0 < counter (tasks s t)"
    | "\<not> (\<exists>t\<in>set (run_queue s). 0 < counter (tasks s t))" "runnable s"
    | "run_queue s \<noteq> []" "\<not> runnable s"
    by (auto simp: runnable_def)
  then show ?thesis
  proof cases
    case 1
    then show ?thesis by (simp add: schedule_def chosen_def refilled_def Let_def)
  next
    case 2
    then have "sched_repeat (run_queue s) (tasks ?s1)
        = Some (tasks ?s1, Some (first_max (\<lambda>t. counter (tasks ?s1 t)) (run_queue s)))"
      by (intro select_positive) (simp only: c)
    moreover from 2 have "run_queue s \<noteq> []" "runnable s" by (auto simp: runnable_def)
    ultimately show ?thesis using 2
      by (simp add: schedule_def chosen_def refilled_def Let_def c del: upd_task_sel(1))
  next
    case 3
    have "sched_repeat (run_queue s) (tasks ?s1)
        = Some (refill (run_queue s) (tasks ?s1), Some (first_max (\<lambda>t. priority (tasks ?s1 t)) (run_queue s)))"
      by (intro select_refilled) (use 3 in \<open>auto simp: runnable_def not_less simp del: upd_task_sel(1) simp: c\<close>)
    moreover from 3 have "run_queue s \<noteq> []" by (auto simp: runnable_def)
    ultimately show ?thesis using 3
      by (simp add: schedule_def chosen_def refilled_def Let_def c del: upd_task_sel(1))
  next
    case 4
    have "sched_repeat (run_queue s) (tasks ?s1) = None"
    proof (cases "sched_repeat (run_queue s) (tasks ?s1)")
      case (Some r)
      from sched_repeat_returns_only [OF this] 4(2) show ?thesis by (auto simp: runnable_def c simp del: upd_task_sel(1))
    qed
    with 4 show ?thesis by (simp add: schedule_def Let_def del: upd_task_sel(1))
  qed
qed

section \<open>Properties\<close>

lemma refilled_sel:
  "(\<exists>t\<in>set (run_queue s). 0 < counter (tasks s t)) \<Longrightarrow> counter (refilled s t) = counter (tasks s t)"
  "\<not> (\<exists>t\<in>set (run_queue s). 0 < counter (tasks s t)) \<Longrightarrow>
     counter (refilled s t) = (if t \<in> set (run_queue s) then priority (tasks s t) else counter (tasks s t))"
  by (simp_all add: refilled_def refill_apply)

lemma refilled_other:
  "refilled s t = (tasks s t)\<lparr>counter := counter (refilled s t)\<rparr>"
  by (simp add: refilled_def refill_apply)

text \<open>A machine with the idle task, two user tasks and a kernel thread, the tasks 1 to 3 runnable.\<close>

definition blank_task :: task_struct where
  "blank_task = \<lparr>need_sched = False, signal = 0, esp0 = 0, pg_dir = 0, blocked = 0, blocked_saved = 0,
     sigactions = replicate SIGNR \<lparr>sa_handler = SIG_DFL, sa_mask = 0, sa_flags = 0\<rparr>, tstate = TASK_RUNNING,
     priority = 10, counter = 0, mm = \<lparr>mmap_num = 0, mmap = []\<rparr>, start_time = 0, stime = 0, utime = 0,
     cstime = 0, cutime = 0, alarm_expire = 0, uids = (0, 0, 0), gids = (0, 0, 0), pwd = None, root = None,
     filp = [], fflags = [], umask = 0, exit_code = 0, pid = 0, ppid = 0, clist = [], pgid = 0, tty = 0,
     session = 0, sleep_spot = None, rlims = [], sleep_eip = 0, chk = False, kernel = True, i387 = Fpu_init,
     bitmap = replicate 128 0, myname = []\<rparr>"

definition demo :: sched where
  "demo =
     \<lparr>tasks = (\<lambda>t. blank_task)
        (1 := blank_task\<lparr>pid := 1, counter := 3, kernel := False, pg_dir := 0x1000\<rparr>,
         2 := blank_task\<lparr>pid := 2, ppid := 1, counter := 7, kernel := False, pg_dir := 0x2000\<rparr>,
         3 := blank_task\<lparr>pid := 3, ppid := 1, counter := 7\<rparr>),
      slots = (\<lambda>t. t \<le> 3), current = 1, run_queue = [1, 2, 3], wait_queues = (\<lambda>_. []),
      pg_links = \<lparr>lprev = id, lnext = id\<rparr>, tty_owner = (\<lambda>_. 0),
      tss = \<lparr>tss_esp0 = 0, tss_ss0 = 0x10, tss_iobase = 104, tss_bitmap = replicate 132 0\<rparr>,
      cr3 = 0x1000, fpu = Fpu_image 5, nested_intnum = 0\<rparr>"

lemma demo_sel [simp]:
  "run_queue demo = [1, 2, 3]" "current demo = 1" "cr3 demo = 0x1000" "fpu demo = Fpu_image 5"
  "tss_esp0 (tss demo) = 0" "tss_bitmap (tss demo) = replicate 132 0" "wait_queues demo q = []"
  "counter (tasks demo t) = (if t = 1 then 3 else if t = 2 \<or> t = 3 then 7 else 0)"
  "kernel (tasks demo t) \<longleftrightarrow> t \<noteq> 1 \<and> t \<noteq> 2" "bitmap (tasks demo t) = replicate 128 0" "esp0 (tasks demo t) = 0"
  "pg_dir (tasks demo t) = (if t = 1 then 0x1000 else if t = 2 then 0x2000 else 0)"
  "priority (tasks demo t) = 10" "i387 (tasks demo t) = Fpu_init"
  by (simp_all add: demo_def blank_task_def)

text \<open>C6: which task \<open>schedule\<close> gives the processor. With an empty run queue it is the idle
  task. Otherwise it is the first task of the queue with the largest positive counter; if no
  counter is positive, every runnable task first gets its priority as counter. If no priority is
  positive either, the call never returns.\<close>

theorem schedule_selects:
  "if run_queue s = [] then \<exists>s'. schedule s = Some s' \<and> current s' = IDLEPID
   else if \<exists>t\<in>set (run_queue s). 0 < counter (tasks s t)
   then \<exists>s'. schedule s = Some s' \<and> current s' = first_max (\<lambda>t. counter (tasks s t)) (run_queue s)
     \<and> run_queue s' = run_queue s \<and> (\<forall>t. counter (tasks s' t) = counter (tasks s t))
   else if \<exists>t\<in>set (run_queue s). 0 < priority (tasks s t)
   then \<exists>s'. schedule s = Some s' \<and> current s' = first_max (\<lambda>t. priority (tasks s t)) (run_queue s)
     \<and> run_queue s' = run_queue s
     \<and> (\<forall>t. counter (tasks s' t) = (if t \<in> set (run_queue s) then priority (tasks s t) else counter (tasks s t)))
   else schedule s = None"
proof -
  let ?s1 = "upd_task (current s) (\<lambda>t. t\<lparr>need_sched := False\<rparr>) s"
  have c: "counter (tasks ?s1 t) = counter (tasks s t)" "priority (tasks ?s1 t) = priority (tasks s t)" for t
    by simp_all
  consider "run_queue s = []" | "\<exists>t\<in>set (run_queue s). 0 < counter (tasks s t)"
    | "run_queue s \<noteq> []" "\<not> (\<exists>t\<in>set (run_queue s). 0 < counter (tasks s t))" by auto
  then show ?thesis
  proof cases
    case 1
    then show ?thesis by (simp add: schedule_eq Let_def chosen_def)
  next
    case 2
    then have "run_queue s \<noteq> []" "runnable s" by (auto simp: runnable_def)
    moreover have "counter (refilled ?s1 t) = counter (tasks s t)" for t
      using refilled_sel(1) [of ?s1 t] 2 by (simp add: c del: upd_task_sel(1))
    ultimately show ?thesis using 2 by (simp add: schedule_eq Let_def chosen_def switch_task_tasks)
  next
    case 3
    have "counter (refilled ?s1 t) = (if t \<in> set (run_queue s) then priority (tasks s t) else counter (tasks s t))" for t
      using refilled_sel(2) [of ?s1 t] 3(2) by (simp add: c del: upd_task_sel(1))
    moreover have "runnable s \<longleftrightarrow> (\<exists>t\<in>set (run_queue s). 0 < priority (tasks s t))"
      using 3(2) by (auto simp: runnable_def)
    ultimately show ?thesis using 3 by (simp add: schedule_eq Let_def chosen_def switch_task_tasks)
  qed
qed

theorem schedule_selects_witness:
  "\<exists>s'. schedule demo = Some s' \<and> current s' = 2"
  using schedule_selects [of demo] by (auto simp: first_max_def)

text \<open>The registers a user task relies on, and the floating-point contents it owns.\<close>

definition context_loaded :: "sched \<Rightarrow> bool" where
  "context_loaded s \<longleftrightarrow>
     (let c = tasks s (current s) in
      kernel c \<or> (cr3 s = pg_dir c \<and> tss_esp0 (tss s) = esp0 c \<and> take 128 (tss_bitmap (tss s)) = bitmap c))"

definition fpu_of :: "sched \<Rightarrow> nat \<Rightarrow> fpu_image" where
  "fpu_of s t = (if t = current s \<and> \<not> kernel (tasks s t) then fpu s else i387 (tasks s t))"

lemma refilled_sched_off:
  assumes "s1 = upd_task c (\<lambda>t. t\<lparr>need_sched := False\<rparr>) s"
  shows "kernel (refilled s1 t) = kernel (tasks s t)" "i387 (refilled s1 t) = i387 (tasks s t)"
    "pg_dir (refilled s1 t) = pg_dir (tasks s t)" "esp0 (refilled s1 t) = esp0 (tasks s t)"
    "bitmap (refilled s1 t) = bitmap (tasks s t)"
  by (subst refilled_other, simp add: assms)+

text \<open>C7: a context switch keeps user tasks apart. Whatever task \<open>schedule\<close> picks, every user task
  keeps the floating-point contents it owns, and the task that runs next, if it is a user task, has
  its own page directory, kernel stack and port bitmap loaded.\<close>

theorem schedule_context:
  assumes "schedule s = Some s'" and "context_loaded s"
    and "\<forall>t. length (bitmap (tasks s t)) = 128"
  shows "context_loaded s' \<and> (\<forall>t. \<not> kernel (tasks s t) \<longrightarrow> fpu_of s' t = fpu_of s t)"
proof -
  define s1 where "s1 = upd_task (current s) (\<lambda>t. t\<lparr>need_sched := False\<rparr>) s"
  define s2 where "s2 = s1\<lparr>tasks := refilled s1, current := chosen s\<rparr>"
  note r = refilled_sched_off [OF s1_def]
  have s': "s' = switch_task (current s) (chosen s) s2"
    using assms(1) by (auto simp: schedule_eq Let_def s1_def s2_def split: if_splits)
  have o: "cr3 s2 = cr3 s" "tss s2 = tss s" "fpu s2 = fpu s" by (simp_all add: s1_def s2_def)
  show ?thesis
  proof (cases "current s = chosen s")
    case True
    then have "s' = s2" by (simp add: s' switch_task_def)
    then show ?thesis using assms(2) True o
      by (auto simp: context_loaded_def fpu_of_def Let_def r s2_def)
  next
    case False
    then show ?thesis using assms(3) o
      by (auto simp: s' context_loaded_def fpu_of_def Let_def r s2_def switch_task_def memcpy_at_def)
  qed
qed

theorem schedule_context_witness:
  "\<exists>s'. schedule demo = Some s' \<and> context_loaded s' \<and> fpu_of s' 1 = Fpu_image 5"
proof -
  have "runnable demo" by (auto simp: runnable_def)
  then obtain s' where s': "schedule demo = Some s'" by (simp add: schedule_eq Let_def)
  have "context_loaded demo" by (simp add: context_loaded_def)
  from schedule_context [OF s' this] s' show ?thesis by (auto simp: fpu_of_def)
qed

end
