(* ===== verification/Signal.thy ===== *)
theory Signal
  imports Sched
begin

text \<open>
  Signals, \<open>kernel/signal.c\<close> and the signal system calls of \<open>kernel/syscall.c\<close>. User memory
  is a function from the address of a word to the word; the accesses to one signal frame
  all have the same alignment. A signal number in the kernel is one less than the number of
  the interface. \<open>do_exit\<close> is in another component: a signal that kills is reported with the
  argument of that call.
\<close>

section \<open>Definitions\<close>

datatype sig_default = TO_IGN | TO_KILL | TO_CORE

definition def_action :: "sig_default list" where
  "def_action = replicate 16 TO_KILL @ replicate 6 TO_IGN @ replicate 10 TO_KILL"

definition SIGKILL :: nat where "SIGKILL = 9"
definition SIGCHLD :: nat where "SIGCHLD = 17"
definition SIGSTOP :: nat where "SIGSTOP = 19"
definition SIGALRM :: nat where "SIGALRM = 14"

record regs_t =
  r_ebx :: u32
  r_ecx :: u32
  r_edx :: u32
  r_esi :: u32
  r_edi :: u32
  r_ebp :: u32
  r_eax :: u32
  r_ds :: u32
  r_es :: u32
  r_index :: u32
  r_eip :: u32
  r_cs :: u32
  r_eflags :: u32
  r_esp :: u32
  r_ss :: u32

type_synonym umem = "u32 \<Rightarrow> u32"

fun write_words :: "u32 \<Rightarrow> u32 list \<Rightarrow> umem \<Rightarrow> umem" where
  "write_words a [] m = m"
| "write_words a (w # ws) m = write_words (a + 4) ws (m(a := w))"

definition store_regs :: "u32 \<Rightarrow> regs_t \<Rightarrow> umem \<Rightarrow> umem" where
  "store_regs a r =
     write_words a [r_ebx r, r_ecx r, r_edx r, r_esi r, r_edi r, r_ebp r, r_eax r, r_ds r, r_es r,
       r_index r, r_eip r, r_cs r, r_eflags r, r_esp r, r_ss r]"

definition load_regs :: "u32 \<Rightarrow> umem \<Rightarrow> regs_t" where
  "load_regs a m =
     \<lparr>r_ebx = m a, r_ecx = m (a + 4), r_edx = m (a + 8), r_esi = m (a + 12), r_edi = m (a + 16),
      r_ebp = m (a + 20), r_eax = m (a + 24), r_ds = m (a + 28), r_es = m (a + 32), r_index = m (a + 36),
      r_eip = m (a + 40), r_cs = m (a + 44), r_eflags = m (a + 48), r_esp = m (a + 52), r_ss = m (a + 56)\<rparr>"

text \<open>The search for a pending signal that is not blocked, from number \<open>n\<close> on.\<close>

function scan_sig :: "u32 \<Rightarrow> u32 \<Rightarrow> nat \<Rightarrow> nat" where
  "scan_sig sig blk n =
     (if n < SIGNR \<and> \<not> (sig AND push_bit n 1 \<noteq> 0 \<and> blk AND push_bit n 1 = 0)
      then scan_sig sig blk (n + 1) else n)"
  by pat_completeness auto
termination by (relation "measure (\<lambda>(sig, blk, n). SIGNR - n)") auto

declare scan_sig.simps [simp del]

lemma scan_sig_ge: "n \<le> scan_sig sig blk n"
proof (induction sig blk n rule: scan_sig.induct)
  case (1 sig blk n)
  then show ?case by (subst scan_sig.simps) auto
qed

lemma scan_sig_less: "scan_sig sig blk n < SIGNR \<Longrightarrow> SIGNR - (scan_sig sig blk n + 1) < SIGNR - n"
  using scan_sig_ge [of n sig blk] by arith

datatype sig_choice = Sig_none | Sig_kill int | Sig_catch nat

text \<open>The loop around the label \<open>check_again\<close> of \<open>do_with_signal\<close> for the current task.\<close>

function sig_select :: "nat \<Rightarrow> task_struct \<Rightarrow> task_struct \<times> sig_choice" where
  "sig_select from t =
     (let n = scan_sig (signal t) (blocked t) from in
      if n \<ge> SIGNR then (t, Sig_none)
      else
        let t1 = t\<lparr>signal := signal t AND NOT (push_bit n 1)\<rparr> in
        if pid t1 \<le> 1 then (t1, Sig_none)
        else
          let handler = sa_handler (sigactions t1 ! n);
              again = (if signal t1 \<noteq> 0 then sig_select (n + 1) t1 else (t1, Sig_none))
          in if handler = SIG_IGN then again
             else if handler = SIG_DFL
             then (case def_action ! n of TO_IGN \<Rightarrow> again | _ \<Rightarrow> (t1, Sig_kill (int n + 1)))
             else (t1, Sig_catch n))"
  by pat_completeness auto
termination
  by (relation "measure (\<lambda>(from, t). SIGNR - from)")
    (simp_all only: in_measure prod.case not_le scan_sig_less wf_measure)

declare sig_select.simps [simp del]

text \<open>The frame on the user stack: the saved registers and below them \<open>struct sigframe\<close>.\<close>

definition push_frame :: "nat \<Rightarrow> regs_t \<Rightarrow> umem \<Rightarrow> umem \<times> u32" where
  "push_frame n regs m0 =
     (let regsave = r_esp regs - 60;
          m1 = store_regs regsave regs m0;
          frame = regsave - 52;
          m2 = write_words frame [frame + 16, of_nat n + 1, - 1, 0, 0x000077b8] m1;
          m3 = m2(frame + 20 := (m2 (frame + 20) AND 0xff000000) OR 0x0080cd00);
          m4 = m3(frame + 48 := 0)
      in (m4, frame))"

datatype signalled = Unchanged | Exits int | Handler regs_t umem

definition do_with_signal :: "regs_t \<Rightarrow> umem \<Rightarrow> sched \<Rightarrow> (sched \<times> signalled) kres" where
  "do_with_signal oldregs m s =
     (if signal (tasks s (current s)) = 0 then Inl DIE
      else
        let (t, c) = sig_select 0 (tasks s (current s));
            s1 = upd_task (current s) (\<lambda>_. t) s
        in case c of
             Sig_none \<Rightarrow> Inr (s1, Unchanged)
           | Sig_kill code \<Rightarrow> Inr (s1, Exits code)
           | Sig_catch n \<Rightarrow>
               let s2 = upd_task (current s) (\<lambda>t. t\<lparr>blocked_saved := blocked t, blocked := sa_mask (sigactions t ! n)\<rparr>) s1;
                   (m', frame) = push_frame n oldregs m
               in Inr (s2, Handler (oldregs\<lparr>r_eip := sa_handler (sigactions t ! n), r_esp := frame\<rparr>) m'))"

definition do_sigreturn :: "regs_t \<Rightarrow> umem \<Rightarrow> sched \<Rightarrow> sched \<times> regs_t" where
  "do_sigreturn regs m s =
     (let regsave = (r_esp regs - 4) + 52;
          r = load_regs regsave m
      in if r_cs r = 0x1b
         then (upd_task (current s)
                 (\<lambda>t. if blocked_saved t \<noteq> 0 then t\<lparr>blocked := blocked_saved t, blocked_saved := 0\<rparr> else t) s,
               r\<lparr>r_ds := 0x23, r_es := 0x23, r_ss := 0x23\<rparr>)
         else (s, regs))"

text \<open>\<open>anysig\<close>; its parameter is not used.\<close>

function anysig_loop :: "nat \<Rightarrow> task_struct \<Rightarrow> bool" where
  "anysig_loop from t =
     (let n = scan_sig (signal t) (blocked t) from in
      if n \<ge> SIGNR then False
      else
        let handler = sa_handler (sigactions t ! n);
            again = (if signal t \<noteq> 0 then anysig_loop (n + 1) t else False)
        in if handler = SIG_IGN then again
           else if handler = SIG_DFL
           then (case def_action ! n of TO_IGN \<Rightarrow> again | _ \<Rightarrow> True)
           else True)"
  by pat_completeness auto
termination
  by (relation "measure (\<lambda>(from, t). SIGNR - from)")
    (simp_all only: in_measure prod.case not_le scan_sig_less wf_measure)

declare anysig_loop.simps [simp del]

definition anysig :: "sched \<Rightarrow> bool" where
  "anysig s = (signal (tasks s (current s)) \<noteq> 0 \<and> anysig_loop 0 (tasks s (current s)))"

definition ignored :: "task_struct \<Rightarrow> nat \<Rightarrow> bool" where
  "ignored t n \<longleftrightarrow>
     (let handler = sa_handler (sigactions t ! n)
      in handler = SIG_IGN \<or> (handler = SIG_DFL \<and> def_action ! n = TO_IGN))"

definition sendsig :: "nat \<Rightarrow> int \<Rightarrow> sched \<Rightarrow> sched kres" where
  "sendsig t signum s =
     (if signum \<le> 0 then Inl DIE
      else if signum > int SIGNR then Inl Overrun
      else
        let n = nat (signum - 1) in
        if ignored (tasks s t) n then Inr s
        else
          let s1 = upd_task t (\<lambda>k. k\<lparr>signal := signal k OR push_bit n 1\<rparr>) s
          in Inr (if t \<noteq> current s1 then wakeup (sleep_spot (tasks s1 t)) s1 else s1))"

section \<open>Signal system calls\<close>

definition ESRCH :: int where "ESRCH = 3"
definition EFAULT :: int where "EFAULT = 14"

definition SIG_ERR :: u32 where "SIG_ERR = - 1"
definition USER_ADDR :: u32 where "USER_ADDR = 0x40000000"
definition CANNOTBLOCKSIG :: u32 where
  "CANNOTBLOCKSIG = push_bit (SIGKILL - 1) 1 OR push_bit (SIGSTOP - 1) 1"

definition cklimit :: "sched \<Rightarrow> u32 \<Rightarrow> bool" where
  "cklimit s param \<longleftrightarrow> chk (tasks s (current s)) \<and> param \<ge> 4096 \<and> param < USER_ADDR"

definition ckoverflow :: "sched \<Rightarrow> u32 \<Rightarrow> u32 \<Rightarrow> bool" where
  "ckoverflow s param n \<longleftrightarrow> chk (tasks s (current s)) \<and> param \<noteq> 0 \<and> param + n < param"

text \<open>A system call that goes to sleep stops at the call of \<open>schedule\<close>.\<close>

datatype 'a syscall = Returns int 'a | Blocks 'a

definition upd_current :: "(task_struct \<Rightarrow> task_struct) \<Rightarrow> sched \<Rightarrow> sched" where
  "upd_current f s = upd_task (current s) f s"

definition set_sigaction :: "nat \<Rightarrow> sigaction \<Rightarrow> task_struct \<Rightarrow> task_struct" where
  "set_sigaction i a t = t\<lparr>sigactions := (sigactions t)[i := a]\<rparr>"

definition sys_signal :: "int \<Rightarrow> u32 \<Rightarrow> sched \<Rightarrow> sched \<times> u32" where
  "sys_signal signum handler s =
     (if signum < 1 \<or> signum > int SIGNR then (s, SIG_ERR)
      else if cklimit s handler then (s, SIG_ERR)
      else
        let i = nat (signum - 1);
            a = sigactions (tasks s (current s)) ! i
        in (upd_current (set_sigaction i (a\<lparr>sa_handler := handler\<rparr>)) s, sa_handler a))"

definition load_sigaction :: "u32 \<Rightarrow> umem \<Rightarrow> sigaction" where
  "load_sigaction a m = \<lparr>sa_handler = m a, sa_mask = m (a + 4), sa_flags = m (a + 8)\<rparr>"

definition store_sigaction :: "u32 \<Rightarrow> sigaction \<Rightarrow> umem \<Rightarrow> umem" where
  "store_sigaction a x m = write_words a [sa_handler x, sa_mask x, sa_flags x] m"

text \<open>Pointers are addresses, 0 the null pointer.\<close>

definition sys_sigaction :: "int \<Rightarrow> u32 \<Rightarrow> u32 \<Rightarrow> umem \<Rightarrow> sched \<Rightarrow> sched \<times> umem \<times> int" where
  "sys_sigaction signum act oact m s =
     (if signum < 1 \<or> signum > int SIGNR then (s, m, - EINVAL)
      else if oact \<noteq> 0 \<and> (cklimit s oact \<or> ckoverflow s oact 12) then (s, m, - EFAULT)
      else
        let i = nat (signum - 1);
            m1 = (if oact \<noteq> 0 then store_sigaction oact (sigactions (tasks s (current s)) ! i) m else m)
        in if act \<noteq> 0 then
             (if cklimit s act then (s, m1, - EFAULT)
              else if cklimit s (sa_handler (load_sigaction act m1)) then (s, m1, - EFAULT)
              else
                let a = load_sigaction act m1
                in (upd_current (set_sigaction i (a\<lparr>sa_mask := sa_mask a AND NOT CANNOTBLOCKSIG\<rparr>)) s, m1, 0))
           else (s, m1, 0))"

definition sys_sigprocmask :: "int \<Rightarrow> u32 \<Rightarrow> u32 \<Rightarrow> umem \<Rightarrow> sched \<Rightarrow> sched \<times> umem \<times> int" where
  "sys_sigprocmask how pset oset m s =
     (if oset \<noteq> 0 \<and> (cklimit s oset \<or> ckoverflow s oset 4) then (s, m, - EFAULT)
      else
        let m1 = (if oset \<noteq> 0 then m(oset := blocked (tasks s (current s))) else m) in
        if pset = 0 then (s, m1, 0)
        else if cklimit s pset \<or> ckoverflow s pset 4 then (s, m1, - EFAULT)
        else if how = 0 \<or> how = 1 \<or> how = 2 then
          (upd_current (\<lambda>t. t\<lparr>blocked :=
              (if how = 0 then blocked t OR m1 pset
               else if how = 1 then blocked t AND NOT (m1 pset) else m1 pset) AND NOT CANNOTBLOCKSIG\<rparr>) s, m1, 0)
        else (s, m1, - EINVAL))"

definition sys_sigpending :: "u32 \<Rightarrow> umem \<Rightarrow> sched \<Rightarrow> umem \<times> int" where
  "sys_sigpending pset m s =
     (if cklimit s pset \<or> ckoverflow s pset 4 then (m, - EFAULT)
      else (m(pset := signal (tasks s (current s))), 0))"

text \<open>The queue head \<open>wq\<close> is the variable \<open>wait\<close> on the caller's stack.\<close>

definition sys_pause :: "u32 \<Rightarrow> nat \<Rightarrow> sched \<Rightarrow> sched syscall kres" where
  "sys_pause ret wq s =
     kbind (sleepon ret (Some wq) (upd_current (\<lambda>t. t\<lparr>sleep_spot := Some wq\<rparr>) s)) (\<lambda>s1. Inr (Blocks s1))"

definition sys_sigsuspend :: "u32 \<Rightarrow> nat \<Rightarrow> u32 \<Rightarrow> umem \<Rightarrow> sched \<Rightarrow> sched syscall kres" where
  "sys_sigsuspend ret wq sigmask m s =
     (if sigmask = 0 then Inr (Returns (- EFAULT) s)
      else if cklimit s sigmask \<or> ckoverflow s sigmask 4 then Inr (Returns (- EFAULT) s)
      else
        let s1 = upd_current (\<lambda>t. t\<lparr>blocked_saved := blocked t, blocked := m sigmask AND NOT CANNOTBLOCKSIG\<rparr>) s;
            s2 = upd_current (\<lambda>t. t\<lparr>sleep_spot := Some wq\<rparr>) s1
        in kbind (sleepon ret (Some wq) s2) (\<lambda>s3. Inr (Blocks s3)))"

text \<open>The part of \<open>sys_pause\<close> and \<open>sys_sigsuspend\<close> after the task is woken.\<close>

definition sleep_interrupted :: "nat \<Rightarrow> sched \<Rightarrow> sched syscall kres" where
  "sleep_interrupted wq s = kbind (sleep_end wq s) (\<lambda>s1. Inr (Returns (- EINTR) s1))"

text \<open>The macros \<open>foreach\<close> and \<open>endeach\<close> walk a ring that has no head node.\<close>

partial_function (option) foreach_ring :: "(nat \<Rightarrow> sched \<Rightarrow> sched kres) \<Rightarrow> nat \<Rightarrow> nat \<Rightarrow> sched \<Rightarrow> sched kres option" where
  "foreach_ring body l pos s =
     (let nxt = lnext (pg_links s) pos in
      case body pos s of
        Inl e \<Rightarrow> Some (Inl e)
      | Inr s1 \<Rightarrow> if nxt \<noteq> l then foreach_ring body l nxt s1 else Some (Inr s1))"

definition may_signal :: "task_struct \<Rightarrow> task_struct \<Rightarrow> bool" where
  "may_signal c t \<longleftrightarrow> fst (snd (uids c)) = SU_UID \<or> fst (snd (uids c)) = fst (snd (uids t)) \<or> fst (uids c) = fst (uids t)"

text \<open>\<open>sys_kill\<close>; an index outside \<open>task[]\<close> is an overrun, \<open>None\<close> a walk that does not end.\<close>

definition sys_kill :: "int \<Rightarrow> int \<Rightarrow> sched \<Rightarrow> (sched \<times> int) kres option" where
  "sys_kill p signum s =
     (let c = tasks s (current s);
          fin = map_option (\<lambda>r. kbind r (\<lambda>s1. Inr (s1, 0)))
      in
      if signum < 1 \<or> signum > int SIGNR then Some (Inr (s, - EINVAL))
      else if p = 0 \<and> fst (snd (uids c)) \<noteq> SU_UID then Some (Inr (s, - EPERM))
      else if p < 0 then
        (if p \<ge> - 1 then Some (Inr (s, - EINVAL))
         else
           let q = nat (- p) in
           if q \<ge> NR_TASKS then Some (Inl Overrun)
           else if \<not> slots s q \<or> pgid (tasks s q) \<noteq> q then Some (Inr (s, - ESRCH))
           else if \<not> may_signal c (tasks s q) then Some (Inr (s, - EPERM))
           else fin (foreach_ring (\<lambda>t. sendsig t signum) q q s))
      else
        let q = nat p in
        if q \<ge> NR_TASKS then Some (Inl Overrun)
        else if \<not> slots s q then Some (Inr (s, - ESRCH))
        else if \<not> may_signal c (tasks s q) then Some (Inr (s, - EPERM))
        else fin (Some (sendsig q signum s)))"

section \<open>Which signal is delivered\<close>

definition live :: "task_struct \<Rightarrow> nat \<Rightarrow> bool" where
  "live t n \<longleftrightarrow> bit (signal t) n \<and> \<not> bit (blocked t) n \<and> \<not> ignored t n"

lemma scan_sig_spec:
  assumes "n \<le> SIGNR" and "r = scan_sig sig blk n"
  shows "n \<le> r \<and> r \<le> SIGNR \<and> (\<forall>k. n \<le> k \<and> k < r \<longrightarrow> bit sig k \<longrightarrow> bit blk k)
    \<and> (r < SIGNR \<longrightarrow> bit sig r \<and> \<not> bit blk r)"
  using assms
proof (induction sig blk n arbitrary: r rule: scan_sig.induct)
  case (1 sig blk n)
  show ?case
  proof (cases "n < SIGNR \<and> \<not> (bit sig n \<and> \<not> bit blk n)")
    case True
    then have r: "r = scan_sig sig blk (n + 1)" using "1.prems"
      by (subst (asm) scan_sig.simps) (auto simp: and_exp_eq_0_iff_not_bit)
    have "n < SIGNR \<and> \<not> (sig AND push_bit n 1 \<noteq> 0 \<and> blk AND push_bit n 1 = 0)"
      using True by (auto simp: and_exp_eq_0_iff_not_bit)
    from "1.IH" [OF this _ r] True show ?thesis
      by (auto simp: Suc_le_eq) (metis le_neq_implies_less)+
  next
    case False
    then have "r = n" using "1.prems"
      by (subst (asm) scan_sig.simps) (auto simp: and_exp_eq_0_iff_not_bit)
    with False "1.prems" show ?thesis by auto
  qed
qed

lemma find_upt_split:
  assumes "m \<le> n" and "n < k" and "\<And>i. m \<le> i \<Longrightarrow> i < n \<Longrightarrow> \<not> P i"
  shows "find P [m..<k] = (if P n then Some n else find P [Suc n..<k])"
proof -
  have "[m..<n + (k - n)] = [m..<n] @ [n..<n + (k - n)]" by (rule upt_add_eq_append [OF assms(1)])
  then have "[m..<k] = [m..<n] @ n # [Suc n..<k]" using assms(2) by (simp add: upt_conv_Cons)
  moreover have "find P [m..<n] = None" using assms(3) by (simp add: find_None_iff)
  moreover have "find P (xs @ ys) = (case find P xs of None \<Rightarrow> find P ys | Some x \<Rightarrow> Some x)" for xs ys
    by (induction xs) auto
  ultimately show ?thesis by simp
qed

lemma live_clear:
  "k \<noteq> n \<Longrightarrow> live (t\<lparr>signal := signal t AND NOT (push_bit n 1)\<rparr>) k = live t k"
  by (auto simp: live_def ignored_def bit_simps dest: bit_imp_le_length)

lemma sig_select_from:
  assumes "from \<le> SIGNR" and "1 < pid t"
  shows "sig_select from t =
    (case find (live t) [from..<SIGNR] of
       None \<Rightarrow> (t\<lparr>signal := signal t AND (blocked t OR mask from)\<rparr>, Sig_none)
     | Some n \<Rightarrow> (t\<lparr>signal := signal t AND (blocked t OR mask from OR NOT (mask (Suc n)))\<rparr>,
         if sa_handler (sigactions t ! n) = SIG_DFL then Sig_kill (int n + 1) else Sig_catch n))"
  using assms
proof (induction "from" t rule: sig_select.induct)
  case (1 "from" t)
  define n where "n = scan_sig (signal t) (blocked t) from"
  define t1 where "t1 = t\<lparr>signal := signal t AND NOT (push_bit n 1)\<rparr>"
  note sp = scan_sig_spec [OF "1.prems"(1) n_def]
  have skip: "\<not> live t k" if "from \<le> k" "k < n" for k using sp that by (auto simp: live_def)
  show ?case
  proof (cases "n < SIGNR")
    case False
    then have "n = SIGNR" using sp by simp
    then have "find (live t) [from..<SIGNR] = None" using skip by (simp add: find_None_iff)
    moreover have "signal t AND (blocked t OR mask from) = signal t"
      using sp \<open>n = SIGNR\<close> by (intro bit_word_eqI) (auto simp: bit_simps SIGNR_def not_less)
    ultimately show ?thesis using False by (subst sig_select.simps) (simp flip: n_def)
  next
    case True
    then have bn: "from \<le> n" "bit (signal t) n" "\<not> bit (blocked t) n" using sp by auto
    have pend: "bit (signal t) k \<Longrightarrow> k < n \<Longrightarrow> \<not> bit (blocked t) k \<Longrightarrow> k < from" for k
      using sp by (metis not_less)
    have fd: "find (live t) [from..<SIGNR] = (if live t n then Some n else find (live t) [Suc n..<SIGNR])"
      by (rule find_upt_split) (use True bn skip in auto)
    have fd1: "find (live t1) [Suc n..<SIGNR] = find (live t) [Suc n..<SIGNR]"
      by (rule find_cong) (auto simp: t1_def live_clear simp del: push_bit_of_1)
    have b: "bit (signal t1) i \<longleftrightarrow> bit (signal t) i \<and> i \<noteq> n" for i
      by (auto simp: t1_def bit_simps dest: bit_imp_le_length)
    have w1: "signal t1 AND (blocked t OR mask (Suc n)) = signal t AND (blocked t OR mask from)"
    proof (rule bit_word_eqI)
      show "bit (signal t1 AND (blocked t OR mask (Suc n))) i = bit (signal t AND (blocked t OR mask from)) i" for i
        using bn pend [of i] by (auto simp: b bit_simps dest: bit_imp_le_length)
    qed
    have w2: "signal t1 AND (blocked t OR mask (Suc n) OR NOT (mask (Suc k))) =
        signal t AND (blocked t OR mask from OR NOT (mask (Suc k)))" if "n < k" for k
    proof (rule bit_word_eqI)
      show "bit (signal t1 AND (blocked t OR mask (Suc n) OR NOT (mask (Suc k)))) i =
          bit (signal t AND (blocked t OR mask from OR NOT (mask (Suc k)))) i" for i
        using bn that pend [of i] by (auto simp: b bit_simps dest: bit_imp_le_length)
    qed
    have w0: "signal t1 = signal t AND (blocked t OR mask from OR NOT (mask (Suc n)))"
    proof (rule bit_word_eqI)
      show "bit (signal t1) i = bit (signal t AND (blocked t OR mask from OR NOT (mask (Suc n)))) i" for i
        using bn pend [of i] by (auto simp: b bit_simps dest: bit_imp_le_length)
    qed
    have step: "sig_select from t =
      (let again = (if signal t1 \<noteq> 0 then sig_select (n + 1) t1 else (t1, Sig_none)) in
       if ignored t n then again
       else if sa_handler (sigactions t ! n) = SIG_DFL then (t1, Sig_kill (int n + 1)) else (t1, Sig_catch n))"
    proof -
      have "pid t1 = pid t" "sigactions t1 = sigactions t" by (simp_all add: t1_def)
      with True "1.prems"(2) show ?thesis
        by (subst sig_select.simps, simp only: Let_def flip: n_def, simp only: flip: t1_def)
          (auto simp: ignored_def Let_def SIG_IGN_def SIG_DFL_def split: sig_default.split)
    qed
    have t1: "t\<lparr>signal := x\<rparr> = t1\<lparr>signal := x\<rparr>" "blocked t1 = blocked t" "sigactions t1 = sigactions t" for x
      by (simp_all add: t1_def)
    show ?thesis
    proof (cases "ignored t n")
      case False
      then have "live t n" using bn by (simp add: live_def)
      then show ?thesis using False by (simp add: step fd t1 flip: w0)
    next
      case ig: True
      then have nl: "\<not> live t n" by (simp add: live_def)
      show ?thesis
      proof (cases "signal t1 = 0")
        case zero: True
        have "\<not> live t k" if "k \<in> set [Suc n..<SIGNR]" for k
          using b [of k] that zero by (auto simp: live_def)
        then have "find (live t) [Suc n..<SIGNR] = None" by (simp add: find_None_iff)
        moreover have "t1 = t1\<lparr>signal := 0\<rparr>" using zero [symmetric] by simp
        ultimately show ?thesis using ig zero nl w1 by (simp add: step fd t1)
      next
        case False
        have "sig_select (n + 1) t1 =
          (case find (live t1) [n + 1..<SIGNR] of
             None \<Rightarrow> (t1\<lparr>signal := signal t1 AND (blocked t1 OR mask (n + 1))\<rparr>, Sig_none)
           | Some k \<Rightarrow> (t1\<lparr>signal := signal t1 AND (blocked t1 OR mask (n + 1) OR NOT (mask (Suc k)))\<rparr>,
               if sa_handler (sigactions t1 ! k) = SIG_DFL then Sig_kill (int k + 1) else Sig_catch k))"
          by (rule "1.IH" [OF n_def _ t1_def _ refl]) (use True False "1.prems"(2) in \<open>auto simp: t1_def\<close>)
        moreover have "n < k" if "find (live t) [Suc n..<SIGNR] = Some k" for k
          using that by (auto simp: find_Some_iff)
        ultimately show ?thesis using ig False nl fd1
          by (cases "find (live t) [Suc n..<SIGNR]") (simp_all add: step fd t1 w1 w2)
      qed
    qed
  qed
qed

lemma anysig_loop_from:
  "from \<le> SIGNR \<Longrightarrow> anysig_loop from t \<longleftrightarrow> (\<exists>n\<ge>from. n < SIGNR \<and> live t n)"
proof (induction "from" t rule: anysig_loop.induct)
  case (1 "from" t)
  define n where "n = scan_sig (signal t) (blocked t) from"
  note sp = scan_sig_spec [OF "1.prems" n_def]
  have skip: "\<not> live t k" if "from \<le> k" "k < n" for k using sp that by (auto simp: live_def)
  show ?case
  proof (cases "n < SIGNR")
    case False
    then have "n = SIGNR" using sp by simp
    then show ?thesis using skip
      by (subst anysig_loop.simps) (auto simp flip: n_def)
  next
    case True
    then have bn: "from \<le> n" "bit (signal t) n" "\<not> bit (blocked t) n" using sp by auto
    then have nz: "signal t \<noteq> 0" by auto
    have ih: "anysig_loop (n + 1) t \<longleftrightarrow> (\<exists>k\<ge>n + 1. k < SIGNR \<and> live t k)"
      by (rule "1.IH" [OF n_def _ refl]) (use True nz in auto)
    have "anysig_loop from t \<longleftrightarrow> (if ignored t n then anysig_loop (n + 1) t else True)"
      using True nz
      by (subst anysig_loop.simps, simp only: Let_def flip: n_def)
        (auto simp: ignored_def Let_def SIG_IGN_def SIG_DFL_def split: sig_default.split)
    also have "\<dots> \<longleftrightarrow> (\<exists>k\<ge>from. k < SIGNR \<and> live t k)"
    proof (cases "ignored t n")
      case False
      then have "live t n" using bn by (simp add: live_def)
      then show ?thesis using False True bn by auto
    next
      case ig: True
      then have "\<not> live t n" by (simp add: live_def)
      then have "live t k \<Longrightarrow> from \<le> k \<Longrightarrow> n + 1 \<le> k" for k
        using skip [of k] by (cases k n rule: linorder_cases) auto
      moreover have "n + 1 \<le> k \<Longrightarrow> from \<le> k" for k using bn(1) by simp
      ultimately show ?thesis using ig ih by (simp only: if_True) blast
    qed
    finally show ?thesis .
  qed
qed

section \<open>The frame on the user stack\<close>

lemma push_frame_load:
  assumes "push_frame n regs m = (m', f)"
  shows "f = r_esp regs - 112" and "load_regs (f + 52) m' = regs"
proof -
  show f: "f = r_esp regs - 112" using assms by (simp add: push_frame_def Let_def)
  have e: "r_esp regs = f + 112" by (simp add: f)
  show "load_regs (f + 52) m' = regs"
    using assms by (auto simp: push_frame_def Let_def store_regs_def load_regs_def e)
qed

lemma sig_select_catch:
  assumes "sig_select 0 t = (t', Sig_catch n)"
  shows "t' = t\<lparr>signal := signal t'\<rparr>" and "live t n" and "n < SIGNR"
proof -
  have p: "1 < pid t"
  proof (rule ccontr)
    assume "\<not> 1 < pid t"
    with assms show False by (subst (asm) sig_select.simps) (auto simp: Let_def split: if_splits)
  qed
  show "t' = t\<lparr>signal := signal t'\<rparr>" "live t n" "n < SIGNR"
    using assms sig_select_from [OF le0 p] by (auto simp: find_Some_iff split: option.splits if_splits)
qed

text \<open>What a caught signal does to the task.\<close>

lemma do_with_signal_handler:
  assumes "do_with_signal regs m s = Inr (s', Handler regs' m')"
  obtains n x where "live (tasks s (current s)) n" "n < SIGNR"
    and "s' = upd_task (current s) (\<lambda>t. t\<lparr>signal := x, blocked_saved := blocked t, blocked := sa_mask (sigactions t ! n)\<rparr>) s"
    and "push_frame n regs m = (m', r_esp regs')" and "r_eip regs' = sa_handler (sigactions (tasks s (current s)) ! n)"
proof -
  let ?t = "tasks s (current s)"
  obtain t' c where sel: "sig_select 0 ?t = (t', c)" by fastforce
  with assms obtain n where c: "c = Sig_catch n"
    by (auto simp: do_with_signal_def Let_def split: if_splits sig_choice.splits)
  note sh = sig_select_catch [OF sel [unfolded c]]
  have t': "sigactions t' = sigactions ?t" "blocked t' = blocked ?t" by (subst sh(1), simp)+
  obtain m1 f where pf: "push_frame n regs m = (m1, f)" by fastforce
  have nz: "signal ?t \<noteq> 0" using assms by (auto simp: do_with_signal_def)
  have r: "regs' = regs\<lparr>r_eip := sa_handler (sigactions ?t ! n), r_esp := f\<rparr>" "m1 = m'"
    "s' = upd_task (current s) (\<lambda>t. t\<lparr>blocked_saved := blocked t, blocked := sa_mask (sigactions t ! n)\<rparr>)
       (upd_task (current s) (\<lambda>_. t') s)"
    using assms nz by (auto simp: do_with_signal_def Let_def sel c pf t')
  have "s' = upd_task (current s) (\<lambda>t. t\<lparr>signal := signal t', blocked_saved := blocked t,
      blocked := sa_mask (sigactions t ! n)\<rparr>) s"
    unfolding r(3) by (subst sh(1)) (simp add: upd_task_def)
  from that [OF sh(2,3) this] pf r show thesis by simp
qed

section \<open>Properties\<close>


definition demo_sig :: sched where
  "demo_sig = demo\<lparr>current := 2, tasks := (tasks demo)(2 := (tasks demo 2)\<lparr>signal := 0x10006, blocked := 2,
     sigactions := (replicate SIGNR \<lparr>sa_handler = SIG_DFL, sa_mask = 0, sa_flags = 0\<rparr>)
       [2 := \<lparr>sa_handler = 0x40001000, sa_mask = 8, sa_flags = 0\<rparr>]\<rparr>)\<rparr>"

lemma demo_sig_sel:
  "current demo_sig = 2" "pid (tasks demo_sig 2) = 2" "signal (tasks demo_sig 2) \<noteq> 0" "blocked (tasks demo_sig 2) = 2"
  "find (live (tasks demo_sig 2)) [0..<SIGNR] = Some 2" "sa_handler (sigactions (tasks demo_sig 2) ! 2) \<noteq> SIG_DFL"
proof -
  have t: "signal (tasks demo_sig 2) = 0x10006" "blocked (tasks demo_sig 2) = 2"
    "sa_handler (sigactions (tasks demo_sig 2) ! 2) = 0x40001000"
    by (simp_all add: demo_sig_def SIGNR_def)
  have "live (tasks demo_sig 2) 2" by (simp add: live_def ignored_def Let_def t SIG_DFL_def SIG_IGN_def)
  moreover have "\<not> live (tasks demo_sig 2) i" if "i < 2" for i
    using that by (auto simp: live_def t less_2_cases_iff)
  ultimately show "find (live (tasks demo_sig 2)) [0..<SIGNR] = Some 2"
    using find_upt_split [of 0 2 SIGNR "live (tasks demo_sig 2)"] by (simp add: SIGNR_def)
  show "current demo_sig = 2" "pid (tasks demo_sig 2) = 2" "signal (tasks demo_sig 2) \<noteq> 0"
    "blocked (tasks demo_sig 2) = 2" "sa_handler (sigactions (tasks demo_sig 2) ! 2) \<noteq> SIG_DFL"
    by (simp_all add: t SIG_DFL_def) (simp_all add: demo_sig_def demo_def)
qed


text \<open>C12: delivering a signal and returning from its handler restores the interrupted program. The
  handler starts with the stack pointer at the frame; when it returns to the code in the frame, the
  registers are the saved ones with the user data segments. The signal mask is the one before the
  signal, except if that was empty: then the mask of the handler stays in force.\<close>

theorem signal_frame_roundtrip:
  assumes "do_with_signal regs m s = Inr (s1, Handler regs1 m1)" and "r_cs regs = 0x1b"
    and "r_esp r = r_esp regs1 + 4"
  shows "\<exists>n s2. live (tasks s (current s)) n
    \<and> r_eip regs1 = sa_handler (sigactions (tasks s (current s)) ! n)
    \<and> do_sigreturn r m1 s1 = (s2, regs\<lparr>r_ds := 0x23, r_es := 0x23, r_ss := 0x23\<rparr>)
    \<and> blocked (tasks s2 (current s)) =
        (if blocked (tasks s (current s)) = 0 then sa_mask (sigactions (tasks s (current s)) ! n)
         else blocked (tasks s (current s)))"
proof -
  obtain n x where n: "live (tasks s (current s)) n"
    "s1 = upd_task (current s) (\<lambda>t. t\<lparr>signal := x, blocked_saved := blocked t, blocked := sa_mask (sigactions t ! n)\<rparr>) s"
    "push_frame n regs m = (m1, r_esp regs1)" "r_eip regs1 = sa_handler (sigactions (tasks s (current s)) ! n)"
    using assms(1) by (rule do_with_signal_handler)
  have "load_regs (r_esp regs1 + 52) m1 = regs" by (rule push_frame_load(2) [OF n(3)])
  then have "do_sigreturn r m1 s1 =
      (upd_task (current s1) (\<lambda>t. if blocked_saved t \<noteq> 0 then t\<lparr>blocked := blocked_saved t, blocked_saved := 0\<rparr> else t) s1,
       regs\<lparr>r_ds := 0x23, r_es := 0x23, r_ss := 0x23\<rparr>)"
    using assms(2,3) by (simp add: do_sigreturn_def Let_def)
  then show ?thesis using n(1,2,4) by (intro exI [of _ n] exI) (auto simp: n(2))
qed

definition demo_regs :: regs_t where
  "demo_regs = \<lparr>r_ebx = 1, r_ecx = 2, r_edx = 3, r_esi = 4, r_edi = 5, r_ebp = 6, r_eax = 7, r_ds = 0x23, r_es = 0x23,
     r_index = 8, r_eip = 0x40002000, r_cs = 0x1b, r_eflags = 0x202, r_esp = 0xbffff000, r_ss = 0x23\<rparr>"

lemma demo_sig_handler:
  obtains s1 regs1 m1 where "do_with_signal demo_regs m demo_sig = Inr (s1, Handler regs1 m1)"
proof -
  have "snd (sig_select 0 (tasks demo_sig 2)) = Sig_catch 2"
    using sig_select_from [of 0 "tasks demo_sig 2"] by (simp add: demo_sig_sel)
  then obtain t where "sig_select 0 (tasks demo_sig 2) = (t, Sig_catch 2)" by (metis prod.collapse)
  then have "\<exists>s1 regs1 m1. do_with_signal demo_regs m demo_sig = Inr (s1, Handler regs1 m1)"
    by (simp add: do_with_signal_def Let_def demo_sig_sel split: prod.split)
  then show thesis using that by blast
qed

theorem signal_frame_roundtrip_witness:
  "\<exists>s1 regs1 m1 s2. do_with_signal demo_regs (\<lambda>_. 0) demo_sig = Inr (s1, Handler regs1 m1)
     \<and> do_sigreturn (demo_regs\<lparr>r_esp := r_esp regs1 + 4\<rparr>) m1 s1 = (s2, demo_regs)
     \<and> blocked (tasks s2 2) = 2"
proof -
  obtain s1 regs1 m1 where h: "do_with_signal demo_regs (\<lambda>_. 0) demo_sig = Inr (s1, Handler regs1 m1)"
    by (rule demo_sig_handler)
  have "demo_regs\<lparr>r_ds := 0x23, r_es := 0x23, r_ss := 0x23\<rparr> = demo_regs" "r_cs demo_regs = 0x1b"
    by (simp_all add: demo_regs_def)
  then show ?thesis
    using h signal_frame_roundtrip [OF h _, of "demo_regs\<lparr>r_esp := r_esp regs1 + 4\<rparr>"]
    by (auto simp: demo_sig_sel)
qed



end
