(* ===== verification/Process.thy ===== *)
theory Process
  imports Signal
begin

text \<open>
  The life of a process: \<open>kernel/fork.c\<close>, and \<open>do_exit\<close>, \<open>do_wait\<close> and \<open>do_waitpid\<close> of
  \<open>kernel/exec.c\<close>. Modelled is what these functions do to the task table, the queues, the
  families and the process groups. The pages, page tables, inodes and open files that they
  allocate, share and release belong to other components. The list of children of a task is
  the sequence its links represent.
\<close>

section \<open>Definitions\<close>

definition ECHILD :: int where "ECHILD = 10"
definition WNOHANG :: int where "WNOHANG = 1"
definition WUNTRACED :: int where "WUNTRACED = 2"
definition SA_NOCLDSTOP :: u32 where "SA_NOCLDSTOP = 1"

text \<open>
  \<open>find_empty_process\<close>: \<open>next_pid\<close> is the static variable; the loop makes at most
  \<open>NR_TASKS\<close> probes. The result is the slot and the new \<open>next_pid\<close>.
\<close>

fun find_loop :: "(nat \<Rightarrow> bool) \<Rightarrow> nat \<Rightarrow> nat \<Rightarrow> (nat \<times> nat) option" where
  "find_loop used 0 i = None"
| "find_loop used (Suc n) i =
     (if \<not> used i then Some (i, i mod (NR_TASKS - 1) + 1)
      else if i = NR_TASKS - 1 then find_loop used n 2
      else find_loop used n (i + 1))"

definition find_empty_process :: "nat \<Rightarrow> sched \<Rightarrow> int \<times> nat" where
  "find_empty_process next_pid s =
     (case find_loop (slots s) NR_TASKS next_pid of
        None \<Rightarrow> (- EAGAIN, next_pid)
      | Some (i, np) \<Rightarrow> (int i, np))"

text \<open>
  The part of \<open>copy_process\<close> that enters the child in the task table and the run
  queue, once its pages and page tables are allocated: \<open>dir_pg\<close> is its page directory,
  \<open>pg\<close> the page of its task structure, \<open>thread\<close> whether it is a kernel thread.
\<close>

definition child_of :: "nat \<Rightarrow> u32 \<Rightarrow> u32 \<Rightarrow> bool \<Rightarrow> u32 \<Rightarrow> task_struct \<Rightarrow> task_struct" where
  "child_of nr pg dir_pg thread nowticks t =
     t\<lparr>pg_dir := dir_pg, start_time := nowticks, stime := 0, utime := 0, cstime := 0, cutime := 0,
       alarm_expire := 0, pid := nr, ppid := pid t, clist := [], sleep_spot := None, esp0 := pg + 4096,
       kernel := thread, signal := 0\<rparr>"

definition copy_task :: "nat \<Rightarrow> u32 \<Rightarrow> u32 \<Rightarrow> bool \<Rightarrow> u32 \<Rightarrow> sched \<Rightarrow> sched" where
  "copy_task nr pg dir_pg thread nowticks s =
     (let s1 = s\<lparr>tasks := (tasks s)(nr := child_of nr pg dir_pg thread nowticks (tasks s (current s)))\<rparr>;
          s2 = upd_current (\<lambda>t. t\<lparr>clist := nr # clist t\<rparr>) s1;
          s3 = s2\<lparr>pg_links := list_add_head (current s) nr (pg_links s2), slots := (slots s2)(nr := True)\<rparr>;
          s4 = add_run nr s3
      in upd_current (\<lambda>t. t\<lparr>need_sched := True\<rparr>) s4)"

text \<open>\<open>do_exit\<close>: the children go to the init process, appended to its list one by one.\<close>

definition reparent :: "nat \<Rightarrow> sched \<Rightarrow> sched" where
  "reparent t s = upd_task INITPID (\<lambda>i. i\<lparr>clist := clist i @ [t]\<rparr>) (upd_task t (\<lambda>k. k\<lparr>ppid := INITPID\<rparr>) s)"

definition adopt_children :: "sched \<Rightarrow> sched" where
  "adopt_children s =
     (let cs = clist (tasks s (current s)) in
      if cs = [] then s
      else
        let s1 = fold reparent cs (upd_current (\<lambda>t. t\<lparr>clist := []\<rparr>) s)
        in wakeup (sleep_spot (tasks s1 INITPID)) s1)"

text \<open>Leaving the process group and the terminal.\<close>

definition foreach_member :: "(task_struct \<Rightarrow> task_struct) \<Rightarrow> nat \<Rightarrow> sched \<Rightarrow> sched option" where
  "foreach_member f c s =
     map_option snd (list_foreach (\<lambda>t (h, s). (h, upd_task t f s)) c (pg_links s, s))"

definition member_step :: "bool \<Rightarrow> (task_struct \<Rightarrow> task_struct) \<Rightarrow> nat \<Rightarrow> sched \<Rightarrow> sched option" where
  "member_step b f c s = (if b then foreach_member f c s else Some s)"

definition leave_ring :: "bool \<Rightarrow> nat \<Rightarrow> sched \<Rightarrow> sched option" where
  "leave_ring owner c s1 =
     (let leader = lnext (pg_links s1) c in
      Option.bind (member_step owner (\<lambda>t. t\<lparr>tty := NOTTY\<rparr>) c s1) (\<lambda>s2.
      map_option (\<lambda>s3. s3\<lparr>pg_links := list_del c (pg_links s3)\<rparr>)
        (member_step (pid (tasks s2 c) = pgid (tasks s2 c)) (\<lambda>t. t\<lparr>pgid := pid (tasks s2 leader)\<rparr>) c s2)))"

definition leave_group :: "sched \<Rightarrow> sched option" where
  "leave_group s0 =
     (let c = current s0;
          tty0 = tty (tasks s0 c);
          tt = (if tty0 \<noteq> NOTTY then tty0 - 1 else tty0);
          owner = (tt \<noteq> NOTTY \<and> pid (tasks s0 c) = tty_owner s0 tt);
          s1 = (if owner then s0\<lparr>tty_owner := (tty_owner s0)(tt := 0)\<rparr> else s0)
      in if list_empty c (pg_links s1) then Some s1 else leave_ring owner c s1)"

text \<open>The signal to the parent, and the end of \<open>do_exit\<close> up to its call of \<open>schedule\<close>.\<close>

definition notify_parent :: "nat \<Rightarrow> sched \<Rightarrow> sched kres" where
  "notify_parent pp s =
     (if sa_flags (sigactions (tasks s pp) ! (SIGCHLD - 1)) AND SA_NOCLDSTOP = 0
      then sendsig pp (int SIGCHLD) s else Inr s)"

definition become_zombie :: "int \<Rightarrow> nat \<Rightarrow> sched \<Rightarrow> sched" where
  "become_zombie exitcode pp s =
     (let s1 = upd_current (\<lambda>t. t\<lparr>tstate := TASK_ZOMBIE, exit_code := exitcode\<rparr>) (del_run (current s) s)
      in if exit_code (tasks s1 pp) > 0 then wakeup (sleep_spot (tasks s1 pp)) s1 else s1)"

definition do_exit :: "int \<Rightarrow> sched \<Rightarrow> sched kres option" where
  "do_exit exitcode s0 =
     (let s1 = upd_current (\<lambda>t. t\<lparr>alarm_expire := 0\<rparr>) s0;
          pp = ppid (tasks s1 (current s1))
      in case notify_parent pp (adopt_children s1) of
           Inl e \<Rightarrow> Some (Inl e)
         | Inr s2 \<Rightarrow> map_option (\<lambda>s3. Inr (become_zombie exitcode pp s3)) (leave_group s2))"

text \<open>A zombie is taken out of its parent's list and its slot is free again.\<close>

definition reap :: "nat \<Rightarrow> sched \<Rightarrow> sched" where
  "reap t s = (upd_current (\<lambda>c. c\<lparr>clist := remove1 t (clist c)\<rparr>) s)\<lparr>slots := (slots s)(pid (tasks s t) := False)\<rparr>"

text \<open>
  \<open>do_wait\<close> and \<open>do_waitpid\<close>: one pass, which returns or goes to sleep on the queue \<open>wq\<close>
  of the caller's stack, and the part behind the sleep, which returns or starts over. The
  status of a reaped child is its \<open>exit_code\<close>.
\<close>

definition wait_for_child :: "u32 \<Rightarrow> nat \<Rightarrow> sched \<Rightarrow> sched kres" where
  "wait_for_child ret wq s = sleepon ret (Some wq) (upd_current (\<lambda>t. t\<lparr>exit_code := 1, sleep_spot := Some wq\<rparr>) s)"

definition wait_resume :: "nat \<Rightarrow> sched \<Rightarrow> (sched \<times> bool) kres" where
  "wait_resume wq s =
     kbind (sleep_end wq s) (\<lambda>s1.
       let s2 = upd_current (\<lambda>t. t\<lparr>exit_code := 0\<rparr>) s1;
           sig = signal (tasks s2 (current s2))
       in Inr (s2, sig \<noteq> 0 \<and> sig AND push_bit (SIGCHLD - 1) 1 = 0))"

definition is_zombie :: "sched \<Rightarrow> nat \<Rightarrow> bool" where
  "is_zombie s t \<longleftrightarrow> tstate (tasks s t) = TASK_ZOMBIE"

definition reap_child :: "nat \<Rightarrow> sched \<Rightarrow> sched syscall kres" where
  "reap_child t s = Inr (Returns (int (pid (tasks s t))) (reap t s))"

definition wait_block :: "u32 \<Rightarrow> nat \<Rightarrow> sched \<Rightarrow> sched syscall kres" where
  "wait_block ret wq s = kbind (wait_for_child ret wq s) (\<lambda>s1. Inr (Blocks s1))"

definition do_wait :: "u32 \<Rightarrow> nat \<Rightarrow> int \<Rightarrow> sched \<Rightarrow> sched syscall kres" where
  "do_wait ret wq option s =
     (let cs = clist (tasks s (current s)) in
      if cs = [] then Inr (Returns (- ECHILD) s)
      else
        case find (is_zombie s) cs of
          Some t \<Rightarrow> reap_child t s
        | None \<Rightarrow> if option = WNOHANG then Inr (Returns 0 s) else wait_block ret wq s)"

fun last_match :: "(nat \<Rightarrow> bool) \<Rightarrow> (nat \<Rightarrow> bool) \<Rightarrow> nat list \<Rightarrow> nat option \<Rightarrow> nat option" where
  "last_match P stop [] t1 = t1"
| "last_match P stop (t # ts) t1 =
     (if P t then (if stop t then Some t else last_match P stop ts (Some t)) else last_match P stop ts t1)"

definition do_waitpid :: "u32 \<Rightarrow> nat \<Rightarrow> int \<Rightarrow> int \<Rightarrow> sched \<Rightarrow> sched syscall kres" where
  "do_waitpid ret wq p option s =
     (let cs = clist (tasks s (current s));
          grp = (if p = 0 then int (pgid (tasks s (current s))) else - p);
          t1 = (if p > 0 then find (\<lambda>t. int (pid (tasks s t)) = p) cs
                else last_match (\<lambda>t. int (pgid (tasks s t)) = grp) (is_zombie s) cs None)
      in
      if cs = [] then Inr (Returns (- ECHILD) s)
      else if option \<noteq> 0 \<and> option \<noteq> WNOHANG \<and> option \<noteq> WUNTRACED then Inr (Returns (- EINVAL) s)
      else if p = - 1 then do_wait ret wq option s
      else
        case t1 of
          None \<Rightarrow> Inr (Returns (- ECHILD) s)
        | Some t \<Rightarrow>
            if \<not> is_zombie s t \<and> option = WNOHANG then Inr (Returns 0 s)
            else if is_zombie s t then reap_child t s
            else if tstate (tasks s t) = TASK_STOPPED \<and> option = WUNTRACED then Inr (Returns p s)
            else wait_block ret wq s)"

section \<open>The kernel as a transition system\<close>

text \<open>
  Where each task is: running its program or a system call, between its entry in the wait
  queue \<open>q\<close> and its call of \<open>schedule\<close>, in that call, or past the end of \<open>do_exit\<close>.
\<close>

datatype phase = Active | Going nat | Waiting nat | Gone

text \<open>
  A step is what one task does between two points at which interrupts may come, or an
  interrupt: a wake-up, a signal or the accounting of a tick.
\<close>

inductive kstep :: "sched \<times> (nat \<Rightarrow> phase) \<Rightarrow> sched \<times> (nat \<Rightarrow> phase) \<Rightarrow> bool" where
  Sleep: "ph (current s) = Active \<Longrightarrow> st = TASK_INTERRUPTIBLE \<or> st = TASK_UNINTERRUPTIBLE \<Longrightarrow>
    sleep_begin ret (Some q) st (upd_current (\<lambda>t. t\<lparr>exit_code := c, sleep_spot := sp\<rparr>) s) = Inr s' \<Longrightarrow>
    kstep (s, ph) (s', ph(current s := Going q))"
| Switch: "ph (current s) = Going q \<Longrightarrow> schedule s = Some s' \<Longrightarrow> kstep (s, ph) (s', ph(current s := Waiting q))"
| Leave: "ph (current s) = Gone \<Longrightarrow> schedule s = Some s' \<Longrightarrow> kstep (s, ph) (s', ph)"
| Resume: "ph (current s) = Waiting q \<Longrightarrow> sleep_end q s = Inr s' \<Longrightarrow> kstep (s, ph) (s', ph(current s := Active))"
| Resched: "ph (current s) = Active \<Longrightarrow> schedule s = Some s' \<Longrightarrow> kstep (s, ph) (s', ph)"
| Wake: "kstep (s, ph) (wakeup p s, ph)"
| Send: "sendsig t n s = Inr s' \<Longrightarrow> kstep (s, ph) (s', ph)"
| Tick: "kstep (s, ph) (upd_task t (\<lambda>k. k\<lparr>counter := c, stime := st, utime := u, need_sched := b\<rparr>) s, ph)"
| Fork: "ph (current s) = Active \<Longrightarrow> fst (find_empty_process np s) = int nr \<Longrightarrow>
    kstep (s, ph) (copy_task nr pg dir_pg thread now s, ph)"
| Exit: "ph (current s) = Active \<Longrightarrow> INITPID < current s \<Longrightarrow> slots s INITPID \<Longrightarrow> do_exit code s = Some (Inr s') \<Longrightarrow>
    kstep (s, ph) (s', ph(current s := Gone))"
| Reap: "ph (current s) = Active \<Longrightarrow> t \<in> set (clist (tasks s (current s))) \<Longrightarrow> is_zombie s t \<Longrightarrow>
    kstep (s, ph) (reap t s, ph(t := Active))"

definition asleep :: "sched \<Rightarrow> nat \<Rightarrow> bool" where
  "asleep s t \<longleftrightarrow> tstate (tasks s t) = TASK_INTERRUPTIBLE \<or> tstate (tasks s t) = TASK_UNINTERRUPTIBLE"

section \<open>The invariant\<close>

definition queues_ok :: "sched \<Rightarrow> (nat \<Rightarrow> phase) \<Rightarrow> bool" where
  "queues_ok s ph \<longleftrightarrow>
     distinct (run_queue s) \<and> 0 \<notin> set (run_queue s)
   \<and> (\<forall>q. distinct (wait_queues s q))
   \<and> (\<forall>q t. t \<in> set (wait_queues s q) \<longleftrightarrow> ph t = Going q \<or> ph t = Waiting q)"

definition task_ok :: "sched \<Rightarrow> (nat \<Rightarrow> phase) \<Rightarrow> nat \<Rightarrow> bool" where
  "task_ok s ph t \<longleftrightarrow>
     (case ph t of
        Active \<Rightarrow> t \<in> set (run_queue s)
      | Gone \<Rightarrow> tstate (tasks s t) = TASK_ZOMBIE
      | _ \<Rightarrow> t \<in> set (run_queue s) \<or> asleep s t)"

definition states_ok :: "sched \<Rightarrow> (nat \<Rightarrow> phase) \<Rightarrow> bool" where
  "states_ok s ph \<longleftrightarrow>
     slots s 0 \<and> ph 0 = Active \<and> ph INITPID \<noteq> Gone \<and> tstate (tasks s 0) = TASK_RUNNING
   \<and> (\<forall>t. ph t \<noteq> Active \<longrightarrow> slots s t)
   \<and> (\<forall>t. t \<in> set (run_queue s) \<longrightarrow> slots s t \<and> tstate (tasks s t) = TASK_RUNNING)
   \<and> (\<forall>t. slots s t \<and> t \<noteq> 0 \<longrightarrow> task_ok s ph t)"

definition current_ok :: "sched \<Rightarrow> (nat \<Rightarrow> phase) \<Rightarrow> bool" where
  "current_ok s ph \<longleftrightarrow>
     (case ph (current s) of
        Active \<Rightarrow> current s = 0 \<or> current s \<in> set (run_queue s)
      | Waiting q \<Rightarrow> current s \<in> set (run_queue s)
      | _ \<Rightarrow> True)"

definition tasks_ok :: "sched \<Rightarrow> bool" where
  "tasks_ok s \<longleftrightarrow> (\<forall>t. slots s t \<longrightarrow> pid (tasks s t) = t \<and> 0 < priority (tasks s t))"

definition family_ok :: "sched \<Rightarrow> (nat \<Rightarrow> phase) \<Rightarrow> bool" where
  "family_ok s ph \<longleftrightarrow>
     (\<forall>t. slots s t \<and> t \<noteq> 0 \<longrightarrow> slots s (ppid (tasks s t)) \<and> ph (ppid (tasks s t)) \<noteq> Gone
        \<and> t \<in> set (clist (tasks s (ppid (tasks s t)))))
   \<and> (\<forall>p t. slots s p \<and> t \<in> set (clist (tasks s p)) \<longrightarrow> slots s t \<and> t \<noteq> 0 \<and> ppid (tasks s t) = p)
   \<and> (\<forall>p. slots s p \<longrightarrow> distinct (clist (tasks s p)))"

definition kinv :: "sched \<times> (nat \<Rightarrow> phase) \<Rightarrow> bool" where
  "kinv = (\<lambda>(s, ph). queues_ok s ph \<and> states_ok s ph \<and> current_ok s ph \<and> tasks_ok s \<and> family_ok s ph)"

lemmas kinv_defs = queues_ok_def states_ok_def task_ok_def current_ok_def tasks_ok_def family_ok_def asleep_def

lemma task_ok_cong:
  "ph' t = ph t \<Longrightarrow> t \<in> set (run_queue s') \<longleftrightarrow> t \<in> set (run_queue s) \<Longrightarrow> tstate (tasks s' t) = tstate (tasks s t) \<Longrightarrow>
     task_ok s' ph' t = task_ok s ph t"
  by (simp add: task_ok_def asleep_def split: phase.split)

lemma family_okD:
  assumes "family_ok s ph"
  shows "slots s t \<Longrightarrow> t \<noteq> 0 \<Longrightarrow> slots s (ppid (tasks s t))"
    "slots s t \<Longrightarrow> t \<noteq> 0 \<Longrightarrow> ph (ppid (tasks s t)) \<noteq> Gone"
    "slots s t \<Longrightarrow> t \<noteq> 0 \<Longrightarrow> t \<in> set (clist (tasks s (ppid (tasks s t))))"
    "slots s p \<Longrightarrow> t \<in> set (clist (tasks s p)) \<Longrightarrow> slots s t \<and> t \<noteq> 0 \<and> ppid (tasks s t) = p"
    "slots s p \<Longrightarrow> distinct (clist (tasks s p))"
  using assms by (simp_all add: family_ok_def)

lemma family_okI:
  assumes "\<And>t. slots s t \<Longrightarrow> t \<noteq> 0 \<Longrightarrow> slots s (ppid (tasks s t)) \<and> ph (ppid (tasks s t)) \<noteq> Gone
      \<and> t \<in> set (clist (tasks s (ppid (tasks s t))))"
    and "\<And>p t. slots s p \<Longrightarrow> t \<in> set (clist (tasks s p)) \<Longrightarrow> slots s t \<and> t \<noteq> 0 \<and> ppid (tasks s t) = p"
    and "\<And>p. slots s p \<Longrightarrow> distinct (clist (tasks s p))"
  shows "family_ok s ph"
  unfolding family_ok_def using assms by blast

text \<open>What the invariant reads of the state, the current task apart.\<close>

definition same_kernel :: "sched \<Rightarrow> sched \<Rightarrow> bool" where
  "same_kernel s s' \<longleftrightarrow> slots s' = slots s \<and> run_queue s' = run_queue s \<and> wait_queues s' = wait_queues s
   \<and> (\<forall>t. tstate (tasks s' t) = tstate (tasks s t) \<and> pid (tasks s' t) = pid (tasks s t)
        \<and> ppid (tasks s' t) = ppid (tasks s t) \<and> clist (tasks s' t) = clist (tasks s t)
        \<and> priority (tasks s' t) = priority (tasks s t))"

lemma same_kernel_refl [simp]: "same_kernel s s"
  by (simp add: same_kernel_def)

lemma same_kernel_trans: "same_kernel a b \<Longrightarrow> same_kernel b c \<Longrightarrow> same_kernel a c"
  by (simp add: same_kernel_def)

lemma kinv_same:
  assumes "same_kernel s s'"
  shows "queues_ok s' ph = queues_ok s ph" "states_ok s' ph = states_ok s ph" "tasks_ok s' = tasks_ok s"
    "family_ok s' ph = family_ok s ph"
  using assms unfolding same_kernel_def kinv_defs by (simp_all only: simp_thms)

lemma current_ok_same: "same_kernel s s' \<Longrightarrow> current s' = current s \<Longrightarrow> current_ok s' ph = current_ok s ph"
  by (simp add: current_ok_def same_kernel_def split: phase.split)

lemma kinv_same_current: "same_kernel s s' \<Longrightarrow> current s' = current s \<Longrightarrow> kinv (s', ph) = kinv (s, ph)"
  by (simp add: kinv_def kinv_same current_ok_same)

lemma same_upd_task:
  assumes "\<And>k. tstate (f k) = tstate k \<and> pid (f k) = pid k \<and> ppid (f k) = ppid k \<and> clist (f k) = clist k
    \<and> priority (f k) = priority k"
  shows "same_kernel s (upd_task t f s)" "current (upd_task t f s) = current s"
  using assms by (simp_all add: same_kernel_def)

text \<open>The effect of \<open>schedule\<close> on what the invariant reads.\<close>

lemma schedule_frame:
  assumes "schedule s = Some s'"
  shows "same_kernel s s'" and "current s' = chosen s"
proof -
  define s1 where "s1 = upd_task (current s) (\<lambda>t. t\<lparr>need_sched := False\<rparr>) s"
  have s': "s' = switch_task (current s) (chosen s) (s1\<lparr>tasks := refilled s1, current := chosen s\<rparr>)"
    using assms by (auto simp: schedule_eq Let_def s1_def split: if_splits)
  have "same_kernel s s1" by (simp add: s1_def same_kernel_def)
  moreover have "same_kernel s1 (s1\<lparr>tasks := refilled s1, current := chosen s\<rparr>)"
    unfolding same_kernel_def by (simp, intro allI conjI; subst refilled_other; simp)
  moreover have "same_kernel (s1\<lparr>tasks := refilled s1, current := chosen s\<rparr>) s'"
    by (simp add: s' same_kernel_def switch_task_tasks)
  ultimately show "same_kernel s s'" by (blast intro: same_kernel_trans)
  show "current s' = chosen s" by (simp add: s')
qed

lemma chosen_in: "chosen s = 0 \<or> chosen s \<in> set (run_queue s)"
  by (auto simp: chosen_def IDLEPID_def first_max_in)

lemma schedule_kinv:
  assumes "schedule s = Some s'" "queues_ok s ph" "states_ok s ph" "tasks_ok s" "family_ok s ph"
  shows "kinv (s', ph)"
proof -
  note f = schedule_frame [OF assms(1)]
  have "current s' = 0 \<or> current s' \<in> set (run_queue s')"
    using f chosen_in [of s] by (auto simp: same_kernel_def)
  moreover have "ph 0 = Active" using assms(3) by (simp add: states_ok_def)
  ultimately have "current_ok s' ph" by (auto simp: current_ok_def split: phase.split)
  then show ?thesis using assms(2-) by (simp add: kinv_def kinv_same [OF f(1)])
qed

text \<open>The effect of a wake-up.\<close>

lemma fold_wake:
  "distinct ts \<Longrightarrow> fold wake_task ts s =
     s\<lparr>tasks := (\<lambda>t. if t \<in> set ts \<and> asleep s t then (tasks s t)\<lparr>tstate := TASK_RUNNING, sleep_spot := None\<rparr> else tasks s t),
       run_queue := run_queue s @ filter (asleep s) ts\<rparr>"
proof (induction ts arbitrary: s)
  case (Cons x xs)
  have a: "asleep (wake_task x s) t = asleep s t" if "t \<noteq> x" for t
    using that by (auto simp: wake_task_def asleep_def add_run_eq)
  have f: "filter (asleep (wake_task x s)) xs = filter (asleep s) xs"
  proof (rule filter_cong [OF refl])
    show "asleep (wake_task x s) y = asleep s y" if "y \<in> set xs" for y
      using Cons.prems that by (intro a) auto
  qed
  show ?case
  proof (cases "asleep s x")
    case True
    then have w: "wake_task x s = (upd_task x (\<lambda>k. k\<lparr>tstate := TASK_RUNNING, sleep_spot := None\<rparr>) s)\<lparr>run_queue := run_queue s @ [x]\<rparr>"
      by (auto simp: wake_task_def asleep_def add_run_eq)
    show ?thesis using Cons True f a
      by (auto simp: w fun_eq_iff upd_task_def intro!: sched.equality)
  next
    case False
    then have w: "wake_task x s = s" by (auto simp: wake_task_def asleep_def)
    show ?thesis using Cons False by (auto simp: w fun_eq_iff intro!: sched.equality)
  qed
qed simp

definition woken :: "nat \<Rightarrow> sched \<Rightarrow> sched" where
  "woken q s =
     s\<lparr>tasks := (\<lambda>t. if t \<in> set (wait_queues s q) \<and> asleep s t
          then (tasks s t)\<lparr>tstate := TASK_RUNNING, sleep_spot := None\<rparr> else tasks s t),
       run_queue := run_queue s @ filter (asleep s) (wait_queues s q)\<rparr>"

lemma wakeup_woken:
  assumes "\<And>q. distinct (wait_queues s q)"
  obtains "wakeup p s = s"
  | q where "p = Some q" "same_kernel (woken q s) (wakeup p s)" "current (wakeup p s) = current s"
proof (cases p)
  case None
  then show ?thesis using that(1) by (simp add: wakeup_def)
next
  case (Some q)
  show ?thesis
  proof (cases "wait_queues s q = []")
    case True
    then show ?thesis using that(1) Some by (simp add: wakeup_def)
  next
    case False
    then have "wakeup p s = upd_task (current s) (\<lambda>t. t\<lparr>need_sched := True\<rparr>) (woken q s)"
      using Some fold_wake [OF assms, of q s] by (simp add: wakeup_def woken_def Let_def)
    then show ?thesis using that(2) [OF Some] by (simp add: same_upd_task) (simp add: woken_def)
  qed
qed

lemma woken_sel [simp]:
  "slots (woken q s) = slots s" "current (woken q s) = current s" "wait_queues (woken q s) = wait_queues s"
  "set (run_queue (woken q s)) = set (run_queue s) \<union> {t \<in> set (wait_queues s q). asleep s t}"
  "pid (tasks (woken q s) t) = pid (tasks s t)" "ppid (tasks (woken q s) t) = ppid (tasks s t)"
  "clist (tasks (woken q s) t) = clist (tasks s t)" "priority (tasks (woken q s) t) = priority (tasks s t)"
  "tstate (tasks (woken q s) t) =
     (if t \<in> set (wait_queues s q) \<and> asleep s t then TASK_RUNNING else tstate (tasks s t))"
  by (auto simp: woken_def)

lemma kinv_woken:
  assumes "queues_ok s ph" "states_ok s ph"
  shows "queues_ok (woken q s) ph" "states_ok (woken q s) ph" "tasks_ok (woken q s) = tasks_ok s"
    "family_ok (woken q s) ph = family_ok s ph" "current_ok s ph \<Longrightarrow> current_ok (woken q s) ph"
proof -
  have rq: "asleep s t \<Longrightarrow> t \<notin> set (run_queue s)" for t using assms(2) by (auto simp: states_ok_def asleep_def)
  have z: "\<not> asleep s 0" using assms(2) by (simp add: states_ok_def asleep_def)
  have "distinct (run_queue s @ filter (asleep s) (wait_queues s q))"
    using assms(1) rq by (auto simp: queues_ok_def)
  then have d: "distinct (run_queue (woken q s))" by (simp add: woken_def)
  show "queues_ok (woken q s) ph" using assms(1) d z by (auto simp: queues_ok_def)
  have a: "asleep (woken q s) t \<longleftrightarrow> asleep s t \<and> t \<notin> set (wait_queues s q)" for t
    by (auto simp: asleep_def)
  have sl: "t \<in> set (wait_queues s q) \<Longrightarrow> slots s t" for t
    using assms by (auto simp: queues_ok_def states_ok_def)
  have nz: "ph t = Gone \<Longrightarrow> t \<notin> set (wait_queues s q)" for t using assms(1) by (auto simp: queues_ok_def)
  have "t \<in> set (run_queue (woken q s)) \<Longrightarrow> slots s t \<and> tstate (tasks (woken q s) t) = TASK_RUNNING" for t
    using assms(2) sl by (auto simp: states_ok_def)
  moreover have "task_ok (woken q s) ph t" if "slots s t" "t \<noteq> 0" for t
    using assms(2) that nz [of t] by (auto simp: states_ok_def task_ok_def a split: phase.splits)
  ultimately show "states_ok (woken q s) ph"
    using assms(2) z by (simp add: states_ok_def)
  show "tasks_ok (woken q s) = tasks_ok s" by (simp add: tasks_ok_def)
  show "family_ok (woken q s) ph = family_ok s ph" by (simp add: family_ok_def)
  show "current_ok s ph \<Longrightarrow> current_ok (woken q s) ph" by (auto simp: current_ok_def split: phase.splits)
qed

lemma kinv_wakeup: "kinv (s, ph) \<Longrightarrow> kinv (wakeup p s, ph)"
proof -
  assume k: "kinv (s, ph)"
  then have "\<And>q. distinct (wait_queues s q)" by (simp add: kinv_def queues_ok_def)
  then show ?thesis
  proof (cases rule: wakeup_woken [of s p])
    case 1
    then show ?thesis using k by simp
  next
    case (2 q)
    have "kinv (woken q s, ph)" using k kinv_woken [of s ph q] by (simp add: kinv_def)
    then show ?thesis using 2 kinv_same_current [of "woken q s" "wakeup p s"] by simp
  qed
qed

lemma kinv_sendsig: "kinv (s, ph) \<Longrightarrow> sendsig t n s = Inr s' \<Longrightarrow> kinv (s', ph)"
proof -
  let ?s1 = "upd_task t (\<lambda>k. k\<lparr>signal := signal k OR push_bit (nat (n - 1)) 1\<rparr>) s"
  assume k: "kinv (s, ph)" and s': "sendsig t n s = Inr s'"
  have "kinv (?s1, ph)" using k by (subst kinv_same_current [OF same_upd_task]) simp_all
  moreover have "s' = s \<or> s' = ?s1 \<or> s' = wakeup (sleep_spot (tasks ?s1 t)) ?s1"
    using s' by (simp add: sendsig_def Let_def del: upd_task_sel(1) split: if_splits)
  ultimately show ?thesis using k kinv_wakeup by auto
qed

section \<open>Every step keeps the invariant\<close>

lemma sleep_begin_sel:
  assumes "sleep_begin ret (Some q) st (upd_current (\<lambda>t. t\<lparr>exit_code := c, sleep_spot := sp\<rparr>) s) = Inr s'"
  shows "pid (tasks s (current s)) \<noteq> 0" "slots s' = slots s" "current s' = current s"
    "run_queue s' = remove1 (current s) (run_queue s)"
    "wait_queues s' = (wait_queues s)(q := current s # wait_queues s q)"
    "tstate (tasks s' t) = (if t = current s then st else tstate (tasks s t))"
    "pid (tasks s' t) = pid (tasks s t)" "ppid (tasks s' t) = ppid (tasks s t)"
    "clist (tasks s' t) = clist (tasks s t)" "priority (tasks s' t) = priority (tasks s t)"
  using assms
  by (auto simp: sleep_begin_def Let_def upd_current_def del_run_def add_wait_queue_def split: if_splits)

lemma kinv_sleep:
  assumes k: "kinv (s, ph)" and ac: "ph (current s) = Active" and st: "st = TASK_INTERRUPTIBLE \<or> st = TASK_UNINTERRUPTIBLE"
    and sl: "sleep_begin ret (Some q) st (upd_current (\<lambda>t. t\<lparr>exit_code := c, sleep_spot := sp\<rparr>) s) = Inr s'"
  shows "kinv (s', ph(current s := Going q))"
proof -
  note s' = sleep_begin_sel [OF sl]
  have q: "queues_ok s ph" and so: "states_ok s ph" and co: "current_ok s ph" and t: "tasks_ok s" and f: "family_ok s ph"
    using k by (simp_all add: kinv_def)
  have "current s = 0 \<or> current s \<in> set (run_queue s)" using co ac by (simp add: current_ok_def)
  moreover have "pid (tasks s 0) = 0" using t so by (simp add: tasks_ok_def states_ok_def)
  then have "current s \<noteq> 0" using s'(1) by metis
  ultimately have c: "current s \<in> set (run_queue s)" "current s \<noteq> 0" "slots s (current s)"
    using so by (auto simp: states_ok_def)
  have d: "distinct (run_queue s)" using q by (simp add: queues_ok_def)
  have "queues_ok s' (ph(current s := Going q))"
    using q ac d by (auto simp: queues_ok_def s')
  moreover have "states_ok s' (ph(current s := Going q))"
  proof -
    have "task_ok s' (ph(current s := Going q)) x" if "slots s x" "x \<noteq> 0" for x
    proof (cases "x = current s")
      case True
      then show ?thesis using st by (auto simp: task_ok_def asleep_def s')
    next
      case False
      then show ?thesis using so that d task_ok_cong [of "ph(current s := Going q)" x ph s' s]
        by (simp add: states_ok_def s')
    qed
    then show ?thesis using so c d by (auto simp: states_ok_def s')
  qed
  moreover have "current_ok s' (ph(current s := Going q))" by (simp add: current_ok_def s')
  moreover have "tasks_ok s'" using t by (simp add: tasks_ok_def s')
  moreover have "family_ok s' (ph(current s := Going q))" using f by (auto simp: family_ok_def s')
  ultimately show ?thesis by (simp add: kinv_def)
qed

lemma unlink_wait_in:
  "t \<in> set ws \<Longrightarrow> unlink_wait t ws = Inr (remove1 t ws)"
  by (induction ws) auto

lemma kinv_resume:
  assumes k: "kinv (s, ph)" and w: "ph (current s) = Waiting q"
  shows "\<exists>s'. sleep_end q s = Inr s' \<and> kinv (s', ph(current s := Active))"
proof -
  have q: "queues_ok s ph" and so: "states_ok s ph" and co: "current_ok s ph" and t: "tasks_ok s" and f: "family_ok s ph"
    using k by (simp_all add: kinv_def)
  have inq: "current s \<in> set (wait_queues s q)" using q w by (simp add: queues_ok_def)
  have d: "distinct (wait_queues s q)" using q by (simp add: queues_ok_def)
  have c: "current s \<in> set (run_queue s)" using co w by (simp add: current_ok_def)
  define s1 where "s1 = s\<lparr>wait_queues := (wait_queues s)(q := remove1 (current s) (wait_queues s q))\<rparr>"
  define s2 where "s2 = upd_task (current s) (\<lambda>t. t\<lparr>sleep_eip := 0\<rparr>) s1"
  have e: "sleep_end q s = Inr s2"
    by (simp add: sleep_end_def remove_wait_queue_def unlink_wait_in [OF inq] s2_def s1_def)
  have same: "same_kernel s1 s2" "current s2 = current s1" unfolding s2_def by (rule same_upd_task; simp)+
  have "queues_ok s1 (ph(current s := Active))"
    using q d w by (auto simp: queues_ok_def s1_def)
  moreover have "states_ok s1 (ph(current s := Active))"
  proof -
    have "task_ok s1 (ph(current s := Active)) x" if "slots s x" "x \<noteq> 0" for x
      using so c that task_ok_cong [of "ph(current s := Active)" x ph s1 s]
      by (cases "x = current s") (simp_all add: states_ok_def s1_def, simp add: task_ok_def)
    then show ?thesis using so c by (auto simp: states_ok_def s1_def)
  qed
  moreover have "current_ok s1 (ph(current s := Active))" using c by (simp add: current_ok_def s1_def)
  moreover have "tasks_ok s1" using t by (simp add: tasks_ok_def s1_def)
  moreover have "family_ok s1 (ph(current s := Active))" using f by (auto simp: family_ok_def s1_def)
  ultimately have "kinv (s1, ph(current s := Active))" by (simp add: kinv_def)
  then show ?thesis using e kinv_same_current [OF same] by auto
qed

lemma find_loop_free: "find_loop used n i = Some (r, np) \<Longrightarrow> \<not> used r"
  by (induction n arbitrary: i) (auto split: if_splits)

lemma kinv_fork:
  assumes k: "kinv (s, ph)" and ac: "ph (current s) = Active" and fr: "fst (find_empty_process np s) = int nr"
  shows "kinv (copy_task nr pg dir_pg thread now s, ph)"
proof -
  have q: "queues_ok s ph" and so: "states_ok s ph" and co: "current_ok s ph" and t: "tasks_ok s" and f: "family_ok s ph"
    using k by (simp_all add: kinv_def)
  have free: "\<not> slots s nr"
    using fr by (auto simp: find_empty_process_def EAGAIN_def dest: find_loop_free split: option.splits)
  let ?c = "current s" and ?s = "copy_task nr pg dir_pg thread now s"
  have "?c = 0 \<or> ?c \<in> set (run_queue s)" using co ac by (simp add: current_ok_def)
  then have c: "slots s ?c" "tstate (tasks s ?c) = TASK_RUNNING" using so by (auto simp: states_ok_def)
  have n: "nr \<noteq> ?c" "nr \<notin> set (run_queue s)" "ph nr = Active" "nr \<noteq> 0"
    using free c so by (auto simp: states_ok_def)
  have s': "slots ?s = (slots s)(nr := True)" "current ?s = ?c" "run_queue ?s = run_queue s @ [nr]"
    "wait_queues ?s = wait_queues s"
    "tstate (tasks ?s x) = (if x = nr then TASK_RUNNING else tstate (tasks s x))"
    "pid (tasks ?s x) = (if x = nr then nr else pid (tasks s x))"
    "ppid (tasks ?s x) = (if x = nr then ?c else ppid (tasks s x))"
    "clist (tasks ?s x) = (if x = nr then [] else if x = ?c then nr # clist (tasks s x) else clist (tasks s x))"
    "priority (tasks ?s x) = priority (tasks s (if x = nr then ?c else x))" for x
    using n c t by (auto simp: copy_task_def Let_def upd_current_def child_of_def add_run_eq tasks_ok_def)
  have a: "asleep ?s x \<longleftrightarrow> asleep s x \<and> x \<noteq> nr" for x by (auto simp: asleep_def s')
  have "queues_ok ?s ph" using q n by (auto simp: queues_ok_def s')
  moreover have "states_ok ?s ph"
  proof -
    have "task_ok ?s ph x" if "slots s x \<or> x = nr" "x \<noteq> 0" for x
      using so n that task_ok_cong [of ph x ph ?s s]
      by (cases "x = nr") (simp_all add: states_ok_def s' task_ok_def)
    then show ?thesis using so n by (auto simp: states_ok_def s')
  qed
  moreover have "current_ok ?s ph" using co by (auto simp: current_ok_def s' split: phase.splits)
  moreover have "tasks_ok ?s" using t c by (auto simp: tasks_ok_def s')
  moreover have "family_ok ?s ph"
  proof -
    note F = family_okD [OF f]
    show ?thesis
    proof (rule family_okI)
      show "slots ?s (ppid (tasks ?s x)) \<and> ph (ppid (tasks ?s x)) \<noteq> Gone \<and> x \<in> set (clist (tasks ?s (ppid (tasks ?s x))))"
        if "slots ?s x" "x \<noteq> 0" for x
        using that F(1-3) [of x] n(1) c(1) ac free by (cases "x = nr") (auto simp: s')
      show "slots ?s x \<and> x \<noteq> 0 \<and> ppid (tasks ?s x) = p" if "slots ?s p" "x \<in> set (clist (tasks ?s p))" for p x
        using that F(4) [of p x] n(1,4) free by (cases "x = nr") (auto simp: s' split: if_splits)
      show "distinct (clist (tasks ?s p))" if "slots ?s p" for p
        using that F(4) [of p nr] F(5) [of p] free by (auto simp: s' split: if_splits)
    qed
  qed
  ultimately show ?thesis by (simp add: kinv_def)
qed

lemma wakeup_keeps:
  assumes "kinv (s, ph)"
  shows "current (wakeup p s) = current s \<and> slots (wakeup p s) = slots s
    \<and> clist (tasks (wakeup p s) t) = clist (tasks s t)"
proof -
  have "\<And>q. distinct (wait_queues s q)" using assms by (simp add: kinv_def queues_ok_def)
  then show ?thesis
    by (cases rule: wakeup_woken [of s p]) (auto simp: same_kernel_def)
qed

lemma sendsig_keeps:
  assumes "kinv (s, ph)" "sendsig t n s = Inr s'"
  shows "current s' = current s \<and> slots s' = slots s \<and> clist (tasks s' x) = clist (tasks s x)"
proof -
  let ?s1 = "upd_task t (\<lambda>k. k\<lparr>signal := signal k OR push_bit (nat (n - 1)) 1\<rparr>) s"
  have "kinv (?s1, ph)" using assms(1) by (subst kinv_same_current [OF same_upd_task]) simp_all
  then have "current (wakeup p ?s1) = current s \<and> slots (wakeup p ?s1) = slots s
      \<and> clist (tasks (wakeup p ?s1) x) = clist (tasks s x)" for p
    using wakeup_keeps [of ?s1 ph p x] by simp
  moreover have "s' = s \<or> s' = ?s1 \<or> s' = wakeup (sleep_spot (tasks ?s1 t)) ?s1"
    using assms(2) by (simp add: sendsig_def Let_def del: upd_task_sel(1) split: if_splits)
  ultimately show ?thesis by auto
qed

text \<open>A loop over a list keeps what its body keeps.\<close>

lemma list_foreach_loop_keeps:
  "list_foreach_loop body l tmp pos st = Some st' \<Longrightarrow> (\<And>t st. P st \<Longrightarrow> P (body t st)) \<Longrightarrow> P st \<Longrightarrow> P st'"
proof (induction arbitrary: rule: list_foreach_loop.raw_induct [rotated 1, consumes 1, case_names step])
  case (step f body l tmp pos st st')
  show ?case
  proof (cases "tmp = l")
    case True
    with step show ?thesis by simp
  next
    case False
    with step(2) have "f body l pos (lnext (fst (body tmp st)) pos) (body tmp st) = Some st'" by (simp add: Let_def)
    from step(1) [OF this] step(3,4) show ?thesis by blast
  qed
qed

lemma list_foreach_keeps:
  "list_foreach body l st = Some st' \<Longrightarrow> (\<And>t st. P st \<Longrightarrow> P (body t st)) \<Longrightarrow> P st \<Longrightarrow> P st'"
  by (auto simp: list_foreach_def Let_def intro: list_foreach_loop_keeps)

lemma foreach_member_same:
  assumes "foreach_member f c s = Some s'"
    and "\<And>k. tstate (f k) = tstate k \<and> pid (f k) = pid k \<and> ppid (f k) = ppid k \<and> clist (f k) = clist k
      \<and> priority (f k) = priority k"
  shows "same_kernel s s'" "current s' = current s"
proof -
  obtain h where h: "list_foreach (\<lambda>t (h, s). (h, upd_task t f s)) c (pg_links s, s) = Some (h, s')"
    using assms(1) by (auto simp: foreach_member_def)
  have "same_kernel s (snd (h, s')) \<and> current (snd (h, s')) = current s"
    using h
  proof (rule list_foreach_keeps)
    show "same_kernel s (snd (case st of (h, s) \<Rightarrow> (h, upd_task t f s)))
        \<and> current (snd (case st of (h, s) \<Rightarrow> (h, upd_task t f s))) = current s"
      if "same_kernel s (snd st) \<and> current (snd st) = current s" for t and st :: "nat lheap \<times> sched"
      using that same_upd_task [OF assms(2)] by (cases st) (auto intro: same_kernel_trans)
  qed simp
  then show "same_kernel s s'" "current s' = current s" by simp_all
qed

lemma same_with_links:
  "same_kernel s (s\<lparr>pg_links := h\<rparr>)" "same_kernel s (s\<lparr>tty_owner := ow\<rparr>)"
  by (simp_all add: same_kernel_def)

lemma member_step_same:
  assumes "member_step b f c s = Some s'"
    and "\<And>k. tstate (f k) = tstate k \<and> pid (f k) = pid k \<and> ppid (f k) = ppid k \<and> clist (f k) = clist k
      \<and> priority (f k) = priority k"
  shows "same_kernel s s' \<and> current s' = current s"
  using assms foreach_member_same [of f c s s'] by (auto simp: member_step_def split: if_splits)

lemma leave_ring_same:
  assumes "leave_ring owner c s = Some s'"
  shows "same_kernel s s' \<and> current s' = current s"
proof -
  obtain s2 s3 i where a: "member_step owner (\<lambda>t. t\<lparr>tty := NOTTY\<rparr>) c s = Some s2"
    "member_step (pid (tasks s2 c) = pgid (tasks s2 c)) (\<lambda>t. t\<lparr>pgid := i\<rparr>) c s2 = Some s3"
    "s' = s3\<lparr>pg_links := list_del c (pg_links s3)\<rparr>"
    using assms by (auto simp: leave_ring_def Let_def Option.bind_eq_Some_conv)
  have "same_kernel s s2 \<and> current s2 = current s" by (rule member_step_same [OF a(1)]) simp
  moreover have "same_kernel s2 s3 \<and> current s3 = current s2" by (rule member_step_same [OF a(2)]) simp
  ultimately show ?thesis using a(3) same_with_links(1) [of s3] by (auto intro: same_kernel_trans)
qed

lemma leave_group_same:
  assumes "leave_group s = Some s'"
  shows "same_kernel s s' \<and> current s' = current s"
proof -
  define tt where "tt = (if tty (tasks s (current s)) \<noteq> NOTTY then tty (tasks s (current s)) - 1 else tty (tasks s (current s)))"
  define ow where "ow = (tt \<noteq> NOTTY \<and> pid (tasks s (current s)) = tty_owner s tt)"
  define s1 where "s1 = (if ow then s\<lparr>tty_owner := (tty_owner s)(tt := 0)\<rparr> else s)"
  have s1: "same_kernel s s1" "current s1 = current s" by (simp_all add: s1_def same_with_links)
  have "leave_group s = (if list_empty (current s) (pg_links s1) then Some s1 else leave_ring ow (current s) s1)"
    by (simp only: leave_group_def Let_def tt_def ow_def s1_def)
  then have "s' = s1 \<or> leave_ring ow (current s) s1 = Some s'" using assms by (simp split: if_splits)
  then show ?thesis using s1 leave_ring_same [of ow "current s" s1 s'] by (auto intro: same_kernel_trans)
qed

text \<open>The children of an exiting task become children of the init process.\<close>

lemma fold_reparent:
  "slots (fold reparent cs s) = slots s" "current (fold reparent cs s) = current s"
  "run_queue (fold reparent cs s) = run_queue s" "wait_queues (fold reparent cs s) = wait_queues s"
  "tstate (tasks (fold reparent cs s) t) = tstate (tasks s t)" "pid (tasks (fold reparent cs s) t) = pid (tasks s t)"
  "priority (tasks (fold reparent cs s) t) = priority (tasks s t)"
  "ppid (tasks (fold reparent cs s) t) = (if t \<in> set cs then INITPID else ppid (tasks s t))"
  "clist (tasks (fold reparent cs s) t) = (if t = INITPID then clist (tasks s t) @ cs else clist (tasks s t))"
  by (induction cs arbitrary: s) (auto simp: reparent_def)

lemma kinv_adopt:
  assumes k: "kinv (s, ph)" and ac: "ph (current s) = Active" and c: "INITPID < current s" "slots s INITPID"
  shows "kinv (adopt_children s, ph) \<and> current (adopt_children s) = current s
    \<and> clist (tasks (adopt_children s) (current s)) = []"
proof (cases "clist (tasks s (current s)) = []")
  case True
  then show ?thesis using k by (simp add: adopt_children_def)
next
  case False
  let ?c = "current s" and ?cs = "clist (tasks s (current s))"
  define s1 where "s1 = fold reparent ?cs (upd_current (\<lambda>t. t\<lparr>clist := []\<rparr>) s)"
  have s1: "slots s1 = slots s" "current s1 = ?c" "run_queue s1 = run_queue s" "wait_queues s1 = wait_queues s"
    "tstate (tasks s1 t) = tstate (tasks s t)" "pid (tasks s1 t) = pid (tasks s t)"
    "priority (tasks s1 t) = priority (tasks s t)"
    "ppid (tasks s1 t) = (if t \<in> set ?cs then INITPID else ppid (tasks s t))"
    "clist (tasks s1 t) = (if t = INITPID then clist (tasks s t) @ ?cs else if t = ?c then [] else clist (tasks s t))" for t
    using c(1) by (simp_all add: s1_def fold_reparent upd_current_def)
  have q: "queues_ok s ph" and so: "states_ok s ph" and co: "current_ok s ph" and t: "tasks_ok s" and f: "family_ok s ph"
    using k by (simp_all add: kinv_def)
  note F = family_okD [OF f]
  have sc: "slots s ?c" using so co ac by (auto simp: current_ok_def states_ok_def)
  have "queues_ok s1 ph" using q by (simp add: queues_ok_def s1)
  moreover have "states_ok s1 ph"
    using so task_ok_cong [of ph _ ph s1 s] by (simp add: states_ok_def s1)
  moreover have "current_ok s1 ph" using co by (simp add: current_ok_def s1 split: phase.splits)
  moreover have "tasks_ok s1" using t by (simp add: tasks_ok_def s1)
  moreover have "family_ok s1 ph"
  proof (rule family_okI)
    have i: "ph INITPID \<noteq> Gone" using so by (simp add: states_ok_def)
    show "slots s1 (ppid (tasks s1 x)) \<and> ph (ppid (tasks s1 x)) \<noteq> Gone \<and> x \<in> set (clist (tasks s1 (ppid (tasks s1 x))))"
      if "slots s1 x" "x \<noteq> 0" for x
      using that F(1-3) [of x] c i by (cases "x \<in> set ?cs") (auto simp: s1)
    show "slots s1 x \<and> x \<noteq> 0 \<and> ppid (tasks s1 x) = p" if "slots s1 p" "x \<in> set (clist (tasks s1 p))" for p x
      using that F(4) [of p x] F(4) [OF sc, of x] c by (auto simp: s1 split: if_splits)
    show "distinct (clist (tasks s1 p))" if "slots s1 p" for p
      using that F(5) [of p] F(5) [OF sc] F(4) [OF sc] F(4) [of p] c by (fastforce simp: s1)
  qed
  ultimately have k1: "kinv (s1, ph)" by (simp add: kinv_def)
  have "adopt_children s = wakeup (sleep_spot (tasks s1 INITPID)) s1"
    using False by (simp add: adopt_children_def Let_def s1_def)
  moreover have "clist (tasks s1 ?c) = []" using c(1) by (simp add: s1)
  ultimately show ?thesis using kinv_wakeup [OF k1] wakeup_keeps [OF k1] s1(2) by metis
qed

lemma kinv_zombie:
  fixes code :: int
  assumes k: "kinv (s, ph)" and ac: "ph (current s) = Active" and c: "INITPID < current s"
    and nc: "clist (tasks s (current s)) = []"
  defines "s' \<equiv> upd_current (\<lambda>t. t\<lparr>tstate := TASK_ZOMBIE, exit_code := code\<rparr>) (del_run (current s) s)"
  shows "kinv (s', ph(current s := Gone))"
proof -
  have s': "slots s' = slots s" "current s' = current s" "run_queue s' = remove1 (current s) (run_queue s)"
    "wait_queues s' = wait_queues s"
    "tstate (tasks s' t) = (if t = current s then TASK_ZOMBIE else tstate (tasks s t))"
    "pid (tasks s' t) = pid (tasks s t)" "ppid (tasks s' t) = ppid (tasks s t)"
    "clist (tasks s' t) = clist (tasks s t)" "priority (tasks s' t) = priority (tasks s t)" for t
    by (simp_all add: s'_def upd_current_def del_run_def)
  have q: "queues_ok s ph" and so: "states_ok s ph" and co: "current_ok s ph" and t: "tasks_ok s" and f: "family_ok s ph"
    using k by (simp_all add: kinv_def)
  note F = family_okD [OF f]
  have d: "distinct (run_queue s)" using q by (simp add: queues_ok_def)
  have c0: "current s \<noteq> 0" "current s \<noteq> INITPID" using c by (auto simp: INITPID_def)
  have sc: "slots s (current s)" using so co ac by (auto simp: current_ok_def states_ok_def)
  have np: "ppid (tasks s x) \<noteq> current s" if "slots s x" "x \<noteq> 0" for x using F(3) [OF that] nc by auto
  have "queues_ok s' (ph(current s := Gone))" using q ac d by (auto simp: queues_ok_def s')
  moreover have "states_ok s' (ph(current s := Gone))"
  proof -
    have "task_ok s' (ph(current s := Gone)) x" if "slots s x" "x \<noteq> 0" for x
    proof (cases "x = current s")
      case True
      then show ?thesis by (simp add: task_ok_def s')
    next
      case False
      then show ?thesis using so that d task_ok_cong [of "ph(current s := Gone)" x ph s' s]
        by (simp add: states_ok_def s')
    qed
    then show ?thesis using so sc c0 d by (auto simp: states_ok_def s')
  qed
  moreover have "current_ok s' (ph(current s := Gone))" by (simp add: current_ok_def s')
  moreover have "tasks_ok s'" using t by (simp add: tasks_ok_def s')
  moreover have "family_ok s' (ph(current s := Gone))"
    by (rule family_okI) (use F np in \<open>auto simp: s'\<close>)
  ultimately show ?thesis by (simp add: kinv_def)
qed

lemma wakeup_zombie: "is_zombie s t \<Longrightarrow> kinv (s, ph) \<Longrightarrow> is_zombie (wakeup p s) t"
proof -
  assume z: "is_zombie s t" and k: "kinv (s, ph)"
  have "\<And>q. distinct (wait_queues s q)" using k by (simp add: kinv_def queues_ok_def)
  then show ?thesis
    by (cases rule: wakeup_woken [of s p]) (use z in \<open>auto simp: same_kernel_def is_zombie_def asleep_def\<close>)
qed

lemma kinv_exit:
  assumes k: "kinv (s, ph)" and ac: "ph (current s) = Active" and c: "INITPID < current s" "slots s INITPID"
    and ex: "do_exit code s = Some (Inr s')"
  shows "kinv (s', ph(current s := Gone)) \<and> is_zombie s' (current s)"
proof -
  define s1 where "s1 = upd_current (\<lambda>t. t\<lparr>alarm_expire := 0\<rparr>) s"
  have s1: "same_kernel s s1" "current s1 = current s"
    unfolding s1_def upd_current_def by (rule same_upd_task; simp)+
  have k1: "kinv (s1, ph)" using kinv_same_current [OF s1] k by simp
  define s2 where "s2 = adopt_children s1"
  have sl1: "slots s1 INITPID" using s1(1) c(2) by (simp add: same_kernel_def)
  have k2: "kinv (s2, ph)" "current s2 = current s" "clist (tasks s2 (current s)) = []"
    using kinv_adopt [OF k1] ac c(1) s1(2) sl1 by (simp_all add: s2_def)
  define pp where "pp = ppid (tasks s1 (current s1))"
  obtain s3 s4 where s3: "notify_parent pp s2 = Inr s3" and s4: "leave_group s3 = Some s4"
    and s': "s' = become_zombie code pp s4"
    using ex unfolding do_exit_def Let_def s1_def [symmetric] s2_def [symmetric] pp_def [symmetric]
    by (auto split: sum.splits)
  have k3: "kinv (s3, ph)" "current s3 = current s" "clist (tasks s3 (current s)) = []"
    using s3 k2 kinv_sendsig [OF k2(1)] sendsig_keeps [OF k2(1)] by (auto simp: notify_parent_def split: if_splits)
  have k4: "kinv (s4, ph)" "current s4 = current s" "clist (tasks s4 (current s)) = []"
    using leave_group_same [OF s4] k3 kinv_same_current [of s3 s4] by (auto simp: same_kernel_def)
  define s6 where "s6 = upd_current (\<lambda>t. t\<lparr>tstate := TASK_ZOMBIE, exit_code := code\<rparr>) (del_run (current s4) s4)"
  have k6: "kinv (s6, ph(current s := Gone))"
    using kinv_zombie [OF k4(1)] ac c(1) k4(2,3) by (simp add: s6_def)
  have z: "is_zombie s6 (current s)" by (simp add: s6_def is_zombie_def upd_current_def del_run_def k4(2))
  show ?thesis using s' k6 z kinv_wakeup [OF k6] wakeup_zombie [OF z k6]
    by (simp add: become_zombie_def Let_def flip: s6_def)
qed

lemma kinv_reap:
  assumes k: "kinv (s, ph)" and ac: "ph (current s) = Active" and t: "t \<in> set (clist (tasks s (current s)))"
    and z: "is_zombie s t"
  shows "kinv (reap t s, ph(t := Active)) \<and> \<not> slots (reap t s) t"
proof -
  have q: "queues_ok s ph" and so: "states_ok s ph" and co: "current_ok s ph" and tk: "tasks_ok s" and f: "family_ok s ph"
    using k by (simp_all add: kinv_def)
  note F = family_okD [OF f]
  have sc: "slots s (current s)" using so co ac by (auto simp: current_ok_def states_ok_def)
  have tt: "slots s t" "t \<noteq> 0" "ppid (tasks s t) = current s" "pid (tasks s t) = t"
    using F(4) [OF sc t] tk by (auto simp: tasks_ok_def)
  have nr: "t \<notin> set (run_queue s)" using so z by (auto simp: states_ok_def is_zombie_def)
  moreover have "task_ok s ph t" using so tt by (simp add: states_ok_def)
  ultimately have g: "ph t = Gone"
    using z by (auto simp: task_ok_def asleep_def is_zombie_def split: phase.splits)
  then have nc: "t \<noteq> current s" using ac by auto
  have s': "slots (reap t s) = (slots s)(t := False)" "current (reap t s) = current s"
    "run_queue (reap t s) = run_queue s" "wait_queues (reap t s) = wait_queues s"
    "tstate (tasks (reap t s) x) = tstate (tasks s x)" "pid (tasks (reap t s) x) = pid (tasks s x)"
    "ppid (tasks (reap t s) x) = ppid (tasks s x)" "priority (tasks (reap t s) x) = priority (tasks s x)"
    "clist (tasks (reap t s) x) = (if x = current s then remove1 t (clist (tasks s x)) else clist (tasks s x))" for x
    using tt by (simp_all add: reap_def upd_current_def)
  have "queues_ok (reap t s) (ph(t := Active))" using q g by (auto simp: queues_ok_def s')
  moreover have "states_ok (reap t s) (ph(t := Active))"
  proof -
    have "task_ok (reap t s) (ph(t := Active)) x" if "slots s x" "x \<noteq> 0" "x \<noteq> t" for x
      using so that task_ok_cong [of "ph(t := Active)" x ph "reap t s" s] by (simp add: states_ok_def s')
    then show ?thesis using so tt nr by (auto simp: states_ok_def s')
  qed
  moreover have "current_ok (reap t s) (ph(t := Active))" using co ac nc by (simp add: current_ok_def s')
  moreover have "tasks_ok (reap t s)" using tk by (simp add: tasks_ok_def s')
  moreover have "family_ok (reap t s) (ph(t := Active))"
  proof (rule family_okI)
    have nt: "ppid (tasks s x) \<noteq> t" if "slots s x" "x \<noteq> 0" for x using F(2) [OF that] g by auto
    show "slots (reap t s) (ppid (tasks (reap t s) x)) \<and> (ph(t := Active)) (ppid (tasks (reap t s) x)) \<noteq> Gone
        \<and> x \<in> set (clist (tasks (reap t s) (ppid (tasks (reap t s) x))))"
      if "slots (reap t s) x" "x \<noteq> 0" for x
      using that F(1-3) [of x] nt [of x] by (auto simp: s' in_set_remove1 split: if_splits)
    show "slots (reap t s) x \<and> x \<noteq> 0 \<and> ppid (tasks (reap t s) x) = p"
      if "slots (reap t s) p" "x \<in> set (clist (tasks (reap t s) p))" for p x
      using that F(4) [of p x] F(5) [of p] tt(3) by (auto simp: s' split: if_splits)
    show "distinct (clist (tasks (reap t s) p))" if "slots (reap t s) p" for p
      using that F(5) [of p] by (auto simp: s' split: if_splits)
  qed
  ultimately show ?thesis by (simp add: kinv_def s')
qed

lemma kinv_switch:
  assumes "kinv (s, ph)" "ph c = Going q"
  shows "queues_ok s (ph(c := Waiting q))" "states_ok s (ph(c := Waiting q))" "family_ok s (ph(c := Waiting q))"
proof -
  have q: "queues_ok s ph" and so: "states_ok s ph" and f: "family_ok s ph" using assms(1) by (simp_all add: kinv_def)
  show "queues_ok s (ph(c := Waiting q))" using q assms(2) by (auto simp: queues_ok_def)
  have "task_ok s (ph(c := Waiting q)) x = task_ok s ph x" for x using assms(2) by (simp add: task_ok_def)
  moreover have "c \<noteq> 0" using so assms(2) by (metis phase.distinct(1) states_ok_def)
  ultimately show "states_ok s (ph(c := Waiting q))" using so assms(2) by (auto simp: states_ok_def)
  show "family_ok s (ph(c := Waiting q))" using f by (auto simp: family_ok_def)
qed

lemma kinv_schedule:
  assumes "kinv (s, ph)" "schedule s = Some s'"
  shows "kinv (s', ph)"
  using schedule_kinv [OF assms(2), of ph] assms(1) by (simp add: kinv_def)

lemma kstep_kinv: "kstep x y \<Longrightarrow> kinv x \<Longrightarrow> kinv y"
proof (induction rule: kstep.induct)
  case (Sleep ph s st ret q c sp s')
  then show ?case by (intro kinv_sleep)
next
  case (Switch ph s q s')
  have p: "queues_ok s (ph(current s := Waiting q))" "states_ok s (ph(current s := Waiting q))"
    "family_ok s (ph(current s := Waiting q))"
    using Switch(1,3) kinv_switch by blast+
  show ?case by (rule schedule_kinv [OF Switch(2) p(1,2) _ p(3)]) (use Switch(3) in \<open>simp add: kinv_def\<close>)
next
  case (Leave ph s s')
  then show ?case by (auto intro: kinv_schedule)
next
  case (Resume ph s q s')
  then show ?case using kinv_resume by fastforce
next
  case (Resched ph s s')
  then show ?case by (auto intro: kinv_schedule)
next
  case (Wake s ph p)
  then show ?case by (rule kinv_wakeup)
next
  case (Send t n s s' ph)
  then show ?case by (auto intro: kinv_sendsig)
next
  case (Tick s ph t c st u b)
  then show ?case by (subst kinv_same_current [OF same_upd_task]) simp_all
next
  case (Fork ph s np nr pg dir_pg thread now)
  then show ?case by (intro kinv_fork)
next
  case (Exit ph s code s')
  then show ?case using kinv_exit by blast
next
  case (Reap ph s t)
  then show ?case using kinv_reap by blast
qed

section \<open>Properties\<close>

text \<open>The state \<open>sched_init\<close> finds: the idle task runs and nobody waits.\<close>

definition at_boot :: "sched \<Rightarrow> bool" where
  "at_boot s \<longleftrightarrow> current s = 0 \<and> slots s = (\<lambda>t. t = 0) \<and> wait_queues s = (\<lambda>_. [])"

definition reachable :: "image_layout \<Rightarrow> u32 \<Rightarrow> sched \<Rightarrow> sched \<times> (nat \<Rightarrow> phase) \<Rightarrow> bool" where
  "reachable l now s0 = kstep\<^sup>*\<^sup>* (sched_init l now s0, \<lambda>_. Active)"

lemma sched_init_kinv:
  assumes "at_boot s0"
  shows "kinv (sched_init l now s0, \<lambda>_. Active)"
proof -
  let ?s = "sched_init l now s0"
  have s: "slots ?s t \<longleftrightarrow> t = 0" "current ?s = 0" "run_queue ?s = []" "wait_queues ?s q = []"
    "tstate (tasks ?s 0) = TASK_RUNNING" "pid (tasks ?s 0) = 0" "priority (tasks ?s 0) = 10" "clist (tasks ?s 0) = []" for t q
    using assms by (auto simp: at_boot_def sched_init_def init_idle_def IDLEPID_def)
  show ?thesis by (simp add: kinv_def queues_ok_def states_ok_def current_ok_def tasks_ok_def family_ok_def s)
qed

lemma reachable_kinv:
  assumes "at_boot s0" "reachable l now s0 x"
  shows "kinv x"
  using assms(2) unfolding reachable_def
  by (induction rule: rtranclp_induct) (auto intro: sched_init_kinv [OF assms(1)] kstep_kinv)



definition demo_layout :: image_layout where
  "demo_layout = \<lparr>l_kp_dir = 0x1000, l_idle = 0x2000, l_text = 0x100000, l_etext = 0x130000, l_data = 0x130000,
     l_edata = 0x140000, l_bss = 0x140000, l_ebss = 0x150000\<rparr>"

definition demo_boot :: sched where
  "demo_boot = demo\<lparr>current := 0, slots := (\<lambda>t. t = 0)\<rparr>"

definition demo_forked :: sched where
  "demo_forked = copy_task 1 0x3000 0x4000 True 5 (sched_init demo_layout 0 demo_boot)"

lemma find_loop_first: "\<not> used i \<Longrightarrow> 0 < n \<Longrightarrow> find_loop used n i = Some (i, i mod (NR_TASKS - 1) + 1)"
  by (cases n) simp_all

lemma demo_boot_reach:
  "at_boot demo_boot" "reachable demo_layout 0 demo_boot (demo_forked, \<lambda>_. Active)" "slots demo_forked 1"
  "current demo_forked = 0" "wait_queues demo_forked = (\<lambda>_. [])" "ppid (tasks demo_forked 1) = 0"
proof -
  have w: "wait_queues demo = (\<lambda>_. [])" by (rule ext) simp
  show "at_boot demo_boot" by (simp add: at_boot_def demo_boot_def w)
  have "\<not> slots (sched_init demo_layout 0 demo_boot) 1" "0 < NR_TASKS"
    by (simp_all add: sched_init_def demo_boot_def NR_TASKS_def)
  then have f: "fst (find_empty_process 1 (sched_init demo_layout 0 demo_boot)) = int 1"
    by (simp add: find_empty_process_def find_loop_first)
  have "kstep (sched_init demo_layout 0 demo_boot, \<lambda>_. Active) (demo_forked, \<lambda>_. Active)"
    unfolding demo_forked_def by (rule Fork [OF refl f])
  then show "reachable demo_layout 0 demo_boot (demo_forked, \<lambda>_. Active)" by (simp add: reachable_def)
  show "slots demo_forked 1" "current demo_forked = 0" "wait_queues demo_forked = (\<lambda>_. [])" "ppid (tasks demo_forked 1) = 0"
    by (simp_all add: demo_forked_def copy_task_def Let_def upd_current_def add_run_eq sched_init_def demo_boot_def w
        child_of_def init_idle_def IDLEPID_def)
qed



end
