(* ===== verification/Net_Common.thy ===== *)
theory Net_Common
  imports Cnix_Prelude
begin

text \<open>
  Helpers of the network stack, \<open>net/common.c\<close>: byte order, addresses, the Internet
  checksum, the port numbers, scattered buffers and sequence numbers. The data of a packet
  buffer is the list of its bytes from \<open>data_ptr\<close> to \<open>dlen\<close>, a packet the list of its buffers.
\<close>

section \<open>Definitions\<close>

subsection \<open>Byte order and addresses\<close>

definition ntohs :: "u16 \<Rightarrow> u16" where
  "ntohs val = (drop_bit 8 val AND 0xff) OR push_bit 8 (val AND 0xff)"

text \<open>The byte of a word in memory, and a word put together from bytes, lowest first.\<close>

definition byte_of :: "nat \<Rightarrow> u32 \<Rightarrow> u8" where
  "byte_of i w = ucast (drop_bit (8 * i) w)"

definition word_of_bytes :: "u8 \<Rightarrow> u8 \<Rightarrow> u8 \<Rightarrow> u8 \<Rightarrow> u32" where
  "word_of_bytes a b c d = ucast a OR push_bit 8 (ucast b) OR push_bit 16 (ucast c) OR push_bit 24 (ucast d)"

definition ntohl :: "u32 \<Rightarrow> u32" where
  "ntohl val = word_of_bytes (byte_of 3 val) (byte_of 2 val) (byte_of 1 val) (byte_of 0 val)"

text \<open>An address is its four bytes.\<close>

type_synonym ip_addr = "u8 list"

definition IP_ADDR_LEN :: nat where "IP_ADDR_LEN = 4"

fun eq_loop :: "nat \<Rightarrow> nat \<Rightarrow> u8 list \<Rightarrow> u8 list \<Rightarrow> bool" where
  "eq_loop i 0 p1 p2 = True"
| "eq_loop i (Suc n) p1 p2 = (if p1 ! i \<noteq> p2 ! i then False else eq_loop (Suc i) n p1 p2)"

definition ip_eq :: "ip_addr \<Rightarrow> ip_addr \<Rightarrow> bool" where
  "ip_eq ip1 ip2 = eq_loop 0 IP_ADDR_LEN ip1 ip2"

definition netmask_ip :: "ip_addr \<Rightarrow> ip_addr \<Rightarrow> ip_addr" where
  "netmask_ip ip m = map (\<lambda>i. ip ! i AND m ! i) [0..<IP_ADDR_LEN]"

subsection \<open>The Internet checksum\<close>

text \<open>\<open>sum >> 16\<close> for the signed \<open>long sum\<close>.\<close>

definition sar16 :: "u32 \<Rightarrow> u32" where
  "sar16 s = (if bit s 31 then drop_bit 16 s OR 0xffff0000 else drop_bit 16 s)"

definition fold_once :: "u32 \<Rightarrow> u32" where
  "fold_once s = (s AND 0xffff) + sar16 s"

text \<open>The sum over the bytes of one buffer; an odd last byte counts as a word of its own.\<close>

fun sum_data :: "u8 list \<Rightarrow> u32 \<Rightarrow> u32" where
  "sum_data [] s = s"
| "sum_data [a] s = s + ucast a"
| "sum_data (a # b # ds) s =
     (let s1 = s + (ucast a OR push_bit 8 (ucast b))
      in sum_data ds (if s1 AND 0x80000000 \<noteq> 0 then fold_once s1 else s1))"

partial_function (option) fold_sum :: "u32 \<Rightarrow> u32 option" where
  "fold_sum s = (if sar16 s \<noteq> 0 then fold_sum (fold_once s) else Some s)"

definition ipchecksum :: "u8 list \<Rightarrow> nat \<Rightarrow> u16 option" where
  "ipchecksum ds len = map_option (\<lambda>s. ucast (NOT s)) (fold_sum (sum_data (take len ds) 0))"

definition checksum :: "u8 list list \<Rightarrow> u16 option" where
  "checksum skb = map_option (\<lambda>s. ucast (NOT s)) (fold_sum (fold sum_data skb 0))"

subsection \<open>Port numbers\<close>

definition MAX_PORT_NUM :: nat where "MAX_PORT_NUM = 65536"
definition RESERVED_PORT_NUM :: nat where "RESERVED_PORT_NUM = 1024"

text \<open>The bitmap of one protocol and its \<open>lastbit\<close>.\<close>

record ports =
  port_bits :: "u32 list"
  last_bit :: nat

text \<open>
  The search for a word that is not full. The loop advances both the pointer \<open>bits\<close> and
  the index, so the word it looks at is \<open>idx\<close> words behind the moved pointer.
\<close>

function port_scan :: "u32 list \<Rightarrow> nat \<Rightarrow> nat \<Rightarrow> (nat \<times> nat) option kres" where
  "port_scan bits lastbit n =
     (let idx0 = (lastbit + n) div 32;
          idx = (if idx0 \<ge> MAX_PORT_NUM div 32 then RESERVED_PORT_NUM div 32 else idx0);
          w = n div 32 + idx
      in if w \<ge> length bits then Inl Overrun
         else if bits ! w XOR 0xffffffff \<noteq> 0 then Inr (Some (idx, w))
         else if n + 32 < MAX_PORT_NUM then port_scan bits lastbit (n + 32)
         else Inr None)"
  by pat_completeness auto
termination by (relation "measure (\<lambda>(bits, lastbit, n). MAX_PORT_NUM - n)") auto

declare port_scan.simps [simp del]

function first_zero :: "u32 \<Rightarrow> nat \<Rightarrow> nat" where
  "first_zero w b = (if b < 32 \<and> w AND push_bit b 1 \<noteq> 0 then first_zero w (b + 1) else b)"
  by pat_completeness auto
termination by (relation "measure (\<lambda>(w, b). 32 - b)") auto

declare first_zero.simps [simp del]

definition inet_port_alloc :: "ports \<Rightarrow> (ports \<times> int) kres" where
  "inet_port_alloc p =
     kbind (port_scan (port_bits p) (last_bit p) 0) (\<lambda>r.
       case r of
         None \<Rightarrow> Inr (p, - 1)
       | Some (idx, w) \<Rightarrow>
           let b = first_zero (port_bits p ! w) 0;
               last = (idx + 1) * 32
           in Inr (\<lparr>port_bits = (port_bits p)[w := port_bits p ! w OR push_bit b 1],
                    last_bit = (if last > MAX_PORT_NUM then RESERVED_PORT_NUM else last)\<rparr>,
                   int (idx * 32 + b)))"

definition inet_port_busy :: "ports \<Rightarrow> u16 \<Rightarrow> bool" where
  "inet_port_busy p port \<longleftrightarrow> port_bits p ! (unat port div 32) AND push_bit (unat port mod 32) 1 \<noteq> 0"

definition inet_port_free :: "ports \<Rightarrow> u16 \<Rightarrow> ports kres" where
  "inet_port_free p port =
     (if \<not> inet_port_busy p port then Inl DIE
      else Inr (p\<lparr>port_bits := (port_bits p)[unat port div 32 :=
                  port_bits p ! (unat port div 32) AND NOT (push_bit (unat port mod 32) 1)]\<rparr>))"

definition inet_port_use :: "ports \<Rightarrow> u16 \<Rightarrow> ports \<times> int" where
  "inet_port_use p port =
     (if inet_port_busy p port then (p, - 1)
      else (p\<lparr>port_bits := (port_bits p)[unat port div 32 :=
                port_bits p ! (unat port div 32) OR push_bit (unat port mod 32) 1]\<rparr>, 0))"

text \<open>The part of \<open>net_init\<close> that sets up one bitmap, on cleared pages.\<close>

definition ports_init :: ports where
  "ports_init = \<lparr>port_bits = replicate (MAX_PORT_NUM div 32) 0, last_bit = RESERVED_PORT_NUM\<rparr>"

subsection \<open>Scattered buffers\<close>

record iovbuf =
  iov :: "u8 list list"
  iovcur :: nat
  iovoff :: int

text \<open>The two copy loops; \<open>i\<close> counts the pieces, \<open>copied\<close> the bytes.\<close>

function from_iov_loop :: "int \<Rightarrow> nat \<Rightarrow> int \<Rightarrow> u8 list \<Rightarrow> iovbuf \<Rightarrow> (u8 list \<times> int \<times> iovbuf) kres" where
  "from_iov_loop len i copied buffer v =
     (if copied < len \<and> i < length (iov v) then
        let base = iov v ! i;
            n = min (len - copied) (int (length base) - iovoff v)
        in if iovoff v < 0 \<or> n < 0 then Inl Overrun
           else kbind (kmemcpy buffer copied (drop (nat (iovoff v)) base) n) (\<lambda>buffer'.
             from_iov_loop len (i + 1) (copied + n) buffer' (v\<lparr>iovoff := int (length base) - n\<rparr>))
      else Inr (buffer, copied, v\<lparr>iovcur := i\<rparr>))"
  by pat_completeness auto
termination by (relation "measure (\<lambda>(len, i, copied, buffer, v). length (iov v) - i)") auto

declare from_iov_loop.simps [simp del]

definition copy_from_iov :: "u8 list \<Rightarrow> iovbuf \<Rightarrow> int \<Rightarrow> (u8 list \<times> iovbuf \<times> int) kres" where
  "copy_from_iov buffer v len =
     kbind (from_iov_loop len (iovcur v) 0 buffer v) (\<lambda>(buffer', copied, v').
       if copied < len then Inl DIE else Inr (buffer', v', copied))"

function to_iov_loop :: "int \<Rightarrow> nat \<Rightarrow> int \<Rightarrow> u8 list \<Rightarrow> iovbuf \<Rightarrow> (int \<times> iovbuf) kres" where
  "to_iov_loop len i copied buffer v =
     (if copied < len \<and> i < length (iov v) then
        let base = iov v ! i;
            n = min (len - copied) (int (length base) - iovoff v)
        in if iovoff v < 0 \<or> n < 0 then Inl Overrun
           else kbind (kmemcpy base (iovoff v) (drop (nat copied) buffer) n) (\<lambda>base'.
             to_iov_loop len (i + 1) (copied + n) buffer
               (v\<lparr>iov := (iov v)[i := base'], iovoff := int (length base) - n\<rparr>))
      else Inr (copied, v\<lparr>iovcur := i\<rparr>))"
  by pat_completeness auto
termination by (relation "measure (\<lambda>(len, i, copied, buffer, v). length (iov v) - i)") auto

declare to_iov_loop.simps [simp del]

definition copy_to_iov :: "u8 list \<Rightarrow> iovbuf \<Rightarrow> int \<Rightarrow> (iovbuf \<times> int) kres" where
  "copy_to_iov buffer v len =
     kbind (to_iov_loop len (iovcur v) 0 buffer v) (\<lambda>(copied, v').
       if copied < len then Inl DIE else Inr (v', copied))"

subsection \<open>Sequence numbers\<close>

text \<open>The \<open>int\<close> variables are converted for the comparisons with the unsigned \<open>seq2\<close>.\<close>

definition compare_seq :: "u32 \<Rightarrow> u32 \<Rightarrow> int" where
  "compare_seq seq seq2 =
     (let seq1 = 0x00010000;
          delta = seq1 - seq;
          seq2' = seq2 + delta
      in if seq1 < seq2' then - 1 else if seq1 > seq2' then 1 else 0)"

section \<open>The checksum as arithmetic\<close>

text \<open>The sum of the 16-bit words of a byte sequence, low byte first.\<close>

fun wsum :: "u8 list \<Rightarrow> nat" where
  "wsum [] = 0"
| "wsum [a] = unat a"
| "wsum (a # b # ds) = unat a + 256 * unat b + wsum ds"

lemma unat_u8: "unat (a :: u8) \<le> 255"
  using unsigned_less [of a, where ?'a = nat] by simp

lemma wsum_bound: "wsum ds \<le> 65535 * ((length ds + 1) div 2)"
proof (induction ds rule: wsum.induct)
  case (2 a)
  then show ?case using unat_u8 [of a] by simp
next
  case (3 a b ds)
  then show ?case using unat_u8 [of a] unat_u8 [of b] by simp
qed simp

lemma wsum_append: "even (length xs) \<Longrightarrow> wsum (xs @ ys) = wsum xs + wsum ys"
  by (induction xs rule: wsum.induct) auto

lemma low_pair: "ucast a OR push_bit 8 (ucast b) = (of_nat (unat a + 256 * unat b) :: u32)" for a b :: u8
proof -
  have "ucast a AND push_bit 8 (ucast b :: u32) = 0"
    by (rule bit_word_eqI) (auto simp: bit_simps dest: bit_imp_le_length)
  then have "ucast a OR push_bit 8 (ucast b :: u32) = ucast a + push_bit 8 (ucast b)"
    by (simp add: disjunctive_add bit_eq_iff bit_simps)
  then show ?thesis by (simp add: push_bit_eq_mult unsigned_ucast_eq)
qed

lemma no_high_bit:
  assumes "unat (s :: u32) < 2 ^ 31"
  shows "\<not> bit s 31" and "s AND 0x80000000 = (0 :: u32)"
proof -
  have "\<not> bit (unat s) 31" by (simp only: bit_iff_odd div_less [OF assms]) simp
  moreover have "bit (unat s) 31 = bit s 31" by (simp add: bit_unsigned_iff)
  ultimately show b: "\<not> bit s 31" by blast
  have "s AND 2 ^ 31 = 0" by (simp only: and_exp_eq_0_iff_not_bit b not_False_eq_True)
  then show "s AND 0x80000000 = 0" by simp
qed

lemma unat_add_of_nat: "unat s + k < 2 ^ 32 \<Longrightarrow> unat (s + of_nat k :: u32) = unat s + k"
  by (simp add: unat_word_ariths unat_of_nat)

lemma sum_data_nat:
  "unat s + wsum ds < 2 ^ 31 \<Longrightarrow> unat (sum_data ds s) = unat s + wsum ds"
proof (induction ds s rule: sum_data.induct)
  case (2 a s)
  have "s + ucast a = s + of_nat (unat a)" by (simp add: unsigned_ucast_eq)
  then show ?case using 2 unat_add_of_nat [of s "unat a"] by simp
next
  case (3 a b ds s)
  define s1 where "s1 = s + of_nat (unat a + 256 * unat b)"
  have u: "unat s1 = unat s + (unat a + 256 * unat b)"
    unfolding s1_def by (rule unat_add_of_nat) (use "3.prems" in simp)
  have h: "s1 AND 0x80000000 = 0" by (rule no_high_bit) (use "3.prems" u in simp)
  have "sum_data (a # b # ds) s = sum_data ds s1"
    using h by (simp only: sum_data.simps Let_def low_pair s1_def [symmetric]) simp
  moreover have "unat (sum_data ds s1) = unat s1 + wsum ds"
    using "3.IH" [OF refl] "3.prems" h u by (simp only: low_pair s1_def [symmetric]) simp
  ultimately show ?case using u by simp
qed simp

lemma sar16_nat: "unat s < 2 ^ 31 \<Longrightarrow> unat (sar16 s) = unat s div 65536"
  by (simp add: sar16_def no_high_bit unat_drop_bit_eq) (simp add: drop_bit_eq_div)

lemma fold_once_nat:
  assumes "unat s < 2 ^ 31"
  shows "unat (fold_once s) = unat s mod 65536 + unat s div 65536"
proof -
  have "unat (s AND 0xffff) = unat s mod 65536"
  proof -
    have "s AND 0xffff = take_bit 16 s" by (simp add: take_bit_eq_mask mask_eq_exp_minus_1)
    then have "unat (s AND 0xffff) = take_bit 16 (unat s)" by (simp only: unsigned_take_bit_eq)
    then show ?thesis by (simp add: take_bit_eq_mod)
  qed
  moreover have "unat s div 65536 < 65536" using assms by (simp add: less_mult_imp_div_less)
  ultimately show ?thesis
    using sar16_nat [OF assms] by (simp add: fold_once_def unat_word_ariths)
qed

text \<open>Folding keeps the value modulo 65535 and ends below 65536.\<close>

lemma fold_sum_nat:
  "unat s < 2 ^ 31 \<Longrightarrow> \<exists>r. fold_sum s = Some r \<and> unat r < 65536 \<and> unat r mod 65535 = unat s mod 65535
     \<and> (unat r = 0 \<longleftrightarrow> unat s = 0)"
proof (induction "unat s" arbitrary: s rule: less_induct)
  case less
  show ?case
  proof (cases "unat s < 65536")
    case True
    then have "unat (sar16 s) = 0" using sar16_nat [OF less.prems] by simp
    then have "sar16 s = 0" by (simp add: word_unat_eq_iff)
    then show ?thesis using True by (subst fold_sum.simps) simp
  next
    case False
    let ?q = "unat s div 65536" and ?m = "unat s mod 65536"
    have q: "0 < ?q" using False by (simp add: div_greater_zero_iff)
    have e: "unat s = ?q * 65536 + ?m" by simp
    have f: "unat (fold_once s) = ?m + ?q" by (rule fold_once_nat [OF less.prems])
    have lt: "unat (fold_once s) < unat s" using e f q by linarith
    have "unat s = (?m + ?q) + ?q * 65535" using e by simp
    then have "unat s mod 65535 = (?m + ?q) mod 65535" by (metis mod_mult_self1)
    moreover have "sar16 s \<noteq> 0" using sar16_nat [OF less.prems] q by auto
    moreover have "unat (fold_once s) < 2 ^ 31" using lt less.prems by linarith
    ultimately show ?thesis using less.hyps [OF lt] f q e
      by (subst fold_sum.simps) auto
  qed
qed

text \<open>The checksum of up to 65535 bytes: the complement of a number that is the sum modulo 65535.\<close>

lemma ipchecksum_nat:
  assumes "length ds \<le> 65535"
  shows "\<exists>c. ipchecksum ds (length ds) = Some c \<and> (wsum ds + unat c) mod 65535 = 0
    \<and> (0 < wsum ds \<and> wsum ds mod 65535 = 0 \<longrightarrow> c = 0) \<and> (wsum ds = 0 \<longrightarrow> unat c = 65535)"
proof -
  have "(length ds + 1) div 2 \<le> 32768" using assms by linarith
  then have "wsum ds \<le> 65535 * 32768" using wsum_bound [of ds] by linarith
  then have w: "wsum ds < 2 ^ 31" by simp
  then have u: "unat (sum_data ds 0) = wsum ds" using sum_data_nat [of 0 ds] by simp
  obtain r where r: "fold_sum (sum_data ds 0) = Some r" "unat r < 65536" "unat r mod 65535 = wsum ds mod 65535"
    "unat r = 0 \<longleftrightarrow> wsum ds = 0"
    using fold_sum_nat [of "sum_data ds 0"] w u by auto
  have c: "unat (ucast (NOT r) :: u16) = 65535 - unat r"
  proof -
    have "ucast (NOT r) = NOT (ucast r :: u16)" by (rule bit_word_eqI) (simp add: bit_simps)
    moreover have "unat (ucast r :: u16) = unat r" using r(2) by (simp add: unsigned_ucast_eq take_bit_eq_mod)
    moreover have "NOT x = - 1 - x" "unat (- 1 - x) = unat (- 1 :: u16) - unat x" for x :: u16
      by (simp add: not_eq_complement) (rule unat_sub, simp)
    ultimately show ?thesis by (simp add: unsigned_minus_1_eq_mask mask_eq_exp_minus_1)
  qed
  have eq: "ipchecksum ds (length ds) = Some (ucast (NOT r))" using r(1) by (simp add: ipchecksum_def)
  show ?thesis
  proof (cases "unat r = 65535")
    case True
    then have "(ucast (NOT r) :: u16) = 0" using c by (simp add: word_unat_eq_iff)
    moreover have "wsum ds mod 65535 = 0" using r(3) True by simp
    moreover have "wsum ds \<noteq> 0" using r(4) True by simp
    ultimately show ?thesis using eq by simp
  next
    case False
    then have lt: "unat r < 65535" using r(2) by simp
    then have m: "wsum ds mod 65535 = unat r" using r(3) by simp
    then have "wsum ds = wsum ds div 65535 * 65535 + unat r" using div_mult_mod_eq [of "wsum ds" 65535] by simp
    then have "wsum ds + (65535 - unat r) = (wsum ds div 65535 + 1) * 65535" using lt by simp
    then have a: "(wsum ds + unat (ucast (NOT r) :: u16)) mod 65535 = 0" unfolding c by (metis mod_mult_self2_is_0)
    have b: "\<not> (0 < wsum ds \<and> wsum ds mod 65535 = 0)" using r(4) m by linarith
    have d: "wsum ds = 0 \<longrightarrow> unat (ucast (NOT r) :: u16) = 65535" using r(4) unfolding c by linarith
    show ?thesis by (rule exI [of _ "ucast (NOT r)"], intro conjI eq a d impI) (rule notE [OF b])
  qed
qed

lemma ipchecksum_zero:
  assumes "length ds \<le> 65535" and "0 < wsum ds" and "wsum ds mod 65535 = 0"
  shows "ipchecksum ds (length ds) = Some 0"
proof -
  obtain c where "ipchecksum ds (length ds) = Some c" "0 < wsum ds \<and> wsum ds mod 65535 = 0 \<longrightarrow> c = 0"
    by (rule exE [OF ipchecksum_nat [OF assms(1)]]) (elim conjE, rule that)
  with assms(2,3) show ?thesis by simp
qed



subsection \<open>Sequence numbers and ports\<close>

lemma compare_seq_unat:
  "compare_seq a b = (if a = b then 0 else if unat (a - b) \<le> 0x10000 then 1 else - 1)"
proof -
  have e: "b + (0x10000 - a) = 0x10000 - (a - b)" by simp
  have "0x10000 - (a - b) = 0x10000 \<longleftrightarrow> a = b" by auto
  moreover have "0x10000 < 0x10000 - (a - b) \<longleftrightarrow> \<not> unat (a - b) \<le> 0x10000"
    unfolding sub_wrap_lt by (simp add: word_less_nat_alt not_le)
  ultimately show ?thesis unfolding compare_seq_def Let_def e by (auto simp: not_less_iff_gr_or_eq)
qed

lemma bit_first_zero:
  assumes "w \<noteq> 0xffffffff" "\<forall>k < b. bit w k" "b \<le> 32"
  shows "first_zero w b < 32 \<and> \<not> bit w (first_zero w b)"
  using assms
proof (induction w b rule: first_zero.induct)
  case (1 w b)
  show ?case
  proof (cases "b < 32 \<and> bit w b")
    case True
    moreover have "\<forall>k < b + 1. bit w k" using True "1.prems"(2) by (auto simp: less_Suc_eq)
    moreover have "w AND push_bit b 1 \<noteq> 0" using True by (simp add: and_exp_eq_0_iff_not_bit)
    ultimately show ?thesis using 1
      by (subst (1 2) first_zero.simps) (simp del: push_bit_of_1)
  next
    case False
    moreover have "b < 32"
    proof (rule ccontr)
      assume "\<not> b < 32"
      then have "w = - 1" using "1.prems"(2,3)
        by (intro bit_word_eqI) (simp add: bit_simps)
      then show False using "1.prems"(1) by simp
    qed
    ultimately show ?thesis
      by (subst (1 2) first_zero.simps) (simp add: and_exp_eq_0_iff_not_bit)
  qed
qed

lemma xor_zero_iff: "x XOR y = 0 \<longleftrightarrow> x = y" for x y :: u32
  by (metis xor.assoc xor.left_neutral xor.right_neutral xor_self_eq)

lemma port_scan_step:
  assumes "length bits = 2048" and "lastbit div 32 = i" and "i + 2 * k < 2048" and "m \<le> k"
    and "\<And>j. m \<le> j \<Longrightarrow> j < k \<Longrightarrow> bits ! (i + 2 * j) = 0xffffffff" and "bits ! (i + 2 * k) \<noteq> 0xffffffff"
  shows "port_scan bits lastbit (32 * m) = Inr (Some (i + k, i + 2 * k))"
  using assms
proof (induction "k - m" arbitrary: m)
  case 0
  then have k: "k = m" by simp
  have e: "m + (m + i) = i + 2 * m" by simp
  have "bits ! (m + (m + i)) \<noteq> 0xffffffff" using 0(7) unfolding k e .
  then show ?case using 0(2-4) unfolding k
    by (subst port_scan.simps) (simp add: MAX_PORT_NUM_def Let_def xor_zero_iff)
next
  case (Suc d)
  have e: "32 * m + 32 = 32 * (m + 1)" by simp
  have "port_scan bits lastbit (32 * m + 32) = Inr (Some (i + k, i + 2 * k))" unfolding e
    by (rule Suc.hyps(1)) (use Suc.hyps(2) Suc.prems in auto)
  moreover have "bits ! (m + (m + i)) = 0xffffffff"
  proof -
    have e: "m + (m + i) = i + 2 * m" by simp
    show ?thesis unfolding e by (rule Suc.prems(5)) (use Suc.hyps(2) in auto)
  qed
  ultimately show ?case using Suc.prems(1-4) Suc.hyps(2)
    by (subst port_scan.simps) (simp add: MAX_PORT_NUM_def Let_def xor_zero_iff)
qed

lemma unat_of_nat_u16: "n < 65536 \<Longrightarrow> unat (of_nat n :: u16) = n"
  by (simp add: unsigned_of_nat take_bit_eq_mod)

lemma busy_bit: "inet_port_busy p port \<longleftrightarrow> bit (port_bits p ! (unat port div 32)) (unat port mod 32)"
  by (simp add: inet_port_busy_def and_exp_eq_0_iff_not_bit)

lemma busy_at:
  assumes "w < 2048" and "b < 32"
  shows "inet_port_busy p (of_nat (32 * w + b)) \<longleftrightarrow> bit (port_bits p ! w) b"
proof -
  have u: "unat (of_nat (32 * w + b) :: u16) = 32 * w + b" using assms by (intro unat_of_nat_u16) simp
  have "(32 * w + b) div 32 = w" "(32 * w + b) mod 32 = b" using assms(2) by simp_all
  then show ?thesis unfolding busy_bit u by simp
qed

lemma busy_update:
  assumes "w < 2048" and "b < 32" and "length (port_bits p) = 2048"
  shows "inet_port_busy (p\<lparr>port_bits := (port_bits p)[w := port_bits p ! w OR push_bit b 1]\<rparr>) port
    \<longleftrightarrow> inet_port_busy p port \<or> unat port = 32 * w + b"
proof -
  have "unat port div 32 = w \<and> unat port mod 32 = b \<longleftrightarrow> unat port = 32 * w + b"
    using assms(2) by auto
  moreover have "unat port div 32 < 2048" using unsigned_less [of port, where ?'a = nat] by (simp add: less_mult_imp_div_less)
  ultimately show ?thesis using assms by (auto simp: busy_bit nth_list_update bit_simps)
qed

text \<open>C34: port allocation. When the search for a word with a free bit succeeds in its first step, the
  port it returns was free and is the only one marked. The search moves both the pointer and the
  index, so after \<open>k\<close> full words it returns a port of the word \<open>i + k\<close>, but marks one of the
  word \<open>i + 2 * k\<close>: the two agree for \<open>k = 0\<close> only.\<close>

theorem inet_port_alloc_marks:
  assumes "length (port_bits p) = 2048" and "last_bit p div 32 = i" and "i + 2 * k < 2048"
    and "\<And>j. j < k \<Longrightarrow> port_bits p ! (i + 2 * j) = 0xffffffff" and "port_bits p ! (i + 2 * k) \<noteq> 0xffffffff"
  shows "\<exists>b < 32. \<exists>p'. inet_port_alloc p = Inr (p', int (32 * (i + k) + b))
    \<and> \<not> inet_port_busy p (of_nat (32 * (i + 2 * k) + b))
    \<and> (\<forall>m. inet_port_busy p' m \<longleftrightarrow> inet_port_busy p m \<or> unat m = 32 * (i + 2 * k) + b)"
proof -
  let ?w = "i + 2 * k"
  let ?b = "first_zero (port_bits p ! ?w) 0"
  let ?bits = "(port_bits p)[?w := port_bits p ! ?w OR push_bit ?b 1]"
  let ?p = "\<lparr>port_bits = ?bits, last_bit = (if (i + k + 1) * 32 > MAX_PORT_NUM then RESERVED_PORT_NUM else (i + k + 1) * 32)\<rparr>"
  have b: "?b < 32" "\<not> bit (port_bits p ! ?w) ?b" using bit_first_zero [OF assms(5), of 0] by auto
  have "port_scan (port_bits p) (last_bit p) 0 = Inr (Some (i + k, ?w))"
    using port_scan_step [OF assms(1-3), of 0] assms(4,5) by simp
  then have "inet_port_alloc p = Inr (?p, int (32 * (i + k) + ?b))"
    unfolding inet_port_alloc_def by (simp add: Let_def mult.commute)
  moreover have "\<not> inet_port_busy p (of_nat (32 * ?w + ?b))" using b(2) busy_at [OF assms(3) b(1)] by blast
  moreover have "inet_port_busy ?p m \<longleftrightarrow> inet_port_busy p m \<or> unat m = 32 * ?w + ?b" for m
    using busy_update [OF assms(3) b(1) assms(1), of m] by (simp add: inet_port_busy_def)
  ultimately show ?thesis using b(1) by blast
qed

theorem inet_port_alloc_marks_witness:
  "\<exists>b < 32. \<exists>p'. inet_port_alloc (ports_init\<lparr>port_bits := (port_bits ports_init)[32 := 0xffffffff]\<rparr>) = Inr (p', int (1056 + b))
    \<and> \<not> inet_port_busy ports_init (of_nat (1088 + b)) \<and> inet_port_busy p' (of_nat (1088 + b))"
proof -
  let ?p = "ports_init\<lparr>port_bits := (port_bits ports_init)[32 := 0xffffffff]\<rparr>"
  have "unat (of_nat (1088 + b) :: u16) = 1088 + b" if "b < 32" for b using that by (intro unat_of_nat_u16) simp
  moreover have "\<not> inet_port_busy ports_init (of_nat (1088 + b))" if "b < 32" for b
    using that calculation [OF that] by (simp add: busy_bit ports_init_def MAX_PORT_NUM_def)
  ultimately show ?thesis
    using inet_port_alloc_marks [of ?p 32 1] by (fastforce simp: ports_init_def MAX_PORT_NUM_def RESERVED_PORT_NUM_def)
qed

text \<open>C35: sequence numbers are compared in a window. The number \<open>a\<close> counts as later than \<open>b\<close> only
  when it is ahead by at most 65536 modulo \<open>2 ^ 32\<close>, and as earlier otherwise: the order is
  antisymmetric exactly on numbers whose distance, either way round, is in the window; two numbers
  further apart each count as the earlier one.\<close>

theorem compare_seq_window:
  "(compare_seq a b = 0 \<longleftrightarrow> a = b) \<and> (compare_seq a b = 1 \<longleftrightarrow> a \<noteq> b \<and> unat (a - b) \<le> 0x10000)
   \<and> (compare_seq a b = - compare_seq b a \<longleftrightarrow> unat (a - b) \<le> 0x10000 \<or> unat (b - a) \<le> 0x10000)"
proof -
  have far: "\<not> (unat d \<le> 0x10000 \<and> unat (- d) \<le> 0x10000)" if "d \<noteq> 0" for d :: u32
  proof
    assume "unat d \<le> 0x10000 \<and> unat (- d) \<le> 0x10000"
    moreover have "unat (d + - d) = (unat d + unat (- d)) mod 2 ^ 32" by (simp only: unat_word_ariths) simp
    ultimately have "unat d = 0" by simp
    then show False using that by (simp add: word_unat_eq_iff)
  qed
  have "\<not> (unat (a - b) \<le> 0x10000 \<and> unat (b - a) \<le> 0x10000)" if "a \<noteq> b"
    using far [of "a - b"] that by simp
  then show ?thesis by (auto simp: compare_seq_unat)
qed

subsection \<open>Scattered buffers\<close>

lemma from_iov_loop_fresh:
  assumes "iovoff v = 0" and "i \<le> length (iov v)" and "c \<le> len" and "len - c \<le> length (concat (drop i (iov v)))"
    and "len \<le> length buffer"
  shows "\<exists>v'. from_iov_loop (int len) i (int c) buffer v
    = Inr (take c buffer @ take (len - c) (concat (drop i (iov v))) @ drop len buffer, int len, v')"
  using assms
proof (induction "length (iov v) - i" arbitrary: i c buffer v)
  case 0
  then show ?case by (subst from_iov_loop.simps) simp
next
  case (Suc d)
  then have i: "i < length (iov v)" by simp
  let ?base = "iov v ! i"
  have dr: "drop i (iov v) = ?base # drop (i + 1) (iov v)" using i by (simp add: Cons_nth_drop_Suc)
  let ?n = "min (len - c) (length ?base)"
  show ?case
  proof (cases "c < len")
    case False
    then show ?thesis using Suc.prems(3) by (subst from_iov_loop.simps) simp
  next
    case True
    let ?buf = "memcpy_at buffer c ?base ?n"
    have n: "min (int len - int c) (int (length ?base) - iovoff v) = int ?n" using Suc.prems(1) True by auto
    have cp: "kmemcpy buffer (int c) ?base (int ?n) = Inr ?buf"
      using True Suc.prems(5) by (simp add: kmemcpy_def)
    let ?v = "v\<lparr>iovoff := int (length ?base) - int ?n\<rparr>"
    have unf: "from_iov_loop (int len) i (int c) buffer v = from_iov_loop (int len) (i + 1) (int (c + ?n)) ?buf ?v"
      using True i n cp Suc.prems(1) by (subst from_iov_loop.simps) (simp add: Let_def)
    show ?thesis
    proof (cases "length ?base \<le> len - c")
      case True
      then have "\<exists>v'. from_iov_loop (int len) (i + 1) (int (c + ?n)) ?buf ?v
        = Inr (take (c + ?n) ?buf @ take (len - (c + ?n)) (concat (drop (i + 1) (iov ?v))) @ drop len ?buf, int len, v')"
        using Suc.hyps(2) Suc.prems i dr by (intro Suc.hyps(1)) (auto simp: memcpy_at_def)
      then show ?thesis using unf dr True Suc.prems \<open>c < len\<close> by (simp add: memcpy_at_def)
    next
      case False
      then have "c + ?n = len" using \<open>c < len\<close> by simp
      then show ?thesis using unf dr False Suc.prems \<open>c < len\<close>
        by (subst (asm) (2) from_iov_loop.simps) (simp add: memcpy_at_def)
    qed
  qed
qed

lemma from_iov_loop_past: "i \<ge> length (iov v) \<Longrightarrow> 0 < len \<Longrightarrow>
    from_iov_loop len i 0 buffer v = Inr (buffer, 0, v\<lparr>iovcur := i\<rparr>)"
  by (subst from_iov_loop.simps) simp

lemma copy_from_iov_piece:
  assumes "iov v = [xs]" and "iovcur v = 0" and "iovoff v = 0" and "0 < len" and "len \<le> length xs" and "len \<le> length buffer"
  shows "\<exists>buffer'. copy_from_iov buffer v (int len) = Inr (buffer', v\<lparr>iovoff := int (length xs - len), iovcur := 1\<rparr>, int len)"
  using assms unfolding copy_from_iov_def
  by (subst from_iov_loop.simps, subst from_iov_loop.simps) (auto simp: kmemcpy_def of_nat_diff Let_def)

text \<open>C36: a copy out of scattered pieces. The first copy gathers the first \<open>len\<close> bytes of the pieces in
  their order, whatever way they are cut. It leaves the buffer at the piece after the one it
  stopped in, so when it took a part of a single piece, the copy that asks for one byte of the
  rest stops the machine.\<close>

theorem copy_from_iov_gathers:
  assumes "iovcur v = 0" and "iovoff v = 0" and "len \<le> length (concat (iov v))" and "len \<le> length buffer"
  shows "\<exists>v'. copy_from_iov buffer v (int len) = Inr (take len (concat (iov v)) @ drop len buffer, v', int len)
    \<and> (\<forall>xs. iov v = [xs] \<and> 0 < len \<longrightarrow> copy_from_iov buffer v' 1 = Inl DIE)"
proof -
  obtain v' where v: "copy_from_iov buffer v (int len) = Inr (take len (concat (iov v)) @ drop len buffer, v', int len)"
    using from_iov_loop_fresh [of v 0 0 len buffer] assms by (auto simp: copy_from_iov_def)
  moreover have "copy_from_iov buffer v' 1 = Inl DIE" if "iov v = [xs]" "0 < len" for xs
  proof -
    have "v' = v\<lparr>iovoff := int (length xs - len), iovcur := 1\<rparr>"
      using copy_from_iov_piece [OF that(1) assms(1,2) that(2), of buffer] v assms(3,4) that(1) by simp
    then show ?thesis using that(1) by (simp add: copy_from_iov_def from_iov_loop_past)
  qed
  ultimately show ?thesis by blast
qed

theorem copy_from_iov_gathers_witness:
  "\<exists>v'. copy_from_iov [0, 0] \<lparr>iov = [[1, 2, 3]], iovcur = 0, iovoff = 0\<rparr> 2 = Inr ([1, 2], v', 2)
    \<and> copy_from_iov [0, 0] v' 1 = Inl DIE"
  using copy_from_iov_gathers [of "\<lparr>iov = [[1, 2, 3]], iovcur = 0, iovoff = 0\<rparr>" 2 "[0, 0]"] by auto

end
