(* ===== verification/Route.thy ===== *)
theory Route
  imports Net_Common
begin

text \<open>
  Network interfaces and routes: \<open>net/netif.c\<close>, \<open>net/route.c\<close>, \<open>net/loopback.c\<close> and the
  requests and the choice of the next hop of \<open>net/ether.c\<close>. An interface is an object with a
  number, the pointers to it are that number; the device list and the route table are the
  sequences of their entries. The ring of addresses of an interface starts at its \<open>netif_addr\<close>.
\<close>

section \<open>Definitions\<close>

definition EADDRNOTAVAIL :: int where "EADDRNOTAVAIL = 99"
definition ENOSYS :: int where "ENOSYS = 38"
definition ENOTSUP :: int where "ENOTSUP = 95"

definition AF_INET :: u16 where "AF_INET = 2"
definition ARPHRD_ETHER :: u16 where "ARPHRD_ETHER = 1"
definition ARPHRD_LOOPBACK :: u16 where "ARPHRD_LOOPBACK = 772"
definition ETHER_MTU :: int where "ETHER_MTU = 1500"
definition LOOP_MTU :: int where "LOOP_MTU = 16 * 1024"
definition MAC_ADDR_LEN :: nat where "MAC_ADDR_LEN = 6"

definition RTF_UP :: u16 where "RTF_UP = 1"
definition RTF_GATEWAY :: u16 where "RTF_GATEWAY = 2"
definition RTF_HOST :: u16 where "RTF_HOST = 4"

datatype request = SIOCADDRT | SIOCDELRT | SIOCGIFCONF | SIOCGIFMTU | SIOCSIFMTU | SIOCGIFFLAGS | SIOCSIFFLAGS
  | SIOCGIFADDR | SIOCSIFADDR | SIOCGIFBRDADDR | SIOCSIFBRDADDR | SIOCGIFNETMASK | SIOCSIFNETMASK
  | SIOCGIFHWADDR | SIOCSIFHWADDR | SIOCSIFHWBROADCAST | OtherRequest

subsection \<open>Interfaces\<close>

record netif_addr =
  addr_netif :: nat
  if_ip :: ip_addr
  if_netmask :: ip_addr
  if_bcast :: ip_addr
  ether_addr :: "u8 list"
  ether_bcast_addr :: "u8 list"

text \<open>The functions an interface is given.\<close>

datatype netif_ops = Lo_ops | Ether_ops

record packet =
  pkt_id :: nat
  dgram_len :: u32
  pkt_netif :: "nat option"

record netif =
  netif_name :: string
  rx_frame_count :: u32
  tx_frame_count :: u32
  rx_error_count :: u32
  tx_error_count :: u32
  rx_byte_count :: u32
  tx_byte_count :: u32
  in_queue :: "packet list"
  out_queue :: "packet list"
  netif_mtu :: int
  netif_metric :: int
  netif_flag :: u32
  netif_ops :: netif_ops
  netif_addrs :: "netif_addr list"
  io_base_addr :: u32
  irq_no :: int

record route =
  dest :: ip_addr
  gateway :: ip_addr
  netmask :: ip_addr
  rflag :: u16
  rnetif :: nat

record net =
  netif_at :: "nat \<Rightarrow> netif"
  net_device_list :: "nat list"
  route_list :: "route list"

text \<open>Both arguments masked with the mask of an interface address.\<close>

definition same_net :: "ip_addr \<Rightarrow> netif_addr \<Rightarrow> bool" where
  "same_net ip a = ip_eq (netmask_ip ip (if_netmask a)) (netmask_ip (if_ip a) (if_netmask a))"

definition get_netif_from_alist :: "ip_addr \<Rightarrow> netif_addr list \<Rightarrow> nat option" where
  "get_netif_from_alist ip as = map_option addr_netif (find (same_net ip) as)"

fun outif_loop :: "(nat \<Rightarrow> netif) \<Rightarrow> ip_addr \<Rightarrow> nat list \<Rightarrow> nat option" where
  "outif_loop nt ip [] = None"
| "outif_loop nt ip (i # is) =
     (case get_netif_from_alist ip (netif_addrs (nt i)) of Some r \<Rightarrow> Some r | None \<Rightarrow> outif_loop nt ip is)"

definition get_outif :: "net \<Rightarrow> ip_addr \<Rightarrow> nat option" where
  "get_outif n ip = outif_loop (netif_at n) ip (net_device_list n)"

definition match_ifaddr :: "net \<Rightarrow> ip_addr \<Rightarrow> bool" where
  "match_ifaddr n ip \<longleftrightarrow> get_outif n ip \<noteq> None"

definition find_netif_by_name :: "net \<Rightarrow> string \<Rightarrow> nat option" where
  "find_netif_by_name n name = find (\<lambda>i. netif_name (netif_at n i) = name) (net_device_list n)"

definition add_netif :: "nat \<Rightarrow> net \<Rightarrow> net \<times> bool" where
  "add_netif i n =
     (case find_netif_by_name n (netif_name (netif_at n i)) of
        Some old \<Rightarrow> (n\<lparr>net_device_list := remove1 old (net_device_list n) @ [i]\<rparr>, True)
      | None \<Rightarrow> (n\<lparr>net_device_list := net_device_list n @ [i]\<rparr>, False))"

definition del_netif :: "nat \<Rightarrow> net \<Rightarrow> net \<times> bool" where
  "del_netif i n =
     (case find_netif_by_name n (netif_name (netif_at n i)) of
        Some old \<Rightarrow> (n\<lparr>net_device_list := remove1 old (net_device_list n)\<rparr>, True)
      | None \<Rightarrow> (n, False))"

definition get_netif_ip_addr :: "net \<Rightarrow> nat option \<Rightarrow> ip_addr option" where
  "get_netif_ip_addr n x = map_option (\<lambda>i. if_ip (hd (netif_addrs (netif_at n i)))) x"

definition get_netif_netmask :: "net \<Rightarrow> nat option \<Rightarrow> ip_addr option" where
  "get_netif_netmask n x = map_option (\<lambda>i. if_netmask (hd (netif_addrs (netif_at n i)))) x"

definition upd_netif :: "nat \<Rightarrow> (netif \<Rightarrow> netif) \<Rightarrow> net \<Rightarrow> net" where
  "upd_netif i f n = n\<lparr>netif_at := (netif_at n)(i := f (netif_at n i))\<rparr>"

text \<open>The transmit error count is not reset, the transmit byte count twice.\<close>

definition netif_initialize :: "netif \<Rightarrow> netif" where
  "netif_initialize x = x\<lparr>rx_byte_count := 0, rx_frame_count := 0, rx_error_count := 0,
     tx_byte_count := 0, tx_frame_count := 0, in_queue := [], out_queue := []\<rparr>"

definition process_all_input :: "(nat \<Rightarrow> net \<Rightarrow> net) \<Rightarrow> net \<Rightarrow> net" where
  "process_all_input netif_input n = fold netif_input (net_device_list n) n"

text \<open>The caller may change the configuration (\<open>CHECK_PERM\<close>).\<close>

definition may_config :: "int \<Rightarrow> int \<Rightarrow> bool" where
  "may_config euid uid \<longleftrightarrow> \<not> (euid \<noteq> 0 \<and> uid \<noteq> 0)"

subsection \<open>Loopback\<close>

definition loopback_netif :: "nat \<Rightarrow> netif" where
  "loopback_netif i =
     \<lparr>netif_name = ''lo'', rx_frame_count = 0, tx_frame_count = 0, rx_error_count = 0, tx_error_count = 0,
      rx_byte_count = 0, tx_byte_count = 0, in_queue = [], out_queue = [], netif_mtu = LOOP_MTU, netif_metric = 1,
      netif_flag = 0x1 OR 0x8 OR 0x40, netif_ops = Lo_ops,
      netif_addrs = [\<lparr>addr_netif = i, if_ip = [127, 0, 0, 1], if_netmask = [255, 0, 0, 1], if_bcast = [0, 0, 0, 0],
                       ether_addr = [], ether_bcast_addr = []\<rparr>],
      io_base_addr = 0, irq_no = 0\<rparr>"

definition loopback_init :: "nat \<Rightarrow> net \<Rightarrow> net" where
  "loopback_init i n = fst (add_netif i (upd_netif i (\<lambda>_. netif_initialize (loopback_netif i)) n))"

definition lo_output :: "nat \<Rightarrow> packet \<Rightarrow> net \<Rightarrow> net" where
  "lo_output i p = upd_netif i (\<lambda>x. x\<lparr>in_queue := in_queue x @ [p]\<rparr>)"

text \<open>The input loop ends when the queue is empty, which the handler of a packet may fill again.\<close>

partial_function (option) lo_input :: "(packet \<Rightarrow> net \<Rightarrow> net) \<Rightarrow> nat \<Rightarrow> net \<Rightarrow> net kres option" where
  "lo_input input_ip_packet i n =
     (case in_queue (netif_at n i) of
        [] \<Rightarrow> Some (Inr n)
      | p # ps \<Rightarrow>
          let n1 = upd_netif i (\<lambda>x. x\<lparr>in_queue := ps, rx_frame_count := rx_frame_count x + 1,
                                      rx_byte_count := rx_byte_count x + dgram_len p\<rparr>) n
          in case find_netif_by_name n1 ''lo'' of
               None \<Rightarrow> Some (Inl DIE)
             | Some l \<Rightarrow> lo_input input_ip_packet i (input_ip_packet (p\<lparr>pkt_netif := Some l\<rparr>) n1))"

subsection \<open>Ethernet\<close>

text \<open>\<open>name\<close> is the name printed with the number of the card, \<open>mem\<close> whether the allocation of the address succeeded.\<close>

definition ether_address :: "nat \<Rightarrow> u8 list \<Rightarrow> netif_addr" where
  "ether_address i pmac =
     \<lparr>addr_netif = i, if_ip = [192, 168, 23, 123], if_netmask = [255, 255, 255, 0], if_bcast = [192, 168, 23, 255],
      ether_addr = pmac, ether_bcast_addr = replicate MAC_ADDR_LEN 0xFF\<rparr>"

definition ether_init :: "bool \<Rightarrow> nat \<Rightarrow> string \<Rightarrow> u32 \<Rightarrow> int \<Rightarrow> u8 list \<Rightarrow> net \<Rightarrow> net kres" where
  "ether_init mem i name base irq pmac n =
     (if \<not> mem then Inl DIE
      else Inr (fst (add_netif i (upd_netif i (\<lambda>x. (netif_initialize x)\<lparr>netif_name := name, netif_mtu := ETHER_MTU,
             netif_metric := 1, netif_flag := 1, netif_ops := Ether_ops, netif_addrs := [ether_address i pmac],
             io_base_addr := base, irq_no := irq\<rparr>) n))))"

definition mac_addr_equal :: "u8 list \<Rightarrow> u8 list \<Rightarrow> bool" where
  "mac_addr_equal src dst = eq_loop 0 MAC_ADDR_LEN src dst"

definition find_netif_from_alist :: "u8 list \<Rightarrow> netif_addr list \<Rightarrow> nat option" where
  "find_netif_from_alist pmac as = map_option addr_netif (find (\<lambda>a. mac_addr_equal (ether_addr a) pmac) as)"

text \<open>The interfaces whose name starts with \<open>eth\<close>.\<close>

definition is_ether :: "netif \<Rightarrow> bool" where
  "is_ether x \<longleftrightarrow> take 3 (netif_name x) = ''eth''"

fun by_mac_loop :: "(nat \<Rightarrow> netif) \<Rightarrow> u8 list \<Rightarrow> nat list \<Rightarrow> nat option" where
  "by_mac_loop nt pmac [] = None"
| "by_mac_loop nt pmac (i # is) =
     (if \<not> is_ether (nt i) then by_mac_loop nt pmac is
      else case find_netif_from_alist pmac (netif_addrs (nt i)) of
             Some r \<Rightarrow> Some r
           | None \<Rightarrow> by_mac_loop nt pmac is)"

definition get_netif_by_mac :: "net \<Rightarrow> u8 list \<Rightarrow> nat option" where
  "get_netif_by_mac n pmac = by_mac_loop (netif_at n) pmac (net_device_list n)"

definition get_netif_by_irq :: "net \<Rightarrow> int \<Rightarrow> nat option" where
  "get_netif_by_irq n irq = find (\<lambda>i. is_ether (netif_at n i) \<and> irq_no (netif_at n i) = irq) (net_device_list n)"

definition get_ether_boardcast_addr :: "net \<Rightarrow> nat option \<Rightarrow> u8 list option" where
  "get_ether_boardcast_addr n x = map_option (\<lambda>i. ether_bcast_addr (hd (netif_addrs (netif_at n i)))) x"

definition get_ether_mac_addr :: "net \<Rightarrow> nat option \<Rightarrow> u8 list option" where
  "get_ether_mac_addr n x = map_option (\<lambda>i. ether_addr (hd (netif_addrs (netif_at n i)))) x"

subsection \<open>Requests\<close>

text \<open>
  The request structure: the name and the sixteen bytes of the union behind it. A socket
  address is the family in two bytes and the data, an Internet address has its four bytes
  behind the port, in the bytes 4 to 7 of the structure.
\<close>

record ifreq =
  ifr_name :: string
  ifru :: "u8 list"

definition put_at :: "nat \<Rightarrow> u8 list \<Rightarrow> u8 list \<Rightarrow> u8 list" where
  "put_at off bs us = take off us @ bs @ drop (off + length bs) us"

definition get_at :: "nat \<Rightarrow> nat \<Rightarrow> u8 list \<Rightarrow> u8 list" where
  "get_at off k us = take k (drop off us)"

definition bytes16 :: "u16 \<Rightarrow> u8 list" where
  "bytes16 w = [ucast w, ucast (drop_bit 8 w)]"

definition bytes32 :: "u32 \<Rightarrow> u8 list" where
  "bytes32 w = map (\<lambda>i. byte_of i w) [0, 1, 2, 3]"

definition ifr_mtu :: "ifreq \<Rightarrow> int" where
  "ifr_mtu r = sint (word_of_bytes (ifru r ! 0) (ifru r ! 1) (ifru r ! 2) (ifru r ! 3))"

definition set_mtu :: "int \<Rightarrow> ifreq \<Rightarrow> ifreq" where
  "set_mtu m r = r\<lparr>ifru := put_at 0 (bytes32 (word_of_int m)) (ifru r)\<rparr>"

definition set_flags :: "u32 \<Rightarrow> ifreq \<Rightarrow> ifreq" where
  "set_flags f r = r\<lparr>ifru := put_at 0 (bytes16 (ucast f)) (ifru r)\<rparr>"

definition sin_addr :: "ifreq \<Rightarrow> ip_addr" where
  "sin_addr r = get_at 4 IP_ADDR_LEN (ifru r)"

definition set_sin_addr :: "ip_addr \<Rightarrow> ifreq \<Rightarrow> ifreq" where
  "set_sin_addr ip r = r\<lparr>ifru := put_at 0 (bytes16 AF_INET) (put_at 4 ip (ifru r))\<rparr>"

definition upd_addr :: "(netif_addr \<Rightarrow> netif_addr) \<Rightarrow> netif \<Rightarrow> netif" where
  "upd_addr f x = x\<lparr>netif_addrs := f (hd (netif_addrs x)) # tl (netif_addrs x)\<rparr>"

fun lo_ioctl :: "bool \<Rightarrow> request \<Rightarrow> nat \<Rightarrow> ifreq \<Rightarrow> net \<Rightarrow> int \<times> ifreq \<times> net" where
  "lo_ioctl root SIOCGIFMTU i r n = (0, set_mtu (netif_mtu (netif_at n i)) r, n)"
| "lo_ioctl root SIOCSIFMTU i r n =
     (if \<not> root then (- EPERM, r, n)
      else if ifr_mtu r > LOOP_MTU then (- EINVAL, r, n)
      else (0, r, upd_netif i (\<lambda>x. x\<lparr>netif_mtu := ifr_mtu r\<rparr>) n))"
| "lo_ioctl root SIOCGIFFLAGS i r n = (0, set_flags (netif_flag (netif_at n i)) r, n)"
| "lo_ioctl root SIOCSIFFLAGS i r n = (if \<not> root then (- EPERM, r, n) else (0, r, n))"
| "lo_ioctl root SIOCGIFHWADDR i r n =
     (0, r\<lparr>ifru := put_at 0 (bytes16 ARPHRD_LOOPBACK @ replicate 14 0) (ifru r)\<rparr>, n)"
| "lo_ioctl root _ i r n = (- ENOTSUP, r, n)"

text \<open>\<open>drv\<close> is the card driver's \<open>ioctl\<close>, called with the flags of the interface. A request no case handles returns 0.\<close>

fun ether_ioctl :: "(nat \<Rightarrow> u32 \<Rightarrow> int) \<Rightarrow> bool \<Rightarrow> request \<Rightarrow> nat \<Rightarrow> ifreq \<Rightarrow> net \<Rightarrow> int \<times> ifreq \<times> net" where
  "ether_ioctl drv root SIOCGIFMTU i r n = (0, set_mtu (netif_mtu (netif_at n i)) r, n)"
| "ether_ioctl drv root SIOCSIFMTU i r n =
     (if \<not> root then (- EPERM, r, n)
      else if ifr_mtu r > ETHER_MTU then (- EINVAL, r, n)
      else (0, r, upd_netif i (\<lambda>x. x\<lparr>netif_mtu := ifr_mtu r\<rparr>) n))"
| "ether_ioctl drv root SIOCGIFHWADDR i r n =
     (0, r\<lparr>ifru := put_at 0 (bytes16 ARPHRD_ETHER) (put_at 2 (ether_addr (hd (netif_addrs (netif_at n i)))) (ifru r))\<rparr>, n)"
| "ether_ioctl drv root SIOCSIFHWADDR i r n =
     (if \<not> root then (- EPERM, r, n)
      else (0, r, upd_netif i (upd_addr (\<lambda>a. a\<lparr>ether_addr := get_at 2 MAC_ADDR_LEN (ifru r)\<rparr>)) n))"
| "ether_ioctl drv root SIOCGIFFLAGS i r n = (0, set_flags (netif_flag (netif_at n i)) r, n)"
| "ether_ioctl drv root SIOCSIFFLAGS i r n =
     (if \<not> root then (- EPERM, r, n)
      else if drv i (netif_flag (netif_at n i)) < 0 then (- EAGAIN, r, n) else (0, r, n))"
| "ether_ioctl drv root _ i r n = (0, r, n)"

definition netif_ioctl :: "(nat \<Rightarrow> u32 \<Rightarrow> int) \<Rightarrow> bool \<Rightarrow> request \<Rightarrow> nat \<Rightarrow> ifreq \<Rightarrow> net \<Rightarrow> int \<times> ifreq \<times> net" where
  "netif_ioctl drv root op i r n =
     (case netif_ops (netif_at n i) of Lo_ops \<Rightarrow> lo_ioctl root op i r n | Ether_ops \<Rightarrow> ether_ioctl drv root op i r n)"

definition do_with_common :: "(nat \<Rightarrow> u32 \<Rightarrow> int) \<Rightarrow> bool \<Rightarrow> request \<Rightarrow> ifreq \<Rightarrow> net \<Rightarrow> int \<times> ifreq \<times> net" where
  "do_with_common drv root op r n =
     (case find_netif_by_name n (ifr_name r) of
        None \<Rightarrow> (- EADDRNOTAVAIL, r, n)
      | Some i \<Rightarrow> netif_ioctl drv root op i r n)"

fun netifaddr_op :: "(nat \<Rightarrow> u32 \<Rightarrow> int) \<Rightarrow> bool \<Rightarrow> request \<Rightarrow> nat \<Rightarrow> ifreq \<Rightarrow> net \<Rightarrow> int \<times> ifreq \<times> net" where
  "netifaddr_op drv root SIOCGIFADDR i r n = (0, set_sin_addr (if_ip (hd (netif_addrs (netif_at n i)))) r, n)"
| "netifaddr_op drv root SIOCSIFADDR i r n =
     (if \<not> root then (- EPERM, r, n) else (0, r, upd_netif i (upd_addr (\<lambda>a. a\<lparr>if_ip := sin_addr r\<rparr>)) n))"
| "netifaddr_op drv root SIOCGIFNETMASK i r n = (0, set_sin_addr (if_netmask (hd (netif_addrs (netif_at n i)))) r, n)"
| "netifaddr_op drv root SIOCSIFNETMASK i r n =
     (if \<not> root then (- EPERM, r, n) else (0, r, upd_netif i (upd_addr (\<lambda>a. a\<lparr>if_netmask := sin_addr r\<rparr>)) n))"
| "netifaddr_op drv root SIOCGIFBRDADDR i r n = (0, set_sin_addr (if_bcast (hd (netif_addrs (netif_at n i)))) r, n)"
| "netifaddr_op drv root SIOCSIFBRDADDR i r n =
     (if \<not> root then (- EPERM, r, n) else (0, r, upd_netif i (upd_addr (\<lambda>a. a\<lparr>if_bcast := sin_addr r\<rparr>)) n))"
| "netifaddr_op drv root op i r n = netif_ioctl drv root op i r n"

definition do_with_netifaddr :: "(nat \<Rightarrow> u32 \<Rightarrow> int) \<Rightarrow> bool \<Rightarrow> request \<Rightarrow> ifreq \<Rightarrow> net \<Rightarrow> int \<times> ifreq \<times> net" where
  "do_with_netifaddr drv root op r n =
     (case find_netif_by_name n (ifr_name r) of
        None \<Rightarrow> (- EADDRNOTAVAIL, r, n)
      | Some i \<Rightarrow> netifaddr_op drv root op i r n)"

text \<open>
  The list of interfaces for \<open>SIOCGIFCONF\<close>, into the user's array of \<open>n\<close> entries: the address goes
  to the start of \<open>sa_data\<close>. The loop stores an entry before it tests \<open>n\<close>.
\<close>

fun ifconf_loop :: "net \<Rightarrow> nat list \<Rightarrow> nat \<Rightarrow> nat \<Rightarrow> ifreq list \<Rightarrow> (ifreq list \<times> nat) kres" where
  "ifconf_loop net [] i n array = Inr (array, i)"
| "ifconf_loop net (d # ds) i n array =
     (if i \<ge> length array then Inl Overrun
      else let x = netif_at net d;
               r = \<lparr>ifr_name = netif_name x,
                    ifru = put_at 0 (bytes16 AF_INET) (put_at 2 (if_ip (hd (netif_addrs x))) (ifru (array ! i)))\<rparr>;
               array' = array[i := r]
           in if i + 1 \<ge> n then Inr (array', i + 1) else ifconf_loop net ds (i + 1) n array')"

definition get_ifconf :: "net \<Rightarrow> ifreq list \<Rightarrow> nat \<Rightarrow> (ifreq list \<times> nat) kres" where
  "get_ifconf net array n = ifconf_loop net (net_device_list net) 0 n array"

text \<open>The request passes the length of the array in bytes over the size of \<open>ifconf_t\<close>, which is 8, for entries of 32 bytes.\<close>

definition do_ifconf :: "net \<Rightarrow> ifreq list \<Rightarrow> nat \<Rightarrow> (ifreq list \<times> nat \<times> int) kres" where
  "do_ifconf net array ifc_len =
     kbind (get_ifconf net array (ifc_len div 8)) (\<lambda>(array', k). Inr (array', k * 32, int k))"

subsection \<open>Routes\<close>

definition IS_DEFAULT_ROUTE :: "ip_addr \<Rightarrow> bool" where
  "IS_DEFAULT_ROUTE a \<longleftrightarrow> word_of_bytes (a ! 0) (a ! 1) (a ! 2) (a ! 3) = 0"

definition IP_ADDR_INVALID :: "ip_addr \<Rightarrow> bool" where
  "IP_ADDR_INVALID a \<longleftrightarrow> word_of_bytes (a ! 0) (a ! 1) (a ! 2) (a ! 3) = - 1"

definition init_route :: "net \<Rightarrow> net" where
  "init_route n = n\<lparr>route_list := []\<rparr>"

definition get_route_entry :: "route list \<Rightarrow> route \<Rightarrow> route option" where
  "get_route_entry rs r = find (\<lambda>t. ip_eq (dest t) (dest r)) rs"

definition add_route :: "route \<Rightarrow> net \<Rightarrow> net \<times> bool" where
  "add_route r n =
     (case get_route_entry (route_list n) r of
        Some _ \<Rightarrow> (n, False)
      | None \<Rightarrow> (n\<lparr>route_list := route_list n @ [r]\<rparr>, True))"

definition del_route :: "route \<Rightarrow> net \<Rightarrow> net \<times> bool" where
  "del_route r n =
     (case get_route_entry (route_list n) r of
        Some t \<Rightarrow> (n\<lparr>route_list := remove1 t (route_list n)\<rparr>, True)
      | None \<Rightarrow> (n, False))"

text \<open>The interface and the next hop for a destination.\<close>

fun netif_loop :: "ip_addr \<Rightarrow> route list \<Rightarrow> (nat \<times> ip_addr) option" where
  "netif_loop d [] = None"
| "netif_loop d (t # ts) =
     (if rflag t AND RTF_HOST \<noteq> 0 then
        if ip_eq (dest t) d then Some (rnetif t, gateway t) else netif_loop d ts
      else if ip_eq (netmask_ip d (netmask t)) (dest t) then Some (rnetif t, d)
      else if IS_DEFAULT_ROUTE (dest t) then Some (rnetif t, gateway t)
      else netif_loop d ts)"

definition get_netif :: "net \<Rightarrow> ip_addr \<Rightarrow> (nat \<times> ip_addr) option" where
  "get_netif n d = netif_loop d (route_list n)"

definition find_outif :: "net \<Rightarrow> ip_addr \<Rightarrow> (nat \<times> ip_addr) option" where
  "find_outif n d = get_netif n d"

text \<open>\<open>arp\<close> asks for the hardware address of a host on the network of an interface.\<close>

definition get_dest_mac_addr :: "(nat \<Rightarrow> ip_addr \<Rightarrow> u8 list option) \<Rightarrow> net \<Rightarrow> nat \<Rightarrow> ip_addr \<Rightarrow> u8 list option kres" where
  "get_dest_mac_addr arp n netif0 dest_ip =
     (case get_netif n dest_ip of
        None \<Rightarrow> Inl DIE
      | Some (i, gw) \<Rightarrow>
          if i \<noteq> netif0 then Inl DIE
          else Inr (arp i (if IP_ADDR_INVALID gw then dest_ip else gw)))"

text \<open>The part of \<open>ether_output\<close> that finds the hardware address of a packet for \<open>ip\<close> by way of \<open>gw\<close>.\<close>

definition output_mac :: "(nat \<Rightarrow> ip_addr \<Rightarrow> u8 list option) \<Rightarrow> net \<Rightarrow> nat \<Rightarrow> ip_addr \<Rightarrow> ip_addr \<Rightarrow> u8 list option kres" where
  "output_mac arp n i ip gw =
     (let a = hd (netif_addrs (netif_at n i))
      in if ip_eq ip (if_ip a) then Inr (Some (ether_addr a)) else get_dest_mac_addr arp n i gw)"

record sockaddr =
  sa_family :: u16
  sa_sin_addr :: ip_addr

record rtentry =
  rt_dst :: sockaddr
  rt_gateway :: sockaddr
  rt_genmask :: sockaddr
  rt_flags :: u16
  rt_dev :: "string option"

definition check_af_inet :: "sockaddr \<Rightarrow> bool" where
  "check_af_inet x \<longleftrightarrow> sa_family x = AF_INET"

definition check_local_network :: "ip_addr \<Rightarrow> netif_addr \<Rightarrow> bool" where
  "check_local_network dst a = ip_eq (netmask_ip dst (if_netmask a)) (netmask_ip (if_ip a) (if_netmask a))"

text \<open>The interface of a new route, \<open>Inl\<close> the error.\<close>

definition route_netif :: "rtentry \<Rightarrow> net \<Rightarrow> int + nat option" where
  "route_netif ent n =
     (case rt_dev ent of
        Some dev \<Rightarrow> Inr (find_netif_by_name n dev)
      | None \<Rightarrow>
          if IS_DEFAULT_ROUTE (sa_sin_addr (rt_dst ent)) then
            if \<not> check_af_inet (rt_gateway ent) then Inl (- EINVAL) else Inr (get_outif n (sa_sin_addr (rt_gateway ent)))
          else Inr (get_outif n (sa_sin_addr (rt_dst ent))))"

text \<open>The route an entry asks for, \<open>Inl\<close> the error.\<close>

definition route_of_entry :: "rtentry \<Rightarrow> net \<Rightarrow> int + route" where
  "route_of_entry ent n =
     (let d = sa_sin_addr (rt_dst ent);
          net_route = (rt_flags ent AND RTF_HOST = 0 \<and> \<not> IS_DEFAULT_ROUTE d)
      in if \<not> check_af_inet (rt_dst ent) then Inl (- EINVAL)
         else if net_route \<and> \<not> check_af_inet (rt_genmask ent) then Inl (- EINVAL)
         else case route_netif ent n of
           Inl e \<Rightarrow> Inl e
         | Inr None \<Rightarrow> Inl (- EINVAL)
         | Inr (Some i) \<Rightarrow>
             let local = check_local_network d (hd (netif_addrs (netif_at n i)))
             in if \<not> local \<and> \<not> check_af_inet (rt_gateway ent) then Inl (- EINVAL)
                else Inr \<lparr>dest = d,
                          gateway = (if local then [255, 255, 255, 255] else sa_sin_addr (rt_gateway ent)),
                          netmask = (if net_route then sa_sin_addr (rt_genmask ent) else [255, 255, 255, 255]),
                          rflag = rt_flags ent, rnetif = i\<rparr>)"

definition route_op :: "request \<Rightarrow> route \<Rightarrow> net \<Rightarrow> int \<times> net" where
  "route_op op r n =
     (case op of
        SIOCADDRT \<Rightarrow> (case add_route r n of (n', True) \<Rightarrow> (0, n') | (n', False) \<Rightarrow> (- EEXIST, n'))
      | SIOCDELRT \<Rightarrow> (case del_route r n of (n', True) \<Rightarrow> (0, n') | (n', False) \<Rightarrow> (- ENOENT, n'))
      | _ \<Rightarrow> (- ENOTSUP, n))"

text \<open>\<open>mem\<close> tells whether the allocation of the entry succeeded.\<close>

definition do_with_route_entry :: "bool \<Rightarrow> rtentry \<Rightarrow> request \<Rightarrow> net \<Rightarrow> int \<times> net" where
  "do_with_route_entry mem ent op n =
     (if \<not> mem then (- ENOMEM, n)
      else case route_of_entry ent n of
             Inl e \<Rightarrow> (e, n)
           | Inr r \<Rightarrow> route_op op r n)"

text \<open>The memory at the argument of a request, as the three structures the requests take it for.\<close>

record ioctl_data =
  as_rtentry :: rtentry
  as_ifconf :: "ifreq list \<times> nat"
  as_ifreq :: ifreq

definition do_with_netif_ioctl :: "(nat \<Rightarrow> u32 \<Rightarrow> int) \<Rightarrow> bool \<Rightarrow> bool \<Rightarrow> request \<Rightarrow> ioctl_data \<Rightarrow> net \<Rightarrow> (int \<times> ioctl_data \<times> net) kres" where
  "do_with_netif_ioctl drv root mem op data n =
     (if op \<in> {SIOCADDRT, SIOCDELRT} then
        if \<not> root then Inr (- EPERM, data, n)
        else case do_with_route_entry mem (as_rtentry data) op n of (e, n') \<Rightarrow> Inr (e, data, n')
      else if op = SIOCGIFCONF then
        kbind (do_ifconf n (fst (as_ifconf data)) (snd (as_ifconf data))) (\<lambda>(array, len, k).
          Inr (k, data\<lparr>as_ifconf := (array, len)\<rparr>, n))
      else if op \<in> {SIOCGIFMTU, SIOCSIFMTU, SIOCGIFFLAGS, SIOCSIFFLAGS} then
        case do_with_common drv root op (as_ifreq data) n of (e, r, n') \<Rightarrow> Inr (e, data\<lparr>as_ifreq := r\<rparr>, n')
      else if op \<in> {SIOCGIFADDR, SIOCSIFADDR, SIOCGIFBRDADDR, SIOCSIFBRDADDR, SIOCGIFNETMASK, SIOCSIFNETMASK,
                     SIOCGIFHWADDR, SIOCSIFHWADDR, SIOCSIFHWBROADCAST} then
        case do_with_netifaddr drv root op (as_ifreq data) n of (e, r, n') \<Rightarrow> Inr (e, data\<lparr>as_ifreq := r\<rparr>, n')
      else Inr (- ENOSYS, data, n))"

section \<open>The route table\<close>

lemma ip_eq_iff: "length a = 4 \<Longrightarrow> length b = 4 \<Longrightarrow> ip_eq a b \<longleftrightarrow> a = b"
  by (auto simp: ip_eq_def IP_ADDR_LEN_def numeral_eq_Suc length_Suc_conv)

lemma ip_eq_nth: "ip_eq a b \<longleftrightarrow> a ! 0 = b ! 0 \<and> a ! 1 = b ! 1 \<and> a ! 2 = b ! 2 \<and> a ! 3 = b ! 3"
  by (simp add: ip_eq_def IP_ADDR_LEN_def numeral_eq_Suc)

lemma netmask_ip_nth: "netmask_ip a m = [a ! 0 AND m ! 0, a ! 1 AND m ! 1, a ! 2 AND m ! 2, a ! 3 AND m ! 3]"
  by (simp add: netmask_ip_def IP_ADDR_LEN_def upt_rec numeral_eq_Suc)

lemma length_netmask_ip [simp]: "length (netmask_ip a m) = 4"
  by (simp add: netmask_ip_def IP_ADDR_LEN_def)

definition routes_ok :: "route list \<Rightarrow> bool" where
  "routes_ok rs \<longleftrightarrow> distinct (map dest rs) \<and> (\<forall>r \<in> set rs. length (dest r) = 4)"

lemma routes_okI: "distinct (map dest rs) \<Longrightarrow> (\<And>r. r \<in> set rs \<Longrightarrow> length (dest r) = 4) \<Longrightarrow> routes_ok rs"
  by (simp add: routes_ok_def)

lemma get_route_entry_None:
  assumes "routes_ok rs" and "length (dest r) = 4"
  shows "get_route_entry rs r = None \<longleftrightarrow> dest r \<notin> dest ` set rs"
proof -
  have "ip_eq (dest t) (dest r) \<longleftrightarrow> dest t = dest r" if "t \<in> set rs" for t
    using assms that by (simp add: routes_ok_def ip_eq_iff)
  then show ?thesis by (auto simp: get_route_entry_def find_None_iff image_iff)
qed

lemma get_route_entry_Some:
  assumes "get_route_entry rs r = Some t" and "routes_ok rs" and "length (dest r) = 4"
  shows "t \<in> set rs" and "dest t = dest r"
proof -
  from assms(1) have "t \<in> set rs \<and> ip_eq (dest t) (dest r)" by (auto simp: get_route_entry_def find_Some_iff)
  then show "t \<in> set rs" "dest t = dest r" using assms(2,3) by (auto simp: routes_ok_def ip_eq_iff)
qed

lemma routes_ok_remove1: "routes_ok rs \<Longrightarrow> routes_ok (remove1 t rs)"
  by (induction rs) (auto simp: routes_ok_def dest: set_remove1_subset [THEN subsetD])

lemma add_route_ok: "routes_ok (route_list n) \<Longrightarrow> length (dest r) = 4 \<Longrightarrow> routes_ok (route_list (fst (add_route r n)))"
  using get_route_entry_None [of "route_list n" r]
  by (auto simp: add_route_def routes_ok_def split: option.splits)

lemma del_route_ok: "routes_ok (route_list n) \<Longrightarrow> routes_ok (route_list (fst (del_route r n)))"
  by (auto simp: del_route_def routes_ok_remove1 split: option.splits)

lemma route_of_entry_dest: "route_of_entry ent n = Inr r \<Longrightarrow> dest r = sa_sin_addr (rt_dst ent)"
  by (auto simp: route_of_entry_def Let_def split: if_splits sum.splits option.splits)

lemma snd_route_op:
  "snd (route_op op r n) = (case op of SIOCADDRT \<Rightarrow> fst (add_route r n) | SIOCDELRT \<Rightarrow> fst (del_route r n) | _ \<Rightarrow> n)"
  by (simp add: route_op_def split: request.splits prod.splits bool.splits)

lemma do_with_route_entry_ok:
  assumes "routes_ok (route_list n)" and "length (sa_sin_addr (rt_dst ent)) = 4"
  shows "routes_ok (route_list (snd (do_with_route_entry mem ent op n)))"
  using assms add_route_ok [of n] del_route_ok [of n]
  by (auto simp: do_with_route_entry_def snd_route_op dest: route_of_entry_dest split: sum.splits request.splits)

lemma route_requests_ok:
  assumes "\<forall>(mem, ent, op) \<in> set reqs. length (sa_sin_addr (rt_dst ent)) = 4" and "routes_ok (route_list n)"
  shows "routes_ok (route_list (fold (\<lambda>(mem, ent, op) n. snd (do_with_route_entry mem ent op n)) reqs n))"
  using assms by (induction reqs arbitrary: n) (auto simp: do_with_route_entry_ok)

lemma route_netif_routes [simp]: "route_netif ent (n\<lparr>route_list := rs\<rparr>) = route_netif ent n"
  by (simp add: route_netif_def find_netif_by_name_def get_outif_def cong: option.case_cong)

lemma route_of_entry_routes [simp]: "route_of_entry ent (n\<lparr>route_list := rs\<rparr>) = route_of_entry ent n"
  by (simp add: route_of_entry_def Let_def cong: sum.case_cong option.case_cong)

lemma SIOCADDRT_succeeds:
  assumes "do_with_route_entry mem ent SIOCADDRT n = (0, n')"
  obtains r where "mem" "route_of_entry ent n = Inr r" "get_route_entry (route_list n) r = None"
    "n' = n\<lparr>route_list := route_list n @ [r]\<rparr>"
proof -
  have "route_of_entry ent n = Inl e \<Longrightarrow> e \<noteq> 0" for e
    by (auto simp: route_of_entry_def route_netif_def Let_def EINVAL_def split: if_splits sum.splits option.splits)
  then show thesis using assms that
    by (auto simp: do_with_route_entry_def route_op_def add_route_def ENOMEM_def EEXIST_def
        split: if_splits sum.splits option.splits)
qed

lemma find_append_case: "find P (xs @ ys) = (case find P xs of None \<Rightarrow> find P ys | Some x \<Rightarrow> Some x)"
  by (induction xs) auto

lemma delete_just_added: "routes_ok rs \<Longrightarrow> length (dest r) = 4 \<Longrightarrow> get_route_entry rs r = None \<Longrightarrow>
    get_route_entry (rs @ [r]) r = Some r \<and> remove1 r (rs @ [r]) = rs"
  using get_route_entry_None [of rs r]
  by (auto simp: get_route_entry_def find_append_case ip_eq_iff remove1_append)

text \<open>C13: the route table. Whatever requests are made, no two routes have the same destination, and to
  delete a route that was just added gives the table there was before.\<close>

theorem route_table:
  assumes "\<forall>(mem, ent, op) \<in> set reqs. length (sa_sin_addr (rt_dst ent)) = 4"
    and "n = fold (\<lambda>(mem, ent, op) n. snd (do_with_route_entry mem ent op n)) reqs (init_route n0)"
  shows "distinct (map dest (route_list n))
    \<and> (\<forall>ent n'. length (sa_sin_addr (rt_dst ent)) = 4 \<longrightarrow> do_with_route_entry True ent SIOCADDRT n = (0, n')
         \<longrightarrow> route_list n' \<noteq> route_list n \<and> do_with_route_entry True ent SIOCDELRT n' = (0, n))"
proof -
  have ok: "routes_ok (route_list n)"
    using route_requests_ok [OF assms(1), of "init_route n0"] assms(2) by (simp add: init_route_def routes_ok_def)
  have "route_list n' \<noteq> route_list n \<and> do_with_route_entry True ent SIOCDELRT n' = (0, n)"
    if l: "length (sa_sin_addr (rt_dst ent)) = 4" and a: "do_with_route_entry True ent SIOCADDRT n = (0, n')" for ent n'
  proof -
    obtain r where r: "route_of_entry ent n = Inr r" "get_route_entry (route_list n) r = None"
      "n' = n\<lparr>route_list := route_list n @ [r]\<rparr>"
      using SIOCADDRT_succeeds [OF a] by blast
    then have "length (dest r) = 4" using l route_of_entry_dest by metis
    then show ?thesis using delete_just_added [OF ok _ r(2)] r
      by (simp add: do_with_route_entry_def route_op_def del_route_def)
  qed
  then show ?thesis using ok by (auto simp: routes_ok_def)
qed


definition lo_net :: net where
  "lo_net = loopback_init 0 \<lparr>netif_at = loopback_netif, net_device_list = [], route_list = []\<rparr>"

definition host_entry :: "ip_addr \<Rightarrow> rtentry" where
  "host_entry d = \<lparr>rt_dst = \<lparr>sa_family = 2, sa_sin_addr = d\<rparr>, rt_gateway = \<lparr>sa_family = 2, sa_sin_addr = [0, 0, 0, 0]\<rparr>,
     rt_genmask = \<lparr>sa_family = 2, sa_sin_addr = [255, 255, 255, 255]\<rparr>, rt_flags = RTF_HOST, rt_dev = Some ''lo''\<rparr>"

lemmas route_eval = do_with_route_entry_def route_of_entry_def route_netif_def route_op_def add_route_def get_route_entry_def
  find_netif_by_name_def loopback_init_def add_netif_def upd_netif_def netif_initialize_def init_route_def
  check_af_inet_def AF_INET_def RTF_HOST_def check_local_network_def netmask_ip_nth ip_eq_nth
  loopback_netif_def IS_DEFAULT_ROUTE_def word_of_bytes_def Let_def

lemma host_entry_added:
  "do_with_route_entry True (host_entry [127, 0, 0, 1]) SIOCADDRT (init_route lo_net) =
     (0, lo_net\<lparr>route_list := [\<lparr>dest = [127, 0, 0, 1], gateway = [255, 255, 255, 255], netmask = [255, 255, 255, 255],
                              rflag = RTF_HOST, rnetif = 0\<rparr>]\<rparr>)"
  unfolding lo_net_def host_entry_def by (simp add: route_eval)

theorem route_table_witness:
  "\<exists>n n'. do_with_route_entry True (host_entry [127, 0, 0, 1]) SIOCADDRT (init_route lo_net) = (0, n)
     \<and> distinct (map dest (route_list n)) \<and> length (route_list n) = 1
     \<and> do_with_route_entry True (host_entry [127, 0, 0, 3]) SIOCADDRT n = (0, n')
     \<and> do_with_route_entry True (host_entry [127, 0, 0, 3]) SIOCDELRT n' = (0, n)"
proof -
  let ?n = "snd (do_with_route_entry True (host_entry [127, 0, 0, 1]) SIOCADDRT (init_route lo_net))"
  let ?n' = "snd (do_with_route_entry True (host_entry [127, 0, 0, 3]) SIOCADDRT ?n)"
  have a: "do_with_route_entry True (host_entry [127, 0, 0, 3]) SIOCADDRT ?n = (0, ?n')"
    unfolding host_entry_added lo_net_def by (simp add: host_entry_def route_eval)
  have l: "length (sa_sin_addr (rt_dst (host_entry [w, x, y, z]))) = 4" for w x y z by (simp add: host_entry_def)
  show ?thesis
    using route_table [of "[(True, host_entry [127, 0, 0, 1], SIOCADDRT)]" ?n lo_net] a l host_entry_added
    by (intro exI [of _ ?n] exI [of _ ?n'] conjI) auto
qed

subsection \<open>The next hop\<close>

lemma netif_loop_append: "netif_loop d (rs @ ts) = (case netif_loop d rs of None \<Rightarrow> netif_loop d ts | Some x \<Rightarrow> Some x)"
  by (induction rs) auto

lemma route_of_entry_fields:
  assumes "route_of_entry ent n = Inr r"
  shows "dest r = sa_sin_addr (rt_dst ent)" "rflag r = rt_flags ent"
    "netmask r = (if rt_flags ent AND RTF_HOST = 0 \<and> \<not> IS_DEFAULT_ROUTE (sa_sin_addr (rt_dst ent))
                  then sa_sin_addr (rt_genmask ent) else [255, 255, 255, 255])"
    "gateway r = (if check_local_network (sa_sin_addr (rt_dst ent)) (hd (netif_addrs (netif_at n (rnetif r))))
                  then [255, 255, 255, 255] else sa_sin_addr (rt_gateway ent))"
  using assms by (auto simp: route_of_entry_def Let_def split: if_splits sum.splits option.splits)

lemma netmask_ones: "length d = 4 \<Longrightarrow> netmask_ip d [255, 255, 255, 255] = d"
proof -
  have "(255 :: u8) = - 1" by simp
  then have "x AND 255 = x" for x :: u8 by (simp only: and.right_neutral)
  then show "length d = 4 \<Longrightarrow> netmask_ip d [255, 255, 255, 255] = d"
    by (auto simp: netmask_ip_def IP_ADDR_LEN_def upt_rec numeral_eq_Suc length_Suc_conv)
qed

lemma ones_invalid: "IP_ADDR_INVALID [255, 255, 255, 255]"
  by (simp add: IP_ADDR_INVALID_def word_of_bytes_def)



definition eth_net :: net where
  "eth_net = (case ether_init True 0 ''eth0'' 0x300 9 [0, 1, 2, 3, 4, 5] \<lparr>netif_at = loopback_netif, net_device_list = [], route_list = []\<rparr>
              of Inr n \<Rightarrow> n)"

definition net_entry :: "ip_addr \<Rightarrow> ip_addr \<Rightarrow> u16 \<Rightarrow> rtentry" where
  "net_entry d g f = \<lparr>rt_dst = \<lparr>sa_family = 2, sa_sin_addr = d\<rparr>, rt_gateway = \<lparr>sa_family = 2, sa_sin_addr = g\<rparr>,
     rt_genmask = \<lparr>sa_family = 2, sa_sin_addr = [255, 0, 0, 0]\<rparr>, rt_flags = f, rt_dev = Some ''eth0''\<rparr>"

lemmas eth_eval = route_eval eth_net_def ether_init_def ether_address_def net_entry_def


end
