(* ===== verification/Timer.thy ===== *)
theory Timer
  imports Signal Bottom
begin

text \<open>
  The timer, \<open>driver/timer.c\<close>: the clock interrupt, the two lists of timers with a procedure
  (synchronous timers), the two lists of alarms (asynchronous timers), and the calendar. The
  first list of a pair holds the timers with at most \<open>HZ\<close> ticks to go and is gone through at
  every run of the bottom half, the second list once in \<open>HZ\<close> ticks. The lists are the sequences
  of their timers. The three timers the module keeps for itself run its own functions, the
  procedure of another timer is given by the parameter \<open>proc\<close>, \<open>None\<close> for a null pointer.
\<close>

section \<open>Definitions\<close>

definition HZ :: u32 where "HZ = 100"

datatype sync_id = Sync_async0 | Sync_async1 | Sync_sync1 | User_timer nat

record timers =
  sch :: sched
  bot :: bottom
  nowticks :: u32
  lost_ticks :: u32
  saved_lost_ticks :: u32
  expire :: "sync_id \<Rightarrow> u32"
  sync_list0 :: "sync_id list"
  sync_list1 :: "sync_id list"
  async_list0 :: "nat list"
  async_list1 :: "nat list"
  boot_time :: u32

type_synonym timerprocs = "nat \<Rightarrow> (timers \<Rightarrow> timers) option"

subsection \<open>The clock interrupt\<close>

text \<open>The accounting loop up the line of parents; it ends at an empty slot or at a task that is its own parent.\<close>

partial_function (option) charge_parents :: "(task_struct \<Rightarrow> task_struct) \<Rightarrow> nat \<Rightarrow> sched \<Rightarrow> sched option" where
  "charge_parents f t s =
     (if slots s t \<and> pid (tasks s t) \<noteq> ppid (tasks s t)
      then charge_parents f (ppid (tasks s t)) (upd_task t f s) else Some s)"

definition timer_interrupt :: "u32 \<Rightarrow> timers \<Rightarrow> timers option" where
  "timer_interrupt cs s =
     (let k = sch s; c = current k; p = ppid (tasks k c)
      in map_option (\<lambda>k'. s\<lparr>sch := k', nowticks := nowticks s + 1, lost_ticks := lost_ticks s + 1,
                          bot := raise_bottom TIMER_B (bot s)\<rparr>)
           (if cs AND 3 = 0
            then charge_parents (\<lambda>t. t\<lparr>cstime := cstime t + 1\<rparr>) p (upd_task c (\<lambda>t. t\<lparr>stime := stime t + 1\<rparr>) k)
            else charge_parents (\<lambda>t. t\<lparr>cutime := cutime t + 1\<rparr>) p (upd_task c (\<lambda>t. t\<lparr>utime := utime t + 1\<rparr>) k)))"

subsection \<open>The lists of timers\<close>

definition sync0_insert :: "sync_id \<Rightarrow> timers \<Rightarrow> timers" where
  "sync0_insert x s = s\<lparr>sync_list0 := x # sync_list0 s\<rparr>"

definition sync1_insert :: "sync_id \<Rightarrow> timers \<Rightarrow> timers" where
  "sync1_insert x s = s\<lparr>sync_list1 := x # sync_list1 s\<rparr>"

text \<open>Unlinking takes a timer out of the list it is in; a timer in no list is linked to itself.\<close>

definition sync_delete :: "sync_id \<Rightarrow> timers \<Rightarrow> timers" where
  "sync_delete x s = s\<lparr>sync_list0 := remove1 x (sync_list0 s), sync_list1 := remove1 x (sync_list1 s)\<rparr>"

definition async0_insert :: "nat \<Rightarrow> timers \<Rightarrow> timers" where
  "async0_insert t s = s\<lparr>async_list0 := t # async_list0 s\<rparr>"

definition async1_insert :: "nat \<Rightarrow> timers \<Rightarrow> timers" where
  "async1_insert t s = s\<lparr>async_list1 := t # async_list1 s\<rparr>"

definition async_delete :: "nat \<Rightarrow> timers \<Rightarrow> timers" where
  "async_delete t s = s\<lparr>async_list0 := remove1 t (async_list0 s), async_list1 := remove1 t (async_list1 s)\<rparr>"

definition set_expire :: "sync_id \<Rightarrow> u32 \<Rightarrow> timers \<Rightarrow> timers" where
  "set_expire x e s = s\<lparr>expire := (expire s)(x := e)\<rparr>"

definition alarm_of :: "nat \<Rightarrow> timers \<Rightarrow> u32" where
  "alarm_of t s = alarm_expire (tasks (sch s) t)"

definition set_alarm :: "nat \<Rightarrow> u32 \<Rightarrow> timers \<Rightarrow> timers" where
  "set_alarm t e s = s\<lparr>sch := upd_task t (\<lambda>k. k\<lparr>alarm_expire := e\<rparr>) (sch s)\<rparr>"

definition has_proc :: "timerprocs \<Rightarrow> sync_id \<Rightarrow> bool" where
  "has_proc proc x = (case x of User_timer i \<Rightarrow> proc i \<noteq> None | _ \<Rightarrow> True)"

definition synctimer_set :: "timerprocs \<Rightarrow> sync_id \<Rightarrow> timers \<Rightarrow> timers" where
  "synctimer_set proc x s =
     (if expire s x = 0 \<or> \<not> has_proc proc x then s
      else if expire s x > HZ then sync1_insert x s else sync0_insert x s)"

definition asynctimer_set :: "nat \<Rightarrow> timers \<Rightarrow> timers" where
  "asynctimer_set t s =
     (if alarm_of t s = 0 then s
      else if alarm_of t s > HZ then async1_insert t s else async0_insert t s)"

subsection \<open>The bottom half\<close>

text \<open>One timer of the second list: \<open>HZ\<close> ticks less, and over to the first list when due there.\<close>

definition sync1_step :: "sync_id \<Rightarrow> timers \<Rightarrow> timers" where
  "sync1_step x s =
     (let s1 = (if expire s x > HZ then set_expire x (expire s x - HZ) s else s)
      in if expire s1 x \<le> HZ then sync0_insert x (sync_delete x s1) else s1)"

definition do_with_sync1 :: "timers \<Rightarrow> timers" where
  "do_with_sync1 s = sync0_insert Sync_sync1 (set_expire Sync_sync1 HZ (fold sync1_step (sync_list1 s) s))"

definition async0_step :: "nat \<Rightarrow> timers \<Rightarrow> timers kres" where
  "async0_step t s =
     (if alarm_of t s > saved_lost_ticks s then Inr (set_alarm t (alarm_of t s - saved_lost_ticks s) s)
      else let s1 = async_delete t (set_alarm t 0 s)
           in kbind (sendsig t (int SIGALRM) (sch s1)) (\<lambda>k. Inr (s1\<lparr>sch := k\<rparr>)))"

fun async0_walk :: "nat list \<Rightarrow> timers \<Rightarrow> timers kres" where
  "async0_walk [] s = Inr s"
| "async0_walk (t # ts) s = kbind (async0_step t s) (async0_walk ts)"

definition do_with_async0 :: "timers \<Rightarrow> timers kres" where
  "do_with_async0 s =
     kbind (async0_walk (async_list0 s) s) (\<lambda>s1. Inr (sync0_insert Sync_async0 (set_expire Sync_async0 1 s1)))"

definition async1_step :: "nat \<Rightarrow> timers \<Rightarrow> timers" where
  "async1_step t s =
     (let s1 = (if alarm_of t s > HZ then set_alarm t (alarm_of t s - HZ) s else s)
      in if alarm_of t s1 \<le> HZ then async0_insert t (async_delete t s1) else s1)"

definition do_with_async1 :: "timers \<Rightarrow> timers" where
  "do_with_async1 s = sync0_insert Sync_async1 (set_expire Sync_async1 HZ (fold async1_step (async_list1 s) s))"

definition call_proc :: "timerprocs \<Rightarrow> sync_id \<Rightarrow> timers \<Rightarrow> timers kres" where
  "call_proc proc x s =
     (case x of
        Sync_async0 \<Rightarrow> do_with_async0 s
      | Sync_async1 \<Rightarrow> Inr (do_with_async1 s)
      | Sync_sync1 \<Rightarrow> Inr (do_with_sync1 s)
      | User_timer i \<Rightarrow> (case proc i of None \<Rightarrow> Inl Overrun | Some f \<Rightarrow> Inr (f s)))"

definition sync0_step :: "timerprocs \<Rightarrow> sync_id \<Rightarrow> timers \<Rightarrow> timers kres" where
  "sync0_step proc x s =
     (if expire s x > saved_lost_ticks s then Inr (set_expire x (expire s x - saved_lost_ticks s) s)
      else call_proc proc x (sync_delete x (set_expire x 0 s)))"

text \<open>The timer behind \<open>x\<close> in a list, \<open>None\<close> at the end.\<close>

definition next_in :: "sync_id \<Rightarrow> sync_id list \<Rightarrow> sync_id option" where
  "next_in x xs = (case tl (dropWhile (\<lambda>y. y \<noteq> x) xs) of [] \<Rightarrow> None | z # _ \<Rightarrow> Some z)"

text \<open>
  The walk of \<open>list_foreach\<close> through the first list: the timer to come next is read before the
  body runs. A body that unlinks this timer makes the walk follow a link out of the list.
\<close>

partial_function (option) sync0_walk :: "timerprocs \<Rightarrow> sync_id \<Rightarrow> sync_id option \<Rightarrow> timers \<Rightarrow> timers kres option" where
  "sync0_walk proc x pos s =
     (case sync0_step proc x s of
        Inl e \<Rightarrow> Some (Inl e)
      | Inr s1 \<Rightarrow>
          (case pos of
             None \<Rightarrow> Some (Inr s1)
           | Some y \<Rightarrow> if y \<notin> set (sync_list0 s1) then Some (Inl Overrun)
                      else sync0_walk proc y (next_in y (sync_list0 s1)) s1))"

definition do_with_sync0 :: "timerprocs \<Rightarrow> timers \<Rightarrow> timers kres option" where
  "do_with_sync0 proc s =
     (let s1 = s\<lparr>saved_lost_ticks := lost_ticks s, lost_ticks := 0\<rparr>
      in case sync_list0 s1 of
           [] \<Rightarrow> Some (Inr s1)
         | x # xs \<Rightarrow> sync0_walk proc x (next_in x (sync_list0 s1)) s1)"

definition charge_quantum :: "sched \<Rightarrow> sched" where
  "charge_quantum k =
     (let c = current k
      in if c \<noteq> IDLEPID then
           if counter (tasks k c) > 0 then upd_task c (\<lambda>t. t\<lparr>counter := counter t - 1\<rparr>) k
           else upd_task c (\<lambda>t. t\<lparr>need_sched := True\<rparr>) k
         else if run_queue k \<noteq> [] then upd_task c (\<lambda>t. t\<lparr>need_sched := True\<rparr>) k
         else k)"

definition timer_bottom :: "timerprocs \<Rightarrow> timers \<Rightarrow> timers kres option" where
  "timer_bottom proc s = do_with_sync0 proc (s\<lparr>sch := charge_quantum (sch s)\<rparr>)"

subsection \<open>Alarms\<close>

definition sys_alarm :: "u32 \<Rightarrow> timers \<Rightarrow> timers \<times> u32" where
  "sys_alarm seconds s =
     (let c = current (sch s);
          ticks = alarm_of c s;
          s1 = (if ticks \<noteq> 0 then set_alarm c 0 (async_delete c s) else s);
          s2 = (if seconds \<noteq> 0 then asynctimer_set c (set_alarm c (seconds * HZ) s1) else s1)
      in (s2, ticks div HZ))"

subsection \<open>Delays\<close>

definition TIMER_FREQ :: u32 where "TIMER_FREQ = 1193182"
definition LATCH :: u32 where "LATCH = TIMER_FREQ div HZ"

record mstate =
  ms_prev :: u32
  ms_now :: u32

definition mstart :: mstate where
  "mstart = \<lparr>ms_prev = 0, ms_now = 0\<rparr>"

text \<open>\<open>count\<close> is what the two reads of the counter give.\<close>

definition melapsed :: "u16 \<Rightarrow> mstate \<Rightarrow> mstate \<times> u32" where
  "melapsed count ms =
     (let c = ucast count;
          now = ms_now ms + (if c \<le> ms_prev ms then ms_prev ms - c else 1)
      in (\<lparr>ms_prev = c, ms_now = now\<rparr>, now div (TIMER_FREQ div 1000)))"

text \<open>\<open>count i\<close> is the counter at the \<open>i\<close>th reading; the result is the number of readings.\<close>

partial_function (option) mdelay_loop :: "(nat \<Rightarrow> u16) \<Rightarrow> u32 \<Rightarrow> nat \<Rightarrow> mstate \<Rightarrow> nat option" where
  "mdelay_loop count msec i ms =
     (case melapsed (count i) ms of (ms', e) \<Rightarrow>
        if e < msec then mdelay_loop count msec (i + 1) ms' else Some (i + 1))"

definition mdelay :: "(nat \<Rightarrow> u16) \<Rightarrow> u32 \<Rightarrow> nat option" where
  "mdelay count msec = mdelay_loop count msec 0 mstart"

subsection \<open>The calendar\<close>

record bios_time =
  bt_second :: int
  bt_minute :: int
  bt_hour :: int
  bt_day :: int
  bt_month :: int
  bt_year :: int
  bt_century :: int

definition MINUTE :: int where "MINUTE = 60"
definition HOUR :: int where "HOUR = MINUTE * 60"
definition DAY :: int where "DAY = HOUR * 24"
definition YEAR :: int where "YEAR = DAY * 365"

text \<open>The seconds before each month of a leap year.\<close>

definition month_start :: "int list" where
  "month_start =
     [0,
      DAY * (31),
      DAY * (31 + 29),
      DAY * (31 + 29 + 31),
      DAY * (31 + 29 + 31 + 30),
      DAY * (31 + 29 + 31 + 30 + 31),
      DAY * (31 + 29 + 31 + 30 + 31 + 30),
      DAY * (31 + 29 + 31 + 30 + 31 + 30 + 31),
      DAY * (31 + 29 + 31 + 30 + 31 + 30 + 31 + 31),
      DAY * (31 + 29 + 31 + 30 + 31 + 30 + 31 + 31 + 30),
      DAY * (31 + 29 + 31 + 30 + 31 + 30 + 31 + 31 + 30 + 31),
      DAY * (31 + 29 + 31 + 30 + 31 + 30 + 31 + 31 + 30 + 31 + 30)]"

text \<open>The quotient and remainder of C, which truncate towards zero.\<close>

definition cdiv :: "int \<Rightarrow> int \<Rightarrow> int" where
  "cdiv a b = sgn a * sgn b * (\<bar>a\<bar> div \<bar>b\<bar>)"

definition crem :: "int \<Rightarrow> int \<Rightarrow> int" where
  "crem a b = a - b * cdiv a b"

text \<open>Integer arithmetic wraps at 32 bits, so the sum is taken over the integers and reduced once.\<close>

definition date_seconds :: "bios_time \<Rightarrow> int" where
  "date_seconds t =
     (let year = bt_year t + bt_century t * 100 - 1970
      in year * YEAR + DAY * cdiv (year + 1) 4
         + month_start ! nat (bt_month t - 1)
         - (if bt_month t > 2 \<and> crem (year + 2) 4 \<noteq> 0 then DAY else 0)
         + DAY * (bt_day t - 1)
         + HOUR * bt_hour t
         + MINUTE * bt_minute t
         + bt_second t)"

definition time_to_second :: "bios_time \<Rightarrow> u32 kres" where
  "time_to_second t = (if bt_month t < 1 \<or> bt_month t > 12 then Inl Overrun else Inr (word_of_int (date_seconds t)))"

definition BCD_TO_BIN :: "u8 \<Rightarrow> int" where
  "BCD_TO_BIN v = uint (v AND 0x0f) + uint (drop_bit 4 v) * 10"

definition UTC_OFFSET :: int where "UTC_OFFSET = 8"

definition curclock :: "timers \<Rightarrow> u32" where
  "curclock s = boot_time s + nowticks s div HZ"

definition utc_time_diff :: "timers \<Rightarrow> u32" where
  "utc_time_diff s =
     (let left = (nowticks s mod HZ) * (1000 div HZ);
          ret = word_of_int (crem (sint (curclock s)) (60 * 60 * 24)) :: u32;
          hour = sint (ret div 3600);
          ret1 = ret - word_of_int hour * 3600;
          hour1 = hour - UTC_OFFSET;
          hour2 = (if hour1 < 0 then hour1 + 24 else hour1)
      in (ret1 + word_of_int hour2 * 3600) * 1000 + left)"

text \<open>
  Initialisation: \<open>cmos\<close> gives the registers of the clock, \<open>f\<close> is the number of \<open>timer_bottom\<close> in
  the table of bottom halves. The programming of the timer chip is not part of the state.
\<close>

definition read_bios_time :: "(nat \<Rightarrow> u8) \<Rightarrow> bios_time" where
  "read_bios_time cmos =
     \<lparr>bt_second = BCD_TO_BIN (cmos 0), bt_minute = BCD_TO_BIN (cmos 2), bt_hour = BCD_TO_BIN (cmos 4),
      bt_day = BCD_TO_BIN (cmos 7), bt_month = BCD_TO_BIN (cmos 8), bt_year = BCD_TO_BIN (cmos 9),
      bt_century = BCD_TO_BIN (cmos 0x32)\<rparr>"

definition timer_init :: "(nat \<Rightarrow> u8) \<Rightarrow> nat \<Rightarrow> timers \<Rightarrow> timers kres" where
  "timer_init cmos f s =
     kbind (time_to_second (read_bios_time cmos)) (\<lambda>bt.
       Inr (sync0_insert Sync_sync1 (sync0_insert Sync_async1 (sync0_insert Sync_async0
         (s\<lparr>boot_time := bt, nowticks := 0, lost_ticks := 0, bot := set_bottom TIMER_B f (bot s)\<rparr>)))))"

section \<open>The calendar\<close>

text \<open>The Gregorian calendar, counted day by day from 1970.\<close>

definition leap :: "nat \<Rightarrow> bool" where
  "leap y \<longleftrightarrow> 4 dvd y \<and> (\<not> 100 dvd y \<or> 400 dvd y)"

definition days_in_year :: "nat \<Rightarrow> nat" where
  "days_in_year y = (if leap y then 366 else 365)"

definition days_in_month :: "nat \<Rightarrow> nat \<Rightarrow> nat" where
  "days_in_month y m = (if m = 2 then if leap y then 29 else 28 else if m \<in> {4, 6, 9, 11} then 30 else 31)"

definition epoch_days :: "nat \<Rightarrow> nat \<Rightarrow> nat \<Rightarrow> nat" where
  "epoch_days y m d =
     sum_list (map days_in_year [1970..<y]) + sum_list (map (days_in_month y) [1..<m]) + (d - 1)"

definition epoch_seconds :: "nat \<Rightarrow> nat \<Rightarrow> nat \<Rightarrow> nat \<Rightarrow> nat \<Rightarrow> nat \<Rightarrow> nat" where
  "epoch_seconds y m d h mi s = ((epoch_days y m d * 24 + h) * 60 + mi) * 60 + s"

text \<open>What the registers hold for a date.\<close>

definition date_of :: "nat \<Rightarrow> nat \<Rightarrow> nat \<Rightarrow> nat \<Rightarrow> nat \<Rightarrow> nat \<Rightarrow> bios_time" where
  "date_of y m d h mi s =
     \<lparr>bt_second = int s, bt_minute = int mi, bt_hour = int h, bt_day = int d, bt_month = int m,
      bt_year = int (y mod 100), bt_century = int (y div 100)\<rparr>"

lemma leap_near:
  assumes "1970 \<le> y" and "y < 2106"
  shows "leap y \<longleftrightarrow> y mod 4 = 0 \<and> y \<noteq> 2100"
proof -
  have "100 dvd y \<longleftrightarrow> y = 2000 \<or> y = 2100"
  proof
    assume "100 dvd y"
    then obtain k where k: "y = 100 * k" by blast
    then have "k = 20 \<or> k = 21" using assms by linarith
    then show "y = 2000 \<or> y = 2100" using k by auto
  qed auto
  then show ?thesis unfolding leap_def by (auto simp: dvd_eq_mod_eq_0)
qed

lemma year_days:
  assumes "n \<le> 136"
  shows "sum_list (map days_in_year [1970..<1970 + n]) + (if n > 130 then 1 else 0) = 365 * n + (n + 1) div 4"
  using assms
proof (induction n)
  case (Suc n)
  have "days_in_year (1970 + n) = (if (1970 + n) mod 4 = 0 \<and> n \<noteq> 130 then 366 else 365)"
    using leap_near [of "1970 + n"] Suc.prems by (auto simp: days_in_year_def)
  moreover have "(n + 2) div 4 = (n + 1) div 4 + (if (1970 + n) mod 4 = 0 then 1 else 0)" by arith
  moreover have "map days_in_year [1970..<1970 + Suc n] = map days_in_year [1970..<1970 + n] @ [days_in_year (1970 + n)]"
    by (simp only: add_Suc_right upt_Suc) simp
  ultimately have "sum_list (map days_in_year [1970..<1970 + Suc n]) =
      sum_list (map days_in_year [1970..<1970 + n]) + (if (1970 + n) mod 4 = 0 \<and> n \<noteq> 130 then 366 else 365)"
    and d: "(Suc n + 1) div 4 = (n + 1) div 4 + (if (1970 + n) mod 4 = 0 then 1 else 0)"
    by simp_all
  then show ?case using Suc.IH Suc.prems unfolding d by (cases "n = 130") (auto split: if_splits)
qed simp

lemma month_cases:
  assumes "1 \<le> m" and "m \<le> (12 :: nat)"
  obtains "m = 1" | "m = 2" | "m = 3" | "m = 4" | "m = 5" | "m = 6" | "m = 7" | "m = 8" | "m = 9" | "m = 10" | "m = 11" | "m = 12"
proof -
  have "m \<in> set [1..<13]" using assms by simp
  then show thesis using that by (auto simp: upt_rec numeral_eq_Suc)
qed

lemma month_days:
  assumes "1 \<le> m" and "m \<le> (12 :: nat)"
  shows "int (sum_list (map (days_in_month y) [1..<m])) * DAY
    = month_start ! (m - 1) - (if 2 < m \<and> \<not> leap y then DAY else 0)"
  by (rule month_cases [OF assms]) (simp_all add: days_in_month_def month_start_def upt_rec)

lemma month_days_bound:
  assumes "1 \<le> m" and "m \<le> (12 :: nat)"
  shows "sum_list (map (days_in_month y) [1..<m]) \<le> 335"
  by (rule month_cases [OF assms]) (simp_all add: days_in_month_def upt_rec)


lemma leap_rule: "crem (int n + 2) 4 = 0 \<longleftrightarrow> (1970 + n) mod 4 = 0"
proof -
  have "crem (int n + 2) 4 = int ((n + 2) mod 4)"
    by (simp add: crem_def cdiv_def minus_mult_div_eq_mod zmod_int add.commute)
  then show ?thesis by (simp, presburger)
qed

text \<open>The value before it is reduced to 32 bits, from 1970 until 2105.\<close>

lemma seconds_of_date:
  assumes "n < 136" and "1 \<le> m" and "m \<le> 12" and "1 \<le> d"
  shows "int n * YEAR + DAY * cdiv (int n + 1) 4 + month_start ! (m - 1)
      - (if 2 < m \<and> crem (int n + 2) 4 \<noteq> 0 then DAY else 0) + DAY * (int d - 1) + HOUR * int h + MINUTE * int mi + int s
    = int (epoch_seconds (1970 + n) m d h mi s) + (if n > 130 \<or> n = 130 \<and> 2 < m then DAY else 0)"
proof -
  let ?S = "int (sum_list (map days_in_year [1970..<1970 + n]))"
  let ?M = "int (sum_list (map (days_in_month (1970 + n)) [1..<m]))"
  have "cdiv (int n + 1) 4 = int ((n + 1) div 4)" by (simp add: cdiv_def zdiv_int)
  then have y: "365 * int n + cdiv (int n + 1) 4 = ?S + (if n > 130 then 1 else 0)"
    using year_days [of n] assms(1) by auto
  have l: "leap (1970 + n) \<longleftrightarrow> crem (int n + 2) 4 = 0 \<and> n \<noteq> 130"
    using leap_near [of "1970 + n"] assms(1) leap_rule [of n] by auto
  have m: "month_start ! (m - 1) = ?M * DAY + (if 2 < m \<and> \<not> leap (1970 + n) then DAY else 0)"
    using month_days [OF assms(2,3), of "1970 + n"] by simp
  have e: "int (epoch_seconds (1970 + n) m d h mi s) = DAY * (?S + ?M + (int d - 1)) + HOUR * int h + MINUTE * int mi + int s"
    using assms(4) by (simp add: epoch_seconds_def epoch_days_def DAY_def HOUR_def MINUTE_def of_nat_diff algebra_simps)
  have "int n * YEAR + DAY * cdiv (int n + 1) 4 = DAY * (365 * int n + cdiv (int n + 1) 4)"
    by (simp add: YEAR_def algebra_simps)
  then show ?thesis unfolding e m y l using leap_rule [of 130] by (auto simp: algebra_simps)
qed


lemma epoch_seconds_bound:
  assumes "n < 136" and "1 \<le> m" and "m \<le> 12" and "d \<le> 31" and "h < 24" and "mi < 60" and "s < 60"
  shows "epoch_seconds (1970 + n) m d h mi s + 86400 < 2 ^ 32"
proof -
  have "sum_list (map days_in_year [1970..<1970 + n]) \<le> 49310" using year_days [of n] assms(1) by linarith
  then have "epoch_days (1970 + n) m d \<le> 49675"
    unfolding epoch_days_def using month_days_bound [OF assms(2,3), of "1970 + n"] assms(4) by linarith
  then show ?thesis unfolding epoch_seconds_def using assms(5-7) by simp
qed

lemma unat_of_int_u32: "k < 2 ^ 32 \<Longrightarrow> unat (word_of_int (int k) :: u32) = k"
  by (simp add: unsigned_of_nat take_bit_eq_mod)

lemma days_in_month_31: "days_in_month y m \<le> 31"
  by (simp add: days_in_month_def)



section \<open>Timers are due\<close>

text \<open>The procedure of a timer may set its own timer again and leaves the other timers alone.\<close>

definition own_timer :: "timerprocs \<Rightarrow> nat \<Rightarrow> (timers \<Rightarrow> timers) \<Rightarrow> bool" where
  "own_timer proc i f \<longleftrightarrow> (\<forall>s. \<exists>e b.
     let s1 = set_expire (User_timer i) e s; s2 = (if b then synctimer_set proc (User_timer i) s1 else s1)
     in sync_list0 (f s) = sync_list0 s2 \<and> sync_list1 (f s) = sync_list1 s2 \<and> expire (f s) = expire s2
        \<and> saved_lost_ticks (f s) = saved_lost_ticks s \<and> lost_ticks (f s) = lost_ticks s)"

definition tame_procs :: "timerprocs \<Rightarrow> bool" where
  "tame_procs proc \<longleftrightarrow> (\<forall>i f. proc i = Some f \<longrightarrow> own_timer proc i f)"

definition armed :: "sync_id \<Rightarrow> timers \<Rightarrow> bool" where
  "armed x s \<longleftrightarrow> x \<in> set (sync_list0 s) \<union> set (sync_list1 s)"

definition timers_ok :: "timerprocs \<Rightarrow> timers \<Rightarrow> bool" where
  "timers_ok proc s \<longleftrightarrow> distinct (sync_list0 s @ sync_list1 s)
     \<and> {Sync_async0, Sync_async1, Sync_sync1} \<subseteq> set (sync_list0 s)
     \<and> (\<forall>x \<in> set (sync_list0 s). 1 \<le> unat (expire s x) \<and> unat (expire s x) \<le> 100)
     \<and> (\<forall>x \<in> set (sync_list1 s). 100 < unat (expire s x))
     \<and> (\<forall>x \<in> set (sync_list0 s) \<union> set (sync_list1 s). has_proc proc x)"

text \<open>
  The number of ticks a timer has to wait, in the middle of a pass with the timers \<open>R\<close> of the
  first list still to come: a timer of the second list waits for the next pass over this list
  and then for the rest of its time.
\<close>

definition due :: "sync_id set \<Rightarrow> timers \<Rightarrow> sync_id \<Rightarrow> nat" where
  "due R s x =
     (if x \<in> set (sync_list0 s) then unat (expire s x) - (if x \<in> R then 1 else 0)
      else unat (expire s x) + (unat (expire s Sync_sync1) - (if Sync_sync1 \<in> R then 1 else 0)) - 100)"

lemmas timer_frame = sync0_insert_def sync1_insert_def sync_delete_def set_expire_def

lemma HZ_less: "HZ < e \<longleftrightarrow> 100 < unat e" "e \<le> HZ \<longleftrightarrow> unat e \<le> 100"
  by (simp_all add: HZ_def word_less_nat_alt word_le_nat_alt)

lemma unat_HZ [simp]: "unat HZ = 100" by (simp add: HZ_def)

lemma unat_minus_HZ: "100 < unat e \<Longrightarrow> unat (e - HZ) = unat e - 100"
  using HZ_less(1) [of e] by (simp add: unat_sub)

subsection \<open>The second list\<close>

text \<open>What a pass over the second list leaves of its timers.\<close>

lemma sync1_step_fold:
  assumes "distinct xs" and "\<forall>x \<in> set xs. 100 < unat (expire s x)"
    and "distinct (sync_list1 s)" and "set xs \<subseteq> set (sync_list1 s)" and "set xs \<inter> set (sync_list0 s) = {}"
  shows "sync_list0 (fold sync1_step xs s) = rev (filter (\<lambda>x. unat (expire s x) \<le> 200) xs) @ sync_list0 s
    \<and> sync_list1 (fold sync1_step xs s) = filter (\<lambda>x. \<not> (x \<in> set xs \<and> unat (expire s x) \<le> 200)) (sync_list1 s)
    \<and> expire (fold sync1_step xs s) = (\<lambda>x. if x \<in> set xs then expire s x - HZ else expire s x)
    \<and> saved_lost_ticks (fold sync1_step xs s) = saved_lost_ticks s \<and> lost_ticks (fold sync1_step xs s) = lost_ticks s"
  using assms
proof (induction xs arbitrary: s)
  case (Cons x xs)
  let ?s = "sync1_step x s"
  have e: "100 < unat (expire s x)" "x \<notin> set (sync_list0 s)" "x \<in> set (sync_list1 s)" using Cons.prems by auto
  then have r: "remove1 x (sync_list0 s) = sync_list0 s" by (simp add: remove1_idem)
  have r1: "remove1 x (sync_list1 s) = filter (\<lambda>y. y \<noteq> x) (sync_list1 s)"
    using Cons.prems(3) by (simp add: distinct_remove1_removeAll removeAll_filter_not_eq eq_commute)
  have st: "sync_list0 ?s = (if unat (expire s x) \<le> 200 then [x] else []) @ sync_list0 s"
      "sync_list1 ?s = filter (\<lambda>y. \<not> (y = x \<and> unat (expire s x) \<le> 200)) (sync_list1 s)"
      "expire ?s = (expire s)(x := expire s x - HZ)" "saved_lost_ticks ?s = saved_lost_ticks s" "lost_ticks ?s = lost_ticks s"
    using e r r1 by (auto simp: sync1_step_def Let_def HZ_less unat_minus_HZ timer_frame intro!: filter_cong)
  have "sync_list0 (fold sync1_step xs ?s) = rev (filter (\<lambda>x. unat (expire ?s x) \<le> 200) xs) @ sync_list0 ?s
    \<and> sync_list1 (fold sync1_step xs ?s) = filter (\<lambda>x. \<not> (x \<in> set xs \<and> unat (expire ?s x) \<le> 200)) (sync_list1 ?s)
    \<and> expire (fold sync1_step xs ?s) = (\<lambda>x. if x \<in> set xs then expire ?s x - HZ else expire ?s x)
    \<and> saved_lost_ticks (fold sync1_step xs ?s) = saved_lost_ticks ?s \<and> lost_ticks (fold sync1_step xs ?s) = lost_ticks ?s"
    by (rule Cons.IH) (use Cons.prems st in \<open>auto simp: \<close>)
  moreover have "filter (\<lambda>y. unat (expire ?s y) \<le> 200) xs = filter (\<lambda>y. unat (expire s y) \<le> 200) xs"
    using Cons.prems(1) st(3) by (intro filter_cong) auto
  ultimately show ?case using Cons.prems(1) st by (auto simp: fun_eq_iff intro!: filter_cong)
qed simp

subsection \<open>One timer of the first list\<close>

text \<open>The state after a timer was handled, seen from the other timers.\<close>

definition due_step :: "timerprocs \<Rightarrow> sync_id \<Rightarrow> sync_id list \<Rightarrow> timers \<Rightarrow> timers \<Rightarrow> bool" where
  "due_step proc x qs s s1 \<longleftrightarrow>
     (\<exists>pre. sync_list0 s1 = pre @ qs) \<and> timers_ok proc s1 \<and> (\<forall>y \<in> set qs. expire s1 y = expire s y)
     \<and> saved_lost_ticks s1 = saved_lost_ticks s \<and> lost_ticks s1 = lost_ticks s
     \<and> (\<forall>y. armed y s \<and> due (set (x # qs)) s y > 0 \<longrightarrow> armed y s1 \<and> due (set qs) s1 y = due (set (x # qs)) s y)
     \<and> (\<forall>y. \<not> armed y s \<longrightarrow> \<not> armed y s1)"

lemma due_step_wait:
  assumes "timers_ok proc s" and "sync_list0 s = pre @ x # qs" and "1 < unat (expire s x)"
  shows "due_step proc x qs s (set_expire x (expire s x - 1) s)"
proof -
  have u: "unat (expire s x - 1) = unat (expire s x) - 1"
    using assms(3) by (subst unat_sub) (auto simp: word_le_nat_alt)
  have "x \<notin> set qs" "x \<notin> set (sync_list1 s)" using assms(1,2) by (auto simp: timers_ok_def)
  then show ?thesis using assms u
    by (auto simp: due_step_def timers_ok_def set_expire_def armed_def due_def)
qed

lemma due_step_fire:
  assumes "timers_ok proc s" and "sync_list0 s = pre @ x # qs" and "unat (expire s x) = 1" and "x \<noteq> Sync_sync1"
    and "sync_list0 s1 = A @ pre @ qs" and "sync_list1 s1 = B @ sync_list1 s" and "expire s1 = (expire s)(x := e)"
    and "saved_lost_ticks s1 = saved_lost_ticks s" "lost_ticks s1 = lost_ticks s"
    and "A = [x] \<and> B = [] \<and> 1 \<le> unat e \<and> unat e \<le> 100 \<or> A = [] \<and> B = [x] \<and> 100 < unat e \<or> A = [] \<and> B = []"
    and "x \<in> {Sync_async0, Sync_async1} \<Longrightarrow> A = [x]"
  shows "due_step proc x qs s s1"
proof -
  have x: "x \<notin> set qs" "x \<notin> set pre" "x \<notin> set (sync_list1 s)" using assms(1,2) by (auto simp: timers_ok_def)
  have "Sync_sync1 \<in> set (pre @ qs)" "{Sync_async0, Sync_async1} \<subseteq> set (A @ pre @ qs)"
    using assms(1,2,4,11) by (auto simp: timers_ok_def)
  then have "timers_ok proc s1"
    using assms(1-10) x by (elim disjE conjE) (auto simp: timers_ok_def)
  moreover have "armed y s1 \<and> due (set qs) s1 y = due (set (x # qs)) s y"
    if "armed y s" "due (set (x # qs)) s y > 0" for y
  proof -
    have "y \<noteq> x" using that(2) assms(2,3) by (auto simp: due_def)
    then show ?thesis using that assms(2-7,10) x by (elim disjE conjE) (auto simp: armed_def due_def)
  qed
  moreover have "\<not> armed y s1" if "\<not> armed y s" for y
    using that assms(2,5,6,10) by (elim disjE conjE) (auto simp: armed_def)
  ultimately show ?thesis using assms(5,7-9) x by (auto simp: due_step_def)
qed

lemma do_with_sync1_fields:
  "sync_list0 (do_with_sync1 s) = Sync_sync1 # sync_list0 (fold sync1_step (sync_list1 s) s)"
  "sync_list1 (do_with_sync1 s) = sync_list1 (fold sync1_step (sync_list1 s) s)"
  "expire (do_with_sync1 s) = (expire (fold sync1_step (sync_list1 s) s))(Sync_sync1 := HZ)"
  "saved_lost_ticks (do_with_sync1 s) = saved_lost_ticks (fold sync1_step (sync_list1 s) s)"
  "lost_ticks (do_with_sync1 s) = lost_ticks (fold sync1_step (sync_list1 s) s)"
  by (simp_all add: do_with_sync1_def timer_frame)

lemma due_step_sync1:
  assumes "timers_ok proc s" and "sync_list0 s = pre @ Sync_sync1 # qs" and "unat (expire s Sync_sync1) = 1"
  shows "due_step proc Sync_sync1 qs s (do_with_sync1 (sync_delete Sync_sync1 (set_expire Sync_sync1 0 s)))"
proof -
  let ?s = "sync_delete Sync_sync1 (set_expire Sync_sync1 0 s)"
  let ?m = "\<lambda>x. unat (expire s x) \<le> 200"
  have x: "Sync_sync1 \<notin> set qs" "Sync_sync1 \<notin> set pre" "Sync_sync1 \<notin> set (sync_list1 s)" using assms(1,2) by (auto simp: timers_ok_def)
  have l: "sync_list0 ?s = pre @ qs" "sync_list1 ?s = sync_list1 s" "expire ?s = (expire s)(Sync_sync1 := 0)"
    "saved_lost_ticks ?s = saved_lost_ticks s" "lost_ticks ?s = lost_ticks s"
    using x assms(2) by (auto simp: timer_frame remove1_append remove1_idem)
  have ok: "distinct (sync_list1 s)" "\<forall>y \<in> set (sync_list1 s). 100 < unat (expire s y)" "set (sync_list1 s) \<inter> set (pre @ qs) = {}"
    using assms(1,2) by (auto simp: timers_ok_def)
  have f: "filter (\<lambda>y. unat (expire ?s y) \<le> 200) (sync_list1 ?s) = filter ?m (sync_list1 s)"
    "filter (\<lambda>y. \<not> (y \<in> set (sync_list1 ?s) \<and> unat (expire ?s y) \<le> 200)) (sync_list1 ?s) = filter (\<lambda>y. \<not> ?m y) (sync_list1 s)"
    using x(3) l(3) unfolding l(2) by (auto intro!: filter_cong)
  have "distinct (sync_list1 ?s)" "\<forall>y \<in> set (sync_list1 ?s). 100 < unat (expire ?s y)" "set (sync_list1 ?s) \<inter> set (sync_list0 ?s) = {}"
    using ok x(3) unfolding l by auto
  note F = sync1_step_fold [OF this(1,2,1) subset_refl this(3), unfolded f]
  let ?r = "do_with_sync1 ?s"
  have r: "sync_list0 ?r = Sync_sync1 # rev (filter ?m (sync_list1 s)) @ pre @ qs"
      "sync_list1 ?r = filter (\<lambda>y. \<not> ?m y) (sync_list1 s)"
      "expire ?r = (\<lambda>y. if y = Sync_sync1 then HZ else if y \<in> set (sync_list1 s) then expire s y - HZ else expire s y)"
      "saved_lost_ticks ?r = saved_lost_ticks s" "lost_ticks ?r = lost_ticks s"
    using F x(3) unfolding do_with_sync1_fields by (auto simp: l fun_eq_iff)
  have "timers_ok proc ?r"
    using assms(1,2) r(1-3) ok x by (auto simp: timers_ok_def unat_minus_HZ)
  moreover have "armed y ?r \<and> due (set qs) ?r y = due (set (Sync_sync1 # qs)) s y"
    if "armed y s" "due (set (Sync_sync1 # qs)) s y > 0" for y
    using that assms(2,3) r(1-3) ok x by (auto simp: armed_def due_def unat_minus_HZ)
  moreover have "\<not> armed y ?r" if "\<not> armed y s" for y
    using that assms(2) r(1,2) by (auto simp: armed_def)
  moreover have "expire ?r y = expire s y" if "y \<in> set qs" for y using that r(3) ok(3) x(1) by auto
  ultimately show ?thesis using r by (auto simp: due_step_def)
qed

subsection \<open>A pass over the first list\<close>

text \<open>The alarms do not concern the timers.\<close>

definition same_sync :: "timers \<Rightarrow> timers \<Rightarrow> bool" where
  "same_sync s s1 \<longleftrightarrow> sync_list0 s1 = sync_list0 s \<and> sync_list1 s1 = sync_list1 s \<and> expire s1 = expire s
     \<and> saved_lost_ticks s1 = saved_lost_ticks s \<and> lost_ticks s1 = lost_ticks s"

lemma async0_walk_same: "\<exists>s1. async0_walk ts s = Inr s1 \<and> same_sync s s1"
proof (induction ts arbitrary: s)
  case (Cons t ts)
  have "\<exists>k. sendsig t (int SIGALRM) k' = Inr k" for k' by (simp add: sendsig_def SIGALRM_def SIGNR_def Let_def)
  then obtain k where "sendsig t (int SIGALRM) (sch (async_delete t (set_alarm t 0 s))) = Inr k" by blast
  then have "\<exists>s1. async0_step t s = Inr s1 \<and> same_sync s s1"
    by (simp add: async0_step_def Let_def set_alarm_def async_delete_def same_sync_def)
  then obtain s1 where "async0_step t s = Inr s1" "same_sync s s1" by blast
  with Cons.IH [of s1] show ?case by (auto simp: same_sync_def)
qed (simp add: same_sync_def)

lemma async1_fold_same: "same_sync s (fold async1_step ts s)"
proof (induction ts arbitrary: s)
  case (Cons t ts)
  have "same_sync s (async1_step t s)"
    by (simp add: async1_step_def Let_def set_alarm_def async_delete_def async0_insert_def same_sync_def)
  with Cons.IH [of "async1_step t s"] show ?case by (simp add: same_sync_def)
qed (simp add: same_sync_def)

lemma due_step_user:
  assumes "timers_ok proc s" and "sync_list0 s = pre @ User_timer i # qs" and "unat (expire s (User_timer i)) = 1"
    and "proc i = Some f" and "own_timer proc i f"
  shows "due_step proc (User_timer i) qs s (f (sync_delete (User_timer i) (set_expire (User_timer i) 0 s)))"
proof -
  let ?x = "User_timer i"
  let ?s = "sync_delete ?x (set_expire ?x 0 s)"
  have x: "?x \<notin> set qs" "?x \<notin> set pre" "?x \<notin> set (sync_list1 s)" using assms(1,2) by (auto simp: timers_ok_def)
  have l: "sync_list0 ?s = pre @ qs" "sync_list1 ?s = sync_list1 s" "expire ?s = (expire s)(?x := 0)"
    "saved_lost_ticks ?s = saved_lost_ticks s" "lost_ticks ?s = lost_ticks s"
    using x assms(2) by (auto simp: timer_frame remove1_append remove1_idem)
  obtain e b where f: "let s1 = set_expire ?x e ?s; s2 = (if b then synctimer_set proc ?x s1 else s1)
     in sync_list0 (f ?s) = sync_list0 s2 \<and> sync_list1 (f ?s) = sync_list1 s2 \<and> expire (f ?s) = expire s2
        \<and> saved_lost_ticks (f ?s) = saved_lost_ticks ?s \<and> lost_ticks (f ?s) = lost_ticks ?s"
    using assms(5) unfolding own_timer_def by blast
  let ?A = "if b \<and> e \<noteq> 0 \<and> unat e \<le> 100 then [?x] else []" and ?B = "if b \<and> e \<noteq> 0 \<and> 100 < unat e then [?x] else []"
  have f': "sync_list0 (f ?s) = ?A @ pre @ qs" "sync_list1 (f ?s) = ?B @ sync_list1 s" "expire (f ?s) = (expire s)(?x := e)"
      "saved_lost_ticks (f ?s) = saved_lost_ticks s" "lost_ticks (f ?s) = lost_ticks s"
    using f assms(4) l by (auto simp: Let_def synctimer_set_def has_proc_def HZ_less set_expire_def sync0_insert_def sync1_insert_def)
  have c: "?A = [?x] \<and> ?B = [] \<and> 1 \<le> unat e \<and> unat e \<le> 100 \<or> ?A = [] \<and> ?B = [?x] \<and> 100 < unat e \<or> ?A = [] \<and> ?B = []"
    by (auto simp: Suc_le_eq unat_gt_0)
  show ?thesis by (rule due_step_fire [OF assms(1-3) _ f' c]) simp_all
qed

lemma sync0_step_due:
  assumes "tame_procs proc" and "timers_ok proc s" and "sync_list0 s = pre @ x # qs" and "saved_lost_ticks s = 1"
  shows "\<exists>s1. sync0_step proc x s = Inr s1 \<and> due_step proc x qs s s1"
proof (cases "1 < unat (expire s x)")
  case True
  then show ?thesis using due_step_wait [OF assms(2,3)] assms(4) by (simp add: sync0_step_def word_less_nat_alt)
next
  case False
  let ?s = "sync_delete x (set_expire x 0 s)"
  have e: "unat (expire s x) = 1" using False assms(2,3) by (auto simp: timers_ok_def)
  then have st: "sync0_step proc x s = call_proc proc x ?s" using assms(4) by (simp add: sync0_step_def word_less_nat_alt)
  have x: "x \<notin> set qs" "x \<notin> set pre" "x \<notin> set (sync_list1 s)" using assms(2,3) by (auto simp: timers_ok_def)
  have l: "sync_list0 ?s = pre @ qs" "sync_list1 ?s = sync_list1 s" "expire ?s = (expire s)(x := 0)"
    "saved_lost_ticks ?s = saved_lost_ticks s" "lost_ticks ?s = lost_ticks s"
    using x assms(3) by (auto simp: timer_frame remove1_append remove1_idem)
  have again: "due_step proc x qs s (sync0_insert x (set_expire x e s1))"
    if "same_sync ?s s1" "x \<noteq> Sync_sync1" "1 \<le> unat e" "unat e \<le> 100" for s1 e
    by (rule due_step_fire [OF assms(2,3) \<open>unat (expire s x) = 1\<close> that(2), of _ "[x]" "[]" e])
      (use that l in \<open>auto simp: same_sync_def timer_frame\<close>)
  show ?thesis
  proof (cases x)
    case Sync_async0
    obtain s1 where s1: "async0_walk (async_list0 ?s) ?s = Inr s1" "same_sync ?s s1" using async0_walk_same by blast
    then show ?thesis unfolding st using again [OF s1(2), of 1] Sync_async0 by (simp add: call_proc_def do_with_async0_def)
  next
    case Sync_async1
    show ?thesis unfolding st using again [OF async1_fold_same, of HZ] Sync_async1 by (simp add: call_proc_def do_with_async1_def)
  next
    case Sync_sync1
    then show ?thesis unfolding st using due_step_sync1 [OF assms(2)] assms(3) e by (simp add: call_proc_def)
  next
    case (User_timer i)
    have "has_proc proc x" using assms(2,3) by (auto simp: timers_ok_def)
    then obtain f where f: "proc i = Some f" using User_timer by (auto simp: has_proc_def)
    then have "own_timer proc i f" using assms(1) by (simp add: tame_procs_def)
    then show ?thesis unfolding st using due_step_user [OF assms(2) _ _ f] assms(3) e f User_timer by (simp add: call_proc_def)
  qed
qed

lemma next_in_append: "x \<notin> set pre \<Longrightarrow> next_in x (pre @ x # qs) = (case qs of [] \<Rightarrow> None | z # _ \<Rightarrow> Some z)"
  by (induction pre) (auto simp: next_in_def)

text \<open>A timer whose procedure leaves its timer alone is not set again.\<close>

definition one_shot :: "timerprocs \<Rightarrow> nat \<Rightarrow> bool" where
  "one_shot proc i \<longleftrightarrow> (\<forall>f s. proc i = Some f \<longrightarrow> sync_list0 (f s) = sync_list0 s \<and> sync_list1 (f s) = sync_list1 s)"

lemma one_shot_fires:
  assumes "timers_ok proc s" and "unat (expire s (User_timer i)) = 1" and "saved_lost_ticks s = 1"
    and "one_shot proc i" and "sync0_step proc (User_timer i) s = Inr s1"
  shows "\<not> armed (User_timer i) s1"
proof -
  let ?s = "sync_delete (User_timer i) (set_expire (User_timer i) 0 s)"
  obtain f where "proc i = Some f" "s1 = f ?s"
    using assms(2,3,5) by (auto simp: sync0_step_def call_proc_def word_less_nat_alt split: option.splits)
  then have "sync_list0 s1 = sync_list0 ?s" "sync_list1 s1 = sync_list1 ?s" using assms(4) by (auto simp: one_shot_def)
  then show ?thesis using assms(1) by (auto simp: armed_def timer_frame timers_ok_def)
qed

definition pass_done :: "timerprocs \<Rightarrow> sync_id list \<Rightarrow> timers \<Rightarrow> timers \<Rightarrow> bool" where
  "pass_done proc R s s1 \<longleftrightarrow> timers_ok proc s1 \<and> lost_ticks s1 = lost_ticks s
     \<and> (\<forall>y. armed y s \<and> due (set R) s y > 0 \<longrightarrow> armed y s1 \<and> due {} s1 y = due (set R) s y)
     \<and> (\<forall>y. \<not> armed y s \<longrightarrow> \<not> armed y s1)
     \<and> (\<forall>i. one_shot proc i \<and> User_timer i \<in> set R \<and> unat (expire s (User_timer i)) = 1 \<longrightarrow> \<not> armed (User_timer i) s1)"

lemma pass_done_step:
  assumes "due_step proc x qs s s1" and "sync0_step proc x s = Inr s1" and "pass_done proc qs s1 s2"
    and "timers_ok proc s" and "saved_lost_ticks s = 1"
  shows "pass_done proc (x # qs) s s2"
proof -
  have "\<not> armed (User_timer i) s2"
    if "one_shot proc i" "User_timer i \<in> set (x # qs)" "unat (expire s (User_timer i)) = 1" for i
  proof (cases "User_timer i = x")
    case True
    then show ?thesis using one_shot_fires [OF assms(4) that(3) assms(5) that(1)] assms(2,3) by (simp add: pass_done_def)
  next
    case False
    then show ?thesis using that assms(1,3) by (auto simp: pass_done_def due_step_def)
  qed
  then show ?thesis using assms(1,3) by (auto simp: pass_done_def due_step_def)
qed

lemma sync0_walk_done:
  assumes "tame_procs proc" and "timers_ok proc s" and "sync_list0 s = pre @ x # qs" and "saved_lost_ticks s = 1"
  shows "\<exists>s1. sync0_walk proc x (next_in x (sync_list0 s)) s = Some (Inr s1) \<and> pass_done proc (x # qs) s s1"
  using assms(2-4)
proof (induction qs arbitrary: s pre x)
  case (Cons z zs)
  obtain s1 where s1: "sync0_step proc x s = Inr s1" "due_step proc x (z # zs) s s1"
    using sync0_step_due [OF assms(1) Cons.prems] by blast
  then obtain pre' where p: "sync_list0 s1 = pre' @ z # zs" "timers_ok proc s1" "saved_lost_ticks s1 = 1"
    using Cons.prems(3) by (auto simp: due_step_def)
  obtain s2 where s2: "sync0_walk proc z (next_in z (sync_list0 s1)) s1 = Some (Inr s2)" "pass_done proc (z # zs) s1 s2"
    using Cons.IH [OF p(2,1,3)] by blast
  have "next_in x (sync_list0 s) = Some z"
    using Cons.prems(1,2) by (auto simp: timers_ok_def next_in_append)
  moreover have "z \<in> set (sync_list0 s1)" using p(1) by simp
  ultimately have "sync0_walk proc x (next_in x (sync_list0 s)) s = Some (Inr s2)"
    using s1(1) s2(1) by (subst sync0_walk.simps) simp
  then show ?case using pass_done_step [OF s1(2,1) s2(2) Cons.prems(1,3)] by blast
next
  case Nil
  obtain s1 where s1: "sync0_step proc x s = Inr s1" "due_step proc x [] s s1"
    using sync0_step_due [OF assms(1) Nil] by blast
  have "next_in x (sync_list0 s) = None"
    using Nil.prems(1,2) by (auto simp: timers_ok_def next_in_append)
  then have "sync0_walk proc x (next_in x (sync_list0 s)) s = Some (Inr s1)"
    using s1(1) by (subst sync0_walk.simps) simp
  moreover have "pass_done proc [] s1 s1" using s1(2) by (simp add: pass_done_def due_step_def)
  ultimately show ?case using pass_done_step [OF s1(2,1) _ Nil.prems(1,3)] by blast
qed

subsection \<open>Ticks\<close>

text \<open>A clock interrupt without its accounting and the run of the bottom half it raises.\<close>

definition clock_tick :: "timerprocs \<Rightarrow> timers \<Rightarrow> timers kres option" where
  "clock_tick proc s = timer_bottom proc (s\<lparr>nowticks := nowticks s + 1, lost_ticks := lost_ticks s + 1\<rparr>)"

fun clock_ticks :: "timerprocs \<Rightarrow> nat \<Rightarrow> timers \<Rightarrow> timers kres option" where
  "clock_ticks proc 0 s = Some (Inr s)"
| "clock_ticks proc (Suc n) s =
     (case clock_tick proc s of Some (Inr s1) \<Rightarrow> clock_ticks proc n s1 | r \<Rightarrow> r)"

lemma clock_tick_due:
  assumes "tame_procs proc" and "timers_ok proc s" and "lost_ticks s = 0"
  shows "\<exists>s1. clock_tick proc s = Some (Inr s1) \<and> timers_ok proc s1 \<and> lost_ticks s1 = 0
    \<and> (\<forall>y. armed y s \<and> due {} s y > 1 \<longrightarrow> armed y s1 \<and> due {} s1 y = due {} s y - 1)
    \<and> (\<forall>y. \<not> armed y s \<longrightarrow> \<not> armed y s1)
    \<and> (\<forall>i. one_shot proc i \<and> armed (User_timer i) s \<and> due {} s (User_timer i) = 1 \<longrightarrow> \<not> armed (User_timer i) s1)"
proof -
  let ?s = "s\<lparr>nowticks := nowticks s + 1, sch := charge_quantum (sch s), saved_lost_ticks := 1, lost_ticks := 0\<rparr>"
  have ok: "timers_ok proc ?s" using assms(2) by (simp add: timers_ok_def)
  obtain x qs where l: "sync_list0 s = x # qs" using assms(2) by (cases "sync_list0 s") (auto simp: timers_ok_def)
  obtain s1 where s1: "sync0_walk proc x (next_in x (sync_list0 ?s)) ?s = Some (Inr s1)" "pass_done proc (x # qs) ?s s1"
    using sync0_walk_done [OF assms(1) ok, of "[]" x qs] l by auto
  have "clock_tick proc s = sync0_walk proc x (next_in x (sync_list0 ?s)) ?s"
    using l assms(3) by (simp add: clock_tick_def timer_bottom_def do_with_sync0_def)
  moreover have "due (set (x # qs)) ?s y = due {} s y - 1" if "armed y s" for y
    using that assms(2) l by (auto simp: due_def timers_ok_def armed_def)
  moreover have "armed y ?s = armed y s" for y by (simp add: armed_def)
  moreover have "User_timer i \<in> set (x # qs) \<and> unat (expire ?s (User_timer i)) = 1"
    if "armed (User_timer i) s" "due {} s (User_timer i) = 1" for i
  proof -
    have r: "1 \<le> unat (expire s Sync_sync1)" using assms(2) by (auto simp: timers_ok_def)
    have "User_timer i \<in> set (sync_list0 s)"
    proof (rule ccontr)
      assume n: "User_timer i \<notin> set (sync_list0 s)"
      then have "100 < unat (expire s (User_timer i))" using that(1) assms(2) by (auto simp: armed_def timers_ok_def)
      then show False using n r that(2) by (simp add: due_def)
    qed
    then show ?thesis using that(2) l by (simp add: due_def)
  qed
  ultimately show ?thesis using s1 by (auto simp: pass_done_def)
qed

lemma clock_ticks_due:
  assumes "tame_procs proc" and "one_shot proc i" and "timers_ok proc s" and "lost_ticks s = 0"
    and "armed (User_timer i) s" and "due {} s (User_timer i) = k" and "0 < k" and "j \<le> k"
  shows "\<exists>s1. clock_ticks proc j s = Some (Inr s1) \<and> (armed (User_timer i) s1 \<longleftrightarrow> j < k)"
  using assms(3-8)
proof (induction j arbitrary: s k)
  case 0
  then show ?case by simp
next
  case (Suc j)
  obtain s1 where s1: "clock_tick proc s = Some (Inr s1)" "timers_ok proc s1" "lost_ticks s1 = 0"
      "due {} s (User_timer i) > 1 \<longrightarrow> armed (User_timer i) s1 \<and> due {} s1 (User_timer i) = due {} s (User_timer i) - 1"
      "due {} s (User_timer i) = 1 \<longrightarrow> \<not> armed (User_timer i) s1"
    using clock_tick_due [OF assms(1) Suc.prems(1,2)] assms(2) Suc.prems(3) by blast
  show ?case
  proof (cases "k = 1")
    case True
    then show ?thesis using s1(1,5) Suc.prems by simp
  next
    case False
    then have "k > 1" using Suc.prems(5) by simp
    then have "\<exists>s2. clock_ticks proc j s1 = Some (Inr s2) \<and> (armed (User_timer i) s2 \<longleftrightarrow> j < k - 1)"
      by (intro Suc.IH [OF s1(2,3)]) (use s1(4) Suc.prems in auto)
    moreover have "j < k - 1 \<longleftrightarrow> Suc j < k" using \<open>k > 1\<close> by auto
    ultimately show ?thesis using s1(1) by simp
  qed
qed

text \<open>The timers just after \<open>synctimer_set\<close>.\<close>

lemma synctimer_set_due:
  assumes "timers_ok proc s" and "\<not> armed x s" and "expire s x \<noteq> 0" and "has_proc proc x"
  shows "timers_ok proc (synctimer_set proc x s) \<and> armed x (synctimer_set proc x s)
    \<and> due {} (synctimer_set proc x s) x
        = (if unat (expire s x) \<le> 100 then unat (expire s x) else unat (expire s x) - (100 - unat (expire s Sync_sync1)))
    \<and> lost_ticks (synctimer_set proc x s) = lost_ticks s"
proof -
  have "1 \<le> unat (expire s x)" using assms(3) by (simp add: Suc_le_eq unat_gt_0)
  moreover have "unat (expire s Sync_sync1) \<le> 100" using assms(1) by (auto simp: timers_ok_def)
  ultimately show ?thesis using assms
    by (auto simp: synctimer_set_def HZ_less sync0_insert_def sync1_insert_def timers_ok_def armed_def due_def)
qed


definition demo_timers :: timers where
  "demo_timers =
     \<lparr>sch = demo_sig, bot = \<lparr>b_mask = 0, b_active = 0, b_inflag = False, b_actions = []\<rparr>,
      nowticks = 70, lost_ticks = 0, saved_lost_ticks = 1,
      expire = (\<lambda>x. case x of Sync_async0 \<Rightarrow> 1 | User_timer _ \<Rightarrow> 250 | _ \<Rightarrow> 30),
      sync_list0 = [Sync_async0, Sync_sync1, Sync_async1], sync_list1 = [], async_list0 = [], async_list1 = [], boot_time = 0\<rparr>"

lemma demo_procs: "tame_procs (\<lambda>_. Some (\<lambda>s. s))" "one_shot (\<lambda>_. Some (\<lambda>s. s)) i"
proof -
  have "own_timer (\<lambda>_. Some (\<lambda>s. s)) i (\<lambda>s. s)" for i
    unfolding own_timer_def
  proof
    fix s
    show "\<exists>e b. let s1 = set_expire (User_timer i) e s; s2 = (if b then synctimer_set (\<lambda>_. Some (\<lambda>s. s)) (User_timer i) s1 else s1)
      in sync_list0 s = sync_list0 s2 \<and> sync_list1 s = sync_list1 s2 \<and> expire s = expire s2
        \<and> saved_lost_ticks s = saved_lost_ticks s \<and> lost_ticks s = lost_ticks s"
      by (intro exI [of _ "expire s (User_timer i)"] exI [of _ False]) (simp add: set_expire_def)
  qed
  then show "tame_procs (\<lambda>_. Some (\<lambda>s. s))" by (simp add: tame_procs_def)
qed (simp add: one_shot_def)


end
