(* ===== verification/Buffer.thy ===== *)
theory Buffer
  imports Cnix_Prelude
begin

text \<open>
  The block cache, \<open>fs/buffer.c\<close>, with the request queue of the disk, \<open>driver/ide.c\<close>. The free list,
  the hash chains and the ring of requests (from the current request on) are sequences; buffers
  are numbers. A function that may sleep is modelled from one sleep to the next: its result says what it
  sleeps for, and it goes on at its beginning. The disk is a memory of sectors of 512 bytes that the drive reads and writes;
  \<open>cmd_answer\<close> and \<open>reset_answer\<close> say how the controller answers its commands and resets, \<open>ncmd\<close>
  and \<open>nreset\<close> count them. Both ways of transfer are modelled: words through the data port, a
  sector for each interrupt, and direct memory access to \<open>ide_prdbuff\<close>.
\<close>

section \<open>Definitions\<close>

definition NR_BUF :: nat where "NR_BUF = 4 * 4096"
definition NR_HASH :: nat where "NR_HASH = NR_BUF div 8"
definition BLOCKSIZ :: nat where "BLOCKSIZ = 0x400"
definition NO_DEV :: nat where "NO_DEV = 0x7fff"
definition REQQ_SIZE :: nat where "REQQ_SIZE = 1024"

datatype bflag = B_READ | B_BUSY | B_DIRTY | B_DONE | B_WANTED | B_ERROR | B_ASY

record buf_head =
  b_dev :: nat
  b_blocknr :: nat
  b_flags :: "bflag set"
  b_count :: int
  b_wait :: "nat list"
  b_data :: "u8 list"

record ide_req =
  rq_sec :: nat
  rq_nsec :: nat
  rq_write :: bool
  rq_buf :: nat

record dev_info =
  di_flag :: bool
  di_start :: nat
  di_num :: nat

text \<open>What the controller makes of a command: it is accepted, refused at once, or not taken in time.\<close>

datatype answer = Accepted | Refused | Timed_out

record cache =
  buf :: "nat \<Rightarrow> buf_head"
  bfreelist :: "nat list"
  hash_table :: "nat \<Rightarrow> nat list"
  buf_wait :: "nat list"
  reqq :: "ide_req list"
  req_free :: nat
  req_wait :: "nat list"
  dev_info :: "dev_info list"
  first :: bool
  errs :: nat
  need_reset :: bool
  dma_ide_flag :: bool
  ide_prdbuff :: "u8 list"
  disk :: "nat \<Rightarrow> u8 list"
  cmd_answer :: "nat \<Rightarrow> answer"
  ncmd :: nat
  reset_answer :: "nat \<Rightarrow> bool"
  nreset :: nat

text \<open>What a function that may sleep has come to; a sleep for a free request names the buffer and the direction.\<close>

datatype 'a pass = Ret 'a | Again | Sleep_buf nat | Sleep_free | Sleep_req nat bool

definition upd_buf :: "nat \<Rightarrow> (buf_head \<Rightarrow> buf_head) \<Rightarrow> cache \<Rightarrow> cache" where
  "upd_buf b f s = s\<lparr>buf := (buf s)(b := f (buf s b))\<rparr>"

definition set_bflags :: "nat \<Rightarrow> bflag set \<Rightarrow> cache \<Rightarrow> cache" where
  "set_bflags b F = upd_buf b (\<lambda>h. h\<lparr>b_flags := b_flags h \<union> F\<rparr>)"

definition clear_bflags :: "nat \<Rightarrow> bflag set \<Rightarrow> cache \<Rightarrow> cache" where
  "clear_bflags b F = upd_buf b (\<lambda>h. h\<lparr>b_flags := b_flags h - F\<rparr>)"

subsection \<open>The hash table and the free list\<close>

definition hashfn :: "nat \<Rightarrow> nat \<Rightarrow> nat" where
  "hashfn dev block = (block XOR dev) mod NR_HASH"

definition getblk_from_hash :: "nat \<Rightarrow> nat \<Rightarrow> cache \<Rightarrow> nat option" where
  "getblk_from_hash dev blocknr s =
     find (\<lambda>b. b_dev (buf s b) = dev \<and> b_blocknr (buf s b) = blocknr) (hash_table s (hashfn dev blocknr))"

definition putblk_to_hash :: "nat \<Rightarrow> cache \<Rightarrow> cache" where
  "putblk_to_hash b s =
     (let h = hashfn (b_dev (buf s b)) (b_blocknr (buf s b))
      in s\<lparr>hash_table := (hash_table s)(h := b # hash_table s h)\<rparr>)"

text \<open>Unlinking from a hash chain takes a buffer out of the chain it is in, if any.\<close>

definition unhash :: "nat \<Rightarrow> cache \<Rightarrow> cache" where
  "unhash b s = s\<lparr>hash_table := (\<lambda>h. remove1 b (hash_table s h))\<rparr>"

definition notavail :: "nat \<Rightarrow> bool \<Rightarrow> cache \<Rightarrow> cache" where
  "notavail b flag s =
     (let s1 = set_bflags b {B_BUSY} s;
          s2 = (if flag \<and> b_dev (buf s1 b) \<noteq> NO_DEV then unhash b s1 else s1)
      in s2\<lparr>bfreelist := remove1 b (bfreelist s2)\<rparr>)"

text \<open>\<open>wakeup\<close> empties a wait queue; the tasks go to the run queue.\<close>

definition wake_buf :: "nat \<Rightarrow> cache \<Rightarrow> cache" where
  "wake_buf b = upd_buf b (\<lambda>h. h\<lparr>b_wait := []\<rparr>)"

definition brelse :: "nat \<Rightarrow> cache \<Rightarrow> cache" where
  "brelse b s =
     (if B_BUSY \<notin> b_flags (buf s b) then s
      else let s1 = (if B_WANTED \<in> b_flags (buf s b) then wake_buf b s else s);
               s2 = clear_bflags b {B_WANTED, B_BUSY, B_ASY} (s1\<lparr>buf_wait := []\<rparr>)
           in s2\<lparr>bfreelist := bfreelist s2 @ [b]\<rparr>)"

definition iodone :: "nat \<Rightarrow> cache \<Rightarrow> cache" where
  "iodone b s =
     (let s1 = set_bflags b {B_DONE} s
      in if B_ASY \<in> b_flags (buf s1 b) then brelse b s1
         else if B_READ \<in> b_flags (buf s1 b) then wake_buf b (clear_bflags b {B_READ} s1)
         else s1)"

subsection \<open>The request queue\<close>

text \<open>
  The place of a new request: behind the first request with a smaller sector whose successor,
  the current request for the last one, has not a smaller one, otherwise at the end.
\<close>

fun req_insert :: "ide_req \<Rightarrow> ide_req list \<Rightarrow> ide_req list" where
  "req_insert r [] = [r]"
| "req_insert r [p] = [p, r]"
| "req_insert r (p # n # rs) =
     (if rq_sec p < rq_sec r \<and> rq_sec n \<ge> rq_sec r then p # r # n # rs else p # req_insert r (n # rs))"

definition MAX_ERRS :: nat where "MAX_ERRS = 3"

definition ide_cmd :: "cache \<Rightarrow> cache \<times> bool" where
  "ide_cmd s =
     (let s1 = s\<lparr>ncmd := ncmd s + 1\<rparr>
      in case cmd_answer s (ncmd s) of
           Accepted \<Rightarrow> (s1, True)
         | Refused \<Rightarrow> (s1, False)
         | Timed_out \<Rightarrow> (s1\<lparr>need_reset := True\<rparr>, False))"

definition ide_reset :: "cache \<Rightarrow> cache \<times> bool" where
  "ide_reset s =
     (let ok = reset_answer s (nreset s) in (s\<lparr>nreset := nreset s + 1, need_reset := \<not> ok\<rparr>, ok))"

lemma errs_ide_cmd [simp]: "errs (fst (ide_cmd s)) = errs s" "errs (fst (ide_reset s)) = errs s"
  by (simp_all add: ide_cmd_def ide_reset_def Let_def split: answer.splits)

text \<open>The repetition of a command that was not accepted; the result tells whether it was at last.\<close>

function cmd_retry :: "cache \<Rightarrow> (cache \<times> bool) kres" where
  "cmd_retry s =
     (if errs s < MAX_ERRS then
        if need_reset s \<and> \<not> snd (ide_reset s) then Inl DIE
        else let c = ide_cmd (if need_reset s then fst (ide_reset s) else s)
             in if snd c then Inr (fst c, True) else cmd_retry ((fst c)\<lparr>errs := errs (fst c) + 1\<rparr>)
      else Inr (s, False))"
  by auto
termination by (relation "measure (\<lambda>s. MAX_ERRS - errs s)") (auto simp: if_distrib [of fst])

declare cmd_retry.simps [simp del]

text \<open>A sector goes out through the data port.\<close>

definition ide_io_write :: "nat \<Rightarrow> u8 list \<Rightarrow> cache \<Rightarrow> cache" where
  "ide_io_write sec d s = s\<lparr>disk := (disk s)(sec := take 512 d)\<rparr>"

text \<open>
  Starting the current request. A command that was not accepted \<open>MAX_ERRS\<close> times marks the buffer.
\<close>

definition finish_cmd :: "cache \<Rightarrow> (cache \<times> bool) kres" where
  "finish_cmd s =
     (case reqq s of
        [] \<Rightarrow> Inl DIE
      | r # _ \<Rightarrow>
          let d = b_data (buf s (rq_buf r));
              c = ide_cmd (if rq_write r \<and> dma_ide_flag s then s\<lparr>ide_prdbuff := memcpy_at (ide_prdbuff s) 0 d 1024\<rparr> else s);
              out = (\<lambda>acc x. if rq_write r \<and> \<not> dma_ide_flag s \<and> acc then ide_io_write (rq_sec r) d x else x)
          in if snd c then Inr (out True (fst c), True)
             else kbind (cmd_retry ((fst c)\<lparr>errs := errs (fst c) + 1\<rparr>)) (\<lambda>(s1, acc).
                    if errs s1 = MAX_ERRS then Inr (set_bflags (rq_buf r) {B_ERROR} s1, False)
                    else Inr (out acc (s1\<lparr>errs := 0\<rparr>), True)))"

definition sec_of :: "cache \<Rightarrow> nat \<Rightarrow> nat \<Rightarrow> nat" where
  "sec_of s dev block = di_start (dev_info s ! (dev mod 256)) + block * 2"

definition valid_block :: "cache \<Rightarrow> nat \<Rightarrow> nat \<Rightarrow> bool" where
  "valid_block s dev block \<longleftrightarrow> dev mod 256 \<le> 4 \<and> di_flag (dev_info s ! (dev mod 256))
     \<and> block \<le> (di_num (dev_info s ! (dev mod 256)) div 2 + 2 ^ 32 - 1) mod 2 ^ 32"

definition ide_rw_block :: "nat \<Rightarrow> bool \<Rightarrow> nat \<Rightarrow> cache \<Rightarrow> (cache \<times> bool pass) kres" where
  "ide_rw_block t wr b s =
     (let h = buf s b in
      if \<not> valid_block s (b_dev h) (b_blocknr h) then Inl DIE
      else if req_free s = 0 then Inr (s\<lparr>req_wait := req_wait s @ [t]\<rparr>, Sleep_req b wr)
      else
        let r = \<lparr>rq_sec = sec_of s (b_dev h) (b_blocknr h), rq_nsec = 2, rq_write = wr, rq_buf = b\<rparr>;
            s1 = s\<lparr>req_free := req_free s - 1\<rparr>
        in if reqq s1 \<noteq> [] then Inr (s1\<lparr>reqq := req_insert r (reqq s1)\<rparr>, Ret True)
           else kbind (finish_cmd (s1\<lparr>reqq := [r]\<rparr>)) (\<lambda>(s2, ok). Inr (s2, Ret ok)))"

text \<open>
  An interrupt for the current request: what the drive has done and what the handler moves. By
  direct memory access the whole block has been moved, otherwise the data port holds the sector read,
  or takes the second one to write.
\<close>

definition set_data :: "nat \<Rightarrow> nat \<Rightarrow> u8 list \<Rightarrow> nat \<Rightarrow> cache \<Rightarrow> cache" where
  "set_data b off d n = upd_buf b (\<lambda>h. h\<lparr>b_data := memcpy_at (b_data h) off d n\<rparr>)"

definition transfer :: "ide_req \<Rightarrow> cache \<Rightarrow> cache \<times> nat" where
  "transfer r s =
     (if dma_ide_flag s then
        (if rq_write r
         then s\<lparr>disk := (disk s)(rq_sec r := take 512 (ide_prdbuff s), rq_sec r + 1 := take 512 (drop 512 (ide_prdbuff s)))\<rparr>
         else let d = disk s (rq_sec r) @ disk s (rq_sec r + 1)
              in set_data (rq_buf r) 0 d 1024 (s\<lparr>ide_prdbuff := d\<rparr>), 0)
      else
        (if rq_write r
         then if rq_nsec r > 1 then ide_io_write (rq_sec r + 1) (drop 512 (b_data (buf s (rq_buf r)))) s else s
         else set_data (rq_buf r) (if rq_nsec r < 2 then 512 else 0) (disk s (rq_sec r + (2 - rq_nsec r))) 512 s,
         rq_nsec r - 1))"

definition free_cur_req :: "cache \<Rightarrow> cache" where
  "free_cur_req s = s\<lparr>req_wait := (if req_free s = 0 then [] else req_wait s), reqq := tl (reqq s), req_free := req_free s + 1\<rparr>"

definition ide_bottom :: "cache \<Rightarrow> cache kres" where
  "ide_bottom s =
     (case reqq s of
        [] \<Rightarrow> if first s then Inl DIE else Inr (s\<lparr>first := True\<rparr>)
      | r # rs \<Rightarrow>
          let (s1, n) = transfer r s; s2 = s1\<lparr>reqq := r\<lparr>rq_nsec := n\<rparr> # rs\<rparr>
          in if n \<noteq> 0 then Inr s2
             else let s3 = free_cur_req (iodone (rq_buf r) s2)
                  in if rs = [] then Inr s3 else kbind (finish_cmd s3) (\<lambda>(s4, ok). Inr s4))"

subsection \<open>Reading and writing blocks\<close>

text \<open>The first half of \<open>bwrite\<close>, which a task that slept for a request enters again.\<close>

definition bwrite_async :: "nat \<Rightarrow> nat \<Rightarrow> cache \<Rightarrow> (cache \<times> bool pass) kres" where
  "bwrite_async t b s = ide_rw_block t True b (clear_bflags b {B_READ, B_ERROR, B_DIRTY} s)"

text \<open>The wait for the end of a transfer.\<close>

definition iowait :: "nat \<Rightarrow> nat \<Rightarrow> cache \<Rightarrow> cache \<times> unit pass" where
  "iowait t b s =
     (if B_DONE \<in> b_flags (buf s b) then (s, Ret ())
      else (upd_buf b (\<lambda>h. h\<lparr>b_wait := b_wait h @ [t]\<rparr>) s, Sleep_buf b))"

text \<open>The end of a \<open>bwrite\<close> that slept for its transfer.\<close>

definition bwrite_finish :: "nat \<Rightarrow> nat \<Rightarrow> cache \<Rightarrow> cache \<times> unit pass" where
  "bwrite_finish t b s = (case iowait t b s of (s1, Ret _) \<Rightarrow> (brelse b s1, Ret ()) | (s1, p) \<Rightarrow> (s1, p))"

text \<open>\<open>bwrite\<close>: a buffer marked \<open>B_ASY\<close> is released when the transfer ends.\<close>

definition bwrite :: "nat \<Rightarrow> nat \<Rightarrow> cache \<Rightarrow> (cache \<times> unit pass) kres" where
  "bwrite t b s =
     kbind (bwrite_async t b s) (\<lambda>(s1, r).
       case r of
         Sleep_req b' w \<Rightarrow> Inr (s1, Sleep_req b' w)
       | _ \<Rightarrow> if B_ASY \<in> b_flags (buf s b) then Inr (s1, Ret ())
              else Inr (bwrite_finish t b s1))"

text \<open>One pass through the body of the loop in \<open>getblk\<close> by the task \<open>t\<close>.\<close>

definition getblk_pass :: "nat \<Rightarrow> nat \<Rightarrow> nat \<Rightarrow> cache \<Rightarrow> (cache \<times> nat pass) kres" where
  "getblk_pass t dev block s =
     (case getblk_from_hash dev block s of
        Some b \<Rightarrow>
          if B_BUSY \<in> b_flags (buf s b)
          then Inr (upd_buf b (\<lambda>h. h\<lparr>b_flags := b_flags h \<union> {B_WANTED}, b_count := b_count h + 1, b_wait := b_wait h @ [t]\<rparr>) s,
                    Sleep_buf b)
          else Inr (notavail b False s, Ret b)
      | None \<Rightarrow>
          (case bfreelist s of
             [] \<Rightarrow> Inr (s\<lparr>buf_wait := buf_wait s @ [t]\<rparr>, Sleep_free)
           | b # _ \<Rightarrow>
               let s1 = notavail b True s in
               if B_DIRTY \<in> b_flags (buf s1 b) then
                 if b_dev (buf s1 b) = NO_DEV then Inl DIE
                 else kbind (bwrite_async t b (notavail b False (clear_bflags b {B_DIRTY} (set_bflags b {B_ASY} s1)))) (\<lambda>(s2, r).
                        case r of Sleep_req b' w \<Rightarrow> Inr (s2, Sleep_req b' w) | _ \<Rightarrow> Inr (s2, Again))
               else Inr (putblk_to_hash b (upd_buf b (\<lambda>h. h\<lparr>b_dev := dev, b_blocknr := block, b_flags := {B_BUSY, B_READ}\<rparr>) s1),
                         Ret b)))"

text \<open>The decrement of \<open>b_count\<close> after the sleep for a busy buffer.\<close>

definition slept_buf :: "nat \<Rightarrow> cache \<Rightarrow> cache" where
  "slept_buf b = upd_buf b (\<lambda>h. h\<lparr>b_count := b_count h - 1\<rparr>)"

text \<open>\<open>bread\<close> behind its call of \<open>getblk\<close>, up to the wait for the transfer and behind it.\<close>

definition bread_finish :: "nat \<Rightarrow> nat \<Rightarrow> cache \<Rightarrow> cache \<times> nat option pass" where
  "bread_finish t b s =
     (case iowait t b s of
        (s1, Ret _) \<Rightarrow> if B_ERROR \<in> b_flags (buf s1 b) then (brelse b s1, Ret None) else (s1, Ret (Some b))
      | (s1, _) \<Rightarrow> (s1, Sleep_buf b))"

definition bread_start :: "nat \<Rightarrow> nat \<Rightarrow> cache \<Rightarrow> (cache \<times> nat option pass) kres" where
  "bread_start t b s =
     (if B_DONE \<in> b_flags (buf s b) then Inr (s, Ret (Some b))
      else kbind (ide_rw_block t False b s) (\<lambda>(s1, r).
        case r of
          Sleep_req b' w \<Rightarrow> Inr (s1, Sleep_req b' w)
        | Ret True \<Rightarrow> Inr (bread_finish t b s1)
        | _ \<Rightarrow> if B_ERROR \<in> b_flags (buf s1 b) then Inr (brelse b s1, Ret None) else Inr (s1, Ret (Some b))))"

text \<open>A visit of \<open>bsync\<close> to one buffer; the result tells whether the buffer was written.\<close>

definition bsync_visit :: "nat \<Rightarrow> nat \<Rightarrow> cache \<Rightarrow> (cache \<times> bool pass) kres" where
  "bsync_visit t b s =
     (if B_DIRTY \<in> b_flags (buf s b) then
        if B_BUSY \<in> b_flags (buf s b)
        then Inr (upd_buf b (\<lambda>h. h\<lparr>b_flags := b_flags h \<union> {B_WANTED}, b_count := b_count h + 1, b_wait := b_wait h @ [t]\<rparr>) s,
                  Sleep_buf b)
        else kbind (bwrite t b (notavail b False s)) (\<lambda>(s1, r).
               case r of Ret _ \<Rightarrow> Inr (s1, Ret True) | Sleep_req b' w \<Rightarrow> Inr (s1, Sleep_req b' w) | _ \<Rightarrow> Inr (s1, Sleep_buf b))
      else Inr (s, Ret False))"

definition inval_block :: "nat \<Rightarrow> nat \<Rightarrow> nat \<Rightarrow> cache \<Rightarrow> (cache \<times> unit pass) kres" where
  "inval_block t dev block s =
     (case getblk_from_hash dev block s of
        None \<Rightarrow> Inr (s, Ret ())
      | Some b \<Rightarrow>
          if B_BUSY \<in> b_flags (buf s b) \<or> b_count (buf s b) > 0
          then Inr (upd_buf b (\<lambda>h. h\<lparr>b_flags := b_flags h \<union> {B_WANTED}, b_count := b_count h + 1, b_wait := b_wait h @ [t]\<rparr>) s,
                    Sleep_buf b)
          else if b_wait (buf s b) \<noteq> [] then Inl DIE
          else let s1 = unhash b (upd_buf b (\<lambda>h. h\<lparr>b_dev := NO_DEV, b_blocknr := 0, b_flags := {}\<rparr>) s)
               in Inr (if b \<notin> set (bfreelist s1) then s1\<lparr>bfreelist := b # bfreelist s1\<rparr> else s1, Ret ()))"

text \<open>
  \<open>inval_dev\<close> goes through the free list but takes each link as the field \<open>b_rel\<close>, which stands 8 bytes
  before \<open>b_rel_free\<close>. So what it takes for \<open>b_dev\<close>, the word at offset 0 of the buffer head, is the word
  at offset 8: \<open>b_flags\<close>, a \<open>short\<close>, with its padding, which is zero in the static array. If
  it finds the device there, it writes over the fields of the buffer head.
\<close>

definition flag_bit :: "bflag \<Rightarrow> nat" where
  "flag_bit f = (case f of B_READ \<Rightarrow> 1 | B_BUSY \<Rightarrow> 2 | B_DIRTY \<Rightarrow> 4 | B_DONE \<Rightarrow> 8 | B_WANTED \<Rightarrow> 16
                 | B_ERROR \<Rightarrow> 32 | B_ASY \<Rightarrow> 64)"

definition flags_word :: "bflag set \<Rightarrow> nat" where
  "flags_word F = (\<Sum>f \<leftarrow> [B_READ, B_BUSY, B_DIRTY, B_DONE, B_WANTED, B_ERROR, B_ASY]. if f \<in> F then flag_bit f else 0)"

fun inval_dev_walk :: "nat \<Rightarrow> nat list \<Rightarrow> cache \<Rightarrow> cache kres" where
  "inval_dev_walk dev [] s = Inr s"
| "inval_dev_walk dev (b # bs) s =
     (if flags_word (b_flags (buf s b)) = dev then Inl Overrun else inval_dev_walk dev bs s)"

definition inval_dev :: "nat \<Rightarrow> cache \<Rightarrow> cache kres" where
  "inval_dev dev s = inval_dev_walk dev (bfreelist s) s"

text \<open>The start: all buffers are free and in no chain. The pages for their contents are given.\<close>

definition buf_init :: "(nat \<Rightarrow> u8 list) \<Rightarrow> cache \<Rightarrow> cache" where
  "buf_init pages s =
     s\<lparr>buf := (\<lambda>i. \<lparr>b_dev = NO_DEV, b_blocknr = 0, b_flags = {}, b_count = 0, b_wait = [], b_data = pages i\<rparr>),
       bfreelist := rev [0..<NR_BUF], hash_table := (\<lambda>_. []), buf_wait := []\<rparr>"

definition ide_init :: "cache \<Rightarrow> cache" where
  "ide_init s = s\<lparr>reqq := [], req_free := REQQ_SIZE - 1, req_wait := []\<rparr>"

definition ide_open :: "nat \<Rightarrow> cache \<Rightarrow> int" where
  "ide_open dev s = (if dev mod 256 > 4 \<or> \<not> di_flag (dev_info s ! (dev mod 256)) then -1 else 0)"

definition ide_size :: "nat \<Rightarrow> cache \<Rightarrow> nat kres" where
  "ide_size dev s =
     (if dev mod 256 > 4 \<or> \<not> di_flag (dev_info s ! (dev mod 256)) then Inl DIE
      else Inr (di_num (dev_info s ! (dev mod 256)) * 512 mod 2 ^ 32))"

text \<open>The partition table in the first sector; entry 0 of \<open>dev_info\<close> is the whole disk.\<close>

definition le32 :: "u8 list \<Rightarrow> nat \<Rightarrow> nat" where
  "le32 d i = unat (d ! i) + 2 ^ 8 * unat (d ! (i + 1)) + 2 ^ 16 * unat (d ! (i + 2)) + 2 ^ 24 * unat (d ! (i + 3))"

definition par_info :: "u8 list \<Rightarrow> dev_info \<Rightarrow> nat \<Rightarrow> dev_info" where
  "par_info d old p =
     (if d ! (p + 4) = 0 then old\<lparr>di_flag := False\<rparr>
      else \<lparr>di_flag = True, di_start = le32 d (p + 8), di_num = le32 d (p + 12)\<rparr>)"

definition get_ide_info :: "u8 list \<Rightarrow> cache \<Rightarrow> cache" where
  "get_ide_info ident_data s =
     (let d = disk s 0
      in s\<lparr>dev_info := \<lparr>di_flag = True, di_start = 0, di_num = le32 ident_data 120\<rparr>
           # map (\<lambda>i. par_info d (dev_info s ! i) (0x1be + 16 * (i - 1))) [1..<5]\<rparr>)"

section \<open>The index of the cache\<close>

text \<open>
  A buffer is in the free list exactly when it is not busy. The chains hold each buffer at
  the place of its block, and no two buffers of the same block.
\<close>

definition busy :: "cache \<Rightarrow> nat \<Rightarrow> bool" where
  "busy s b \<longleftrightarrow> B_BUSY \<in> b_flags (buf s b)"

definition ident :: "cache \<Rightarrow> nat \<Rightarrow> nat \<times> nat" where
  "ident s b = (b_dev (buf s b), b_blocknr (buf s b))"

definition free_ok :: "nat list \<Rightarrow> (nat \<Rightarrow> bool) \<Rightarrow> bool" where
  "free_ok fl bs \<longleftrightarrow> distinct fl \<and> (\<forall>b. b \<in> set fl \<longleftrightarrow> b < NR_BUF \<and> \<not> bs b)"

definition hash_ok :: "(nat \<Rightarrow> nat list) \<Rightarrow> (nat \<Rightarrow> nat \<times> nat) \<Rightarrow> bool" where
  "hash_ok ht nm \<longleftrightarrow> (\<forall>h. distinct (ht h))
     \<and> (\<forall>h b. b \<in> set (ht h) \<longrightarrow> b < NR_BUF \<and> fst (nm b) \<noteq> NO_DEV \<and> h = hashfn (fst (nm b)) (snd (nm b)))
     \<and> (\<forall>h h' b b'. b \<in> set (ht h) \<and> b' \<in> set (ht h') \<and> nm b = nm b' \<longrightarrow> b = b')"

definition cache_ok :: "cache \<Rightarrow> bool" where
  "cache_ok s \<longleftrightarrow> free_ok (bfreelist s) (busy s) \<and> hash_ok (hash_table s) (ident s) \<and> (\<forall>r \<in> set (reqq s). rq_buf r < NR_BUF)"

definition same_index :: "cache \<Rightarrow> cache \<Rightarrow> bool" where
  "same_index s s1 \<longleftrightarrow> bfreelist s1 = bfreelist s \<and> hash_table s1 = hash_table s \<and> busy s1 = busy s \<and> ident s1 = ident s"

lemma same_index_refl [simp]: "same_index s s" by (simp add: same_index_def)

lemma same_index_trans [trans]: "same_index s s1 \<Longrightarrow> same_index s1 s2 \<Longrightarrow> same_index s s2"
  by (simp add: same_index_def)

lemma same_index_ok: "same_index s s1 \<Longrightarrow> cache_ok s \<Longrightarrow> reqq s1 = reqq s \<Longrightarrow> cache_ok s1"
  by (simp add: same_index_def cache_ok_def)

lemma same_index_upd:
  assumes "\<And>h. b_dev (f h) = b_dev h" and "\<And>h. b_blocknr (f h) = b_blocknr h"
    and "\<And>h. B_BUSY \<in> b_flags (f h) \<longleftrightarrow> B_BUSY \<in> b_flags h"
  shows "same_index s (upd_buf b f s)"
  using assms by (auto simp: same_index_def upd_buf_def busy_def ident_def fun_eq_iff)

named_theorems index_simps

lemma same_index_flags [index_simps]:
  "B_BUSY \<notin> F \<Longrightarrow> same_index s (set_bflags b F s)" "B_BUSY \<notin> F \<Longrightarrow> same_index s (clear_bflags b F s)"
  "same_index s (wake_buf b s)" "same_index s (slept_buf b s)"
  unfolding set_bflags_def clear_bflags_def wake_buf_def slept_buf_def by (auto intro!: same_index_upd)

lemma reqq_upd [simp]:
  "reqq (upd_buf b f s) = reqq s" "reqq (set_bflags b F s) = reqq s" "reqq (clear_bflags b F s) = reqq s"
  "reqq (wake_buf b s) = reqq s" "reqq (slept_buf b s) = reqq s" "reqq (unhash b s) = reqq s"
  "reqq (notavail b fl s) = reqq s" "reqq (brelse b s) = reqq s" "reqq (putblk_to_hash b s) = reqq s"
  "reqq (iodone b s) = reqq s"
  by (simp_all add: upd_buf_def set_bflags_def clear_bflags_def wake_buf_def slept_buf_def unhash_def notavail_def
      brelse_def putblk_to_hash_def iodone_def Let_def)

subsection \<open>The operations on the lists\<close>

lemma free_ok_take:
  "free_ok fl bs \<Longrightarrow> free_ok (remove1 b fl) (\<lambda>x. x = b \<or> bs x)"
  by (auto simp: free_ok_def)

lemma free_ok_put: "free_ok fl bs \<Longrightarrow> bs b \<Longrightarrow> b < NR_BUF \<Longrightarrow> free_ok (fl @ [b]) (\<lambda>x. x \<noteq> b \<and> bs x)"
  by (auto simp: free_ok_def)

lemma hash_ok_remove: "hash_ok ht nm \<Longrightarrow> hash_ok (\<lambda>h. remove1 b (ht h)) nm"
  unfolding hash_ok_def by (auto dest: set_remove1_subset [THEN subsetD])

lemma hash_ok_rename:
  "hash_ok ht nm \<Longrightarrow> (\<And>h. b \<notin> set (ht h)) \<Longrightarrow> (\<And>x. x \<noteq> b \<Longrightarrow> nm' x = nm x) \<Longrightarrow> hash_ok ht nm'"
  unfolding hash_ok_def by (metis)

lemma hash_ok_add:
  assumes "hash_ok ht nm" and "\<And>h. b \<notin> set (ht h)" and "b < NR_BUF" and "nm b = (d, k)" and "d \<noteq> NO_DEV"
    and "\<And>x. x \<in> set (ht (hashfn d k)) \<Longrightarrow> nm x \<noteq> (d, k)"
  shows "hash_ok (ht(hashfn d k := b # ht (hashfn d k))) nm"
proof -
  have u: "nm x \<noteq> (d, k)" if "x \<in> set (ht h)" for x h
  proof
    assume "nm x = (d, k)"
    moreover have "h = hashfn (fst (nm x)) (snd (nm x))" using assms(1) that by (auto simp: hash_ok_def)
    ultimately show False using assms(6) that by simp
  qed
  show ?thesis using assms(1-5) u unfolding hash_ok_def by (auto split: if_splits)
qed

lemma notavail_fields:
  "bfreelist (notavail b fl s) = remove1 b (bfreelist s)"
  "busy (notavail b fl s) = (\<lambda>x. x = b \<or> busy s x)" "ident (notavail b fl s) = ident s"
  "hash_table (notavail b fl s) = (if fl \<and> fst (ident s b) \<noteq> NO_DEV then \<lambda>h. remove1 b (hash_table s h) else hash_table s)"
  by (auto simp: notavail_def Let_def set_bflags_def upd_buf_def unhash_def busy_def ident_def fun_eq_iff)

lemma notavail_ok: "cache_ok s \<Longrightarrow> cache_ok (notavail b fl s)"
  by (simp add: cache_ok_def notavail_fields free_ok_take hash_ok_remove)

lemma brelse_fields:
  "busy s b \<Longrightarrow> bfreelist (brelse b s) = bfreelist s @ [b]"
  "busy (brelse b s) = (\<lambda>x. x \<noteq> b \<and> busy s x)" "ident (brelse b s) = ident s" "hash_table (brelse b s) = hash_table s"
  by (auto simp: brelse_def Let_def wake_buf_def clear_bflags_def upd_buf_def busy_def ident_def fun_eq_iff)

lemma brelse_idle: "\<not> busy s b \<Longrightarrow> brelse b s = s"
  by (simp add: brelse_def busy_def)

lemma brelse_ok: "cache_ok s \<Longrightarrow> b < NR_BUF \<Longrightarrow> cache_ok (brelse b s)"
  by (cases "busy s b") (simp_all add: cache_ok_def brelse_fields free_ok_put brelse_idle)

lemma iodone_ok:
  assumes "cache_ok s" and "b < NR_BUF"
  shows "cache_ok (iodone b s)"
proof -
  have "cache_ok (set_bflags b {B_DONE} s)" by (rule same_index_ok [OF same_index_flags(1) assms(1)]) simp_all
  moreover have "cache_ok (wake_buf b (clear_bflags b {B_READ} s1))" if "cache_ok s1" for s1
    by (rule same_index_ok [OF same_index_trans [OF same_index_flags(2) same_index_flags(3)] that]) simp_all
  ultimately show ?thesis using assms(2) brelse_ok by (simp add: iodone_def Let_def)
qed

subsection \<open>The requests\<close>

lemma set_req_insert: "set (req_insert r rs) = insert r (set rs)"
  by (induction r rs rule: req_insert.induct) auto

text \<open>The controller and the disk have no part in the index.\<close>

definition same_cache :: "cache \<Rightarrow> cache \<Rightarrow> bool" where
  "same_cache s s1 \<longleftrightarrow> buf s1 = buf s \<and> bfreelist s1 = bfreelist s \<and> hash_table s1 = hash_table s \<and> reqq s1 = reqq s"

lemma same_cache_index: "same_cache s s1 \<Longrightarrow> same_index s s1 \<and> reqq s1 = reqq s"
  by (simp add: same_cache_def same_index_def busy_def ident_def fun_eq_iff)

lemma same_cache_refl [simp]: "same_cache s s" by (simp add: same_cache_def)

lemma same_cache_trans: "same_cache s s1 \<Longrightarrow> same_cache s1 s2 \<Longrightarrow> same_cache s s2"
  by (simp add: same_cache_def)

lemma same_cache_ctl [simp]:
  "same_cache s (fst (ide_cmd s))" "same_cache s (fst (ide_reset s))" "same_cache s (ide_io_write n d s)"
  "same_cache s (s\<lparr>errs := e\<rparr>)" "same_cache s (s\<lparr>ide_prdbuff := p\<rparr>)" "same_cache s (s\<lparr>first := f\<rparr>)" "same_cache s (s\<lparr>disk := dk\<rparr>)"
  by (simp_all add: same_cache_def ide_cmd_def ide_reset_def ide_io_write_def Let_def split: answer.splits)

lemma cmd_retry_same: "cmd_retry s = Inr (s1, acc) \<Longrightarrow> same_cache s s1"
proof (induction s arbitrary: s1 acc rule: cmd_retry.induct)
  case (1 s)
  let ?s = "if need_reset s then fst (ide_reset s) else s"
  have c: "same_cache s (fst (ide_cmd ?s))"
    using same_cache_trans [OF same_cache_ctl(2) same_cache_ctl(1)] by simp
  show ?case
  proof (cases "errs s < MAX_ERRS \<and> \<not> snd (ide_cmd ?s)")
    case False
    then show ?thesis using "1.prems" c by (subst (asm) cmd_retry.simps) (auto simp: Let_def split: if_splits)
  next
    case True
    then have e: "cmd_retry ((fst (ide_cmd ?s))\<lparr>errs := errs (fst (ide_cmd ?s)) + 1\<rparr>) = Inr (s1, acc)"
      and n: "\<not> (need_reset s \<and> \<not> snd (ide_reset s))"
      using "1.prems" by (subst (asm) cmd_retry.simps; simp add: Let_def split: if_splits)+
    then show ?thesis using "1.IH" [OF _ n refl _ e] True c same_cache_trans same_cache_ctl(4) by blast
  qed
qed

lemma finish_cmd_index:
  assumes "finish_cmd s = Inr (s1, ok)"
  shows "same_index s s1 \<and> reqq s1 = reqq s"
proof -
  obtain r rs where q: "reqq s = r # rs" using assms by (auto simp: finish_cmd_def split: list.splits)
  let ?d = "b_data (buf s (rq_buf r))"
  let ?c = "ide_cmd (if rq_write r \<and> dma_ide_flag s then s\<lparr>ide_prdbuff := memcpy_at (ide_prdbuff s) 0 ?d 1024\<rparr> else s)"
  let ?out = "\<lambda>acc x. if rq_write r \<and> \<not> dma_ide_flag s \<and> acc then ide_io_write (rq_sec r) ?d x else x"
  have c: "same_cache s (fst ?c)" by (auto intro: same_cache_trans [OF _ same_cache_ctl(1)])
  have out: "same_cache s (?out acc x)" if "same_cache s x" for acc x using same_cache_trans [OF that] by simp
  show ?thesis
  proof (cases "snd ?c")
    case True
    then have e: "s1 = ?out True (fst ?c)" using assms q by (simp add: finish_cmd_def Let_def)
    show ?thesis unfolding e by (rule same_cache_index [OF out [OF c]])
  next
    case False
    then obtain s2 acc where r: "cmd_retry ((fst ?c)\<lparr>errs := errs (fst ?c) + 1\<rparr>) = Inr (s2, acc)"
      and e: "s1 = set_bflags (rq_buf r) {B_ERROR} s2 \<or> s1 = ?out acc (s2\<lparr>errs := 0\<rparr>)"
      using assms q by (auto simp: finish_cmd_def Let_def split: if_splits)
    have s2: "same_cache s s2" using cmd_retry_same [OF r] same_cache_trans c same_cache_ctl(4) by blast
    have "same_cache s (?out acc (s2\<lparr>errs := 0\<rparr>))" by (rule out [OF same_cache_trans [OF s2]]) simp
    then have g: "same_index s (?out acc (s2\<lparr>errs := 0\<rparr>)) \<and> reqq (?out acc (s2\<lparr>errs := 0\<rparr>)) = reqq s"
      by (rule same_cache_index)
    have "same_index s2 (set_bflags (rq_buf r) {B_ERROR} s2)" by (rule same_index_flags) simp
    then have "same_index s (set_bflags (rq_buf r) {B_ERROR} s2) \<and> reqq (set_bflags (rq_buf r) {B_ERROR} s2) = reqq s"
      using same_cache_index [OF s2] by (auto intro: same_index_trans)
    then show ?thesis using e g by (elim disjE ssubst)
  qed
qed

lemma ide_rw_block_index:
  assumes "ide_rw_block t wr b s = Inr (s1, r)"
  shows "same_index s s1 \<and> rq_buf ` set (reqq s1) \<subseteq> insert b (rq_buf ` set (reqq s))"
proof -
  have same: "same_index s (s\<lparr>req_free := x, reqq := q\<rparr>)" "same_index s (s\<lparr>req_wait := w\<rparr>)" for x q w
    by (simp_all add: same_index_def busy_def ident_def fun_eq_iff)
  show ?thesis
  proof (cases "req_free s = 0 \<or> reqq s \<noteq> []")
    case True
    then show ?thesis using assms same by (auto simp: ide_rw_block_def Let_def set_req_insert split: if_splits)
  next
    case False
    let ?r = "\<lparr>rq_sec = sec_of s (b_dev (buf s b)) (b_blocknr (buf s b)), rq_nsec = 2, rq_write = wr, rq_buf = b\<rparr>"
    let ?s = "s\<lparr>req_free := req_free s - 1, reqq := [?r]\<rparr>"
    have "\<exists>ok. finish_cmd ?s = Inr (s1, ok)"
      using assms False by (auto simp: ide_rw_block_def Let_def kbind_eq_Inr split: if_splits)
    then have "same_index ?s s1 \<and> reqq s1 = [?r]" using finish_cmd_index by fastforce
    then show ?thesis using same_index_trans [OF same(1)] by (metis image_insert image_is_empty insert_mono empty_set empty_subsetI list.simps(15) ide_req.select_convs(4))
  qed
qed

lemma ide_rw_block_ok:
  assumes "ide_rw_block t wr b s = Inr (s1, r)" and "cache_ok s" and "b < NR_BUF"
  shows "cache_ok s1 \<and> same_index s s1"
proof -
  have i: "same_index s s1" "rq_buf ` set (reqq s1) \<subseteq> insert b (rq_buf ` set (reqq s))"
    using ide_rw_block_index [OF assms(1)] by auto
  have q: "\<forall>q \<in> set (reqq s). rq_buf q < NR_BUF" using assms(2) by (simp add: cache_ok_def)
  have "\<forall>q \<in> set (reqq s1). rq_buf q < NR_BUF"
  proof
    fix x assume "x \<in> set (reqq s1)"
    then have "rq_buf x = b \<or> (\<exists>y \<in> set (reqq s). rq_buf x = rq_buf y)" using i(2) by auto
    then show "rq_buf x < NR_BUF" using q assms(3) by auto
  qed
  then show ?thesis using i(1) assms(2) by (simp add: same_index_def cache_ok_def)
qed

lemma bwrite_async_ok:
  assumes "bwrite_async t b s = Inr (s1, r)" and "cache_ok s" and "b < NR_BUF"
  shows "cache_ok s1 \<and> same_index s s1"
proof -
  have i: "same_index s (clear_bflags b {B_READ, B_ERROR, B_DIRTY} s)" by (rule same_index_flags) simp
  moreover have "cache_ok (clear_bflags b {B_READ, B_ERROR, B_DIRTY} s)" by (rule same_index_ok [OF i assms(2)]) simp
  ultimately show ?thesis using ide_rw_block_ok [OF assms(1) [unfolded bwrite_async_def] _ assms(3)] same_index_trans by blast
qed

lemma iowait_ok:
  assumes "iowait t b s = (s1, r)" and "cache_ok s"
  shows "cache_ok s1"
proof -
  have "same_index s (upd_buf b (\<lambda>h. h\<lparr>b_wait := b_wait h @ [t]\<rparr>) s)" by (rule same_index_upd) simp_all
  then show ?thesis using assms same_index_ok by (auto simp: iowait_def split: if_splits)
qed

lemma bwrite_finish_ok: "cache_ok s \<Longrightarrow> b < NR_BUF \<Longrightarrow> bwrite_finish t b s = (s1, r) \<Longrightarrow> cache_ok s1"
  using iowait_ok [of t b s] by (auto simp: bwrite_finish_def brelse_ok split: prod.splits pass.splits)

lemma bread_finish_ok: "cache_ok s \<Longrightarrow> b < NR_BUF \<Longrightarrow> bread_finish t b s = (s1, r) \<Longrightarrow> cache_ok s1"
  using iowait_ok [of t b s] by (auto simp: bread_finish_def brelse_ok split: prod.splits pass.splits if_splits)

lemma bwrite_ok:
  assumes "bwrite t b s = Inr (s1, r)" and "cache_ok s" and "b < NR_BUF"
  shows "cache_ok s1"
proof -
  obtain s2 r2 where a: "bwrite_async t b s = Inr (s2, r2)" using assms(1) by (auto simp: bwrite_def kbind_eq_Inr)
  have "cache_ok s2" using bwrite_async_ok [OF a assms(2,3)] by simp
  moreover have "s1 = s2 \<or> (\<exists>r. bwrite_finish t b s2 = (s1, r))"
    using assms(1) a by (auto simp: bwrite_def split: pass.splits if_splits)
  ultimately show ?thesis using bwrite_finish_ok assms(3) by blast
qed

lemma bread_start_ok:
  assumes "bread_start t b s = Inr (s1, r)" and "cache_ok s" and "b < NR_BUF"
  shows "cache_ok s1"
proof (cases "B_DONE \<in> b_flags (buf s b)")
  case False
  then obtain s2 r2 where a: "ide_rw_block t False b s = Inr (s2, r2)" using assms(1) by (auto simp: bread_start_def kbind_eq_Inr)
  have "cache_ok s2" using ide_rw_block_ok [OF a assms(2,3)] by simp
  moreover have "s1 = s2 \<or> s1 = brelse b s2 \<or> (\<exists>r. bread_finish t b s2 = (s1, r))"
    using assms(1) a False by (auto simp: bread_start_def split: pass.splits if_splits bool.splits)
  ultimately show ?thesis using bread_finish_ok brelse_ok assms(3) by blast
qed (use assms in \<open>simp add: bread_start_def\<close>)

lemma transfer_index: "same_index s (fst (transfer r s)) \<and> reqq (fst (transfer r s)) = reqq s"
  by (auto simp: transfer_def Let_def set_data_def upd_buf_def ide_io_write_def same_index_def busy_def ident_def fun_eq_iff)

lemma free_cur_req_ok:
  assumes "cache_ok s"
  shows "cache_ok (free_cur_req s)"
proof -
  have "busy (free_cur_req s) = busy s" "ident (free_cur_req s) = ident s"
    by (simp_all add: free_cur_req_def busy_def ident_def fun_eq_iff)
  moreover have "set (tl (reqq s)) \<subseteq> set (reqq s)" by (cases "reqq s") auto
  ultimately show ?thesis using assms by (auto simp: cache_ok_def free_cur_req_def)
qed

lemma ide_bottom_ok:
  assumes "ide_bottom s = Inr s1" and "cache_ok s"
  shows "cache_ok s1"
proof (cases "reqq s")
  case Nil
  then have "same_cache s s1" using assms(1) by (auto simp: ide_bottom_def split: if_splits)
  then show ?thesis using same_cache_index same_index_ok assms(2) by blast
next
  case (Cons r rs)
  let ?n = "snd (transfer r s)"
  let ?s2 = "(fst (transfer r s))\<lparr>reqq := r\<lparr>rq_nsec := ?n\<rparr> # rs\<rparr>"
  let ?s3 = "free_cur_req (iodone (rq_buf r) ?s2)"
  have b: "rq_buf r < NR_BUF" using assms(2) Cons by (simp add: cache_ok_def)
  have "cache_ok (fst (transfer r s))" using transfer_index same_index_ok assms(2) by blast
  moreover have "busy ?s2 = busy (fst (transfer r s))" "ident ?s2 = ident (fst (transfer r s))"
    by (simp_all add: busy_def ident_def fun_eq_iff)
  ultimately have s2: "cache_ok ?s2" using Cons transfer_index by (simp add: cache_ok_def)
  then have "cache_ok ?s3" using b by (simp add: free_cur_req_ok iodone_ok)
  then show ?thesis using assms(1) Cons s2 finish_cmd_index [of ?s3] same_index_ok
    by (auto simp: ide_bottom_def Let_def split_beta split: if_splits)
qed

subsection \<open>Getting a buffer\<close>

lemma same_index_want: "same_index s (upd_buf b (\<lambda>h. h\<lparr>b_flags := b_flags h \<union> {B_WANTED}, b_count := b_count h + 1, b_wait := b_wait h @ [t]\<rparr>) s)"
  by (rule same_index_upd) simp_all

lemma getblk_from_hash_Some:
  "getblk_from_hash dev block s = Some b \<Longrightarrow> b \<in> set (hash_table s (hashfn dev block)) \<and> ident s b = (dev, block)"
  by (auto simp: getblk_from_hash_def ident_def find_Some_iff in_set_conv_nth)

lemma getblk_from_hash_None:
  "getblk_from_hash dev block s = None \<Longrightarrow> x \<in> set (hash_table s (hashfn dev block)) \<Longrightarrow> ident s x \<noteq> (dev, block)"
  by (auto simp: getblk_from_hash_def ident_def find_None_iff)

lemma getblk_from_hash_eq:
  assumes "hash_ok (hash_table s) (ident s)" and "b \<in> set (hash_table s h)" and "ident s b = (dev, block)"
  shows "getblk_from_hash dev block s = Some b"
proof -
  have "h = hashfn dev block" using assms by (force simp: hash_ok_def)
  moreover obtain b' where b': "getblk_from_hash dev block s = Some b'"
    using assms(2,3) calculation getblk_from_hash_None by blast
  ultimately show ?thesis
    using getblk_from_hash_Some [OF b'] assms unfolding hash_ok_def by metis
qed

text \<open>The three ways in which a free buffer is taken for a new block.\<close>

definition take_clean :: "nat \<Rightarrow> nat \<Rightarrow> nat \<Rightarrow> cache \<Rightarrow> cache" where
  "take_clean b dev block s =
     putblk_to_hash b (upd_buf b (\<lambda>h. h\<lparr>b_dev := dev, b_blocknr := block, b_flags := {B_BUSY, B_READ}\<rparr>) (notavail b True s))"

definition write_back :: "nat \<Rightarrow> cache \<Rightarrow> cache" where
  "write_back b s = notavail b False (clear_bflags b {B_DIRTY} (set_bflags b {B_ASY} (notavail b True s)))"

lemma take_clean_fields:
  assumes "hash_ok (hash_table s) (ident s)"
  shows "bfreelist (take_clean b dev block s) = remove1 b (bfreelist s)"
    "busy (take_clean b dev block s) = (\<lambda>x. x = b \<or> busy s x)"
    "ident (take_clean b dev block s) = (ident s)(b := (dev, block))"
    "hash_table (take_clean b dev block s) =
       (\<lambda>h. remove1 b (hash_table s h))(hashfn dev block := b # remove1 b (hash_table s (hashfn dev block)))"
    "reqq (take_clean b dev block s) = reqq s"
proof -
  have "remove1 b (hash_table s h) = hash_table s h" if "fst (ident s b) = NO_DEV" for h
    using assms that by (metis hash_ok_def remove1_idem)
  then have h: "hash_table (notavail b True s) = (\<lambda>h. remove1 b (hash_table s h))"
    by (simp add: notavail_fields fun_eq_iff)
  show "hash_table (take_clean b dev block s) =
       (\<lambda>h. remove1 b (hash_table s h))(hashfn dev block := b # remove1 b (hash_table s (hashfn dev block)))"
    unfolding take_clean_def putblk_to_hash_def Let_def using h by (simp add: upd_buf_def)
  show "bfreelist (take_clean b dev block s) = remove1 b (bfreelist s)"
    by (simp add: take_clean_def putblk_to_hash_def Let_def upd_buf_def notavail_fields)
  have "busy (take_clean b dev block s) = (\<lambda>x. x = b \<or> busy (notavail b True s) x)"
    "ident (take_clean b dev block s) = (ident (notavail b True s))(b := (dev, block))"
    by (auto simp: take_clean_def putblk_to_hash_def Let_def upd_buf_def busy_def ident_def fun_eq_iff)
  then show "busy (take_clean b dev block s) = (\<lambda>x. x = b \<or> busy s x)"
    "ident (take_clean b dev block s) = (ident s)(b := (dev, block))" by (auto simp: notavail_fields)
  show "reqq (take_clean b dev block s) = reqq s" by (simp add: take_clean_def)
qed

lemma hash_ok_gone:
  assumes "hash_ok ht nm"
  shows "b \<notin> set (remove1 b (ht h))"
  using assms by (simp add: hash_ok_def)

lemma take_clean_ok:
  assumes ok: "cache_ok s" and "b < NR_BUF" and dev: "dev \<noteq> NO_DEV" and none: "getblk_from_hash dev block s = None"
  shows "cache_ok (take_clean b dev block s)"
proof -
  have h: "hash_ok (hash_table s) (ident s)" using ok by (simp add: cache_ok_def)
  let ?ht = "\<lambda>h. remove1 b (hash_table s h)" and ?nm = "(ident s)(b := (dev, block))"
  have "hash_ok ?ht ?nm" by (rule hash_ok_rename [OF hash_ok_remove [OF h] hash_ok_gone [OF h]]) simp
  then have "hash_ok (?ht(hashfn dev block := b # ?ht (hashfn dev block))) ?nm"
  proof (rule hash_ok_add)
    show "?nm x \<noteq> (dev, block)" if "x \<in> set (remove1 b (hash_table s (hashfn dev block)))" for x
      using that hash_ok_gone [OF h, of b] getblk_from_hash_None [OF none] by (auto dest: set_remove1_subset [THEN subsetD])
  qed (use assms(2) dev hash_ok_gone [OF h] in auto)
  then show ?thesis using ok free_ok_take by (simp add: cache_ok_def take_clean_fields [OF h])
qed

lemma write_back_ok: "cache_ok s \<Longrightarrow> cache_ok (write_back b s)"
  unfolding write_back_def
  by (intro notavail_ok same_index_ok [OF same_index_trans [OF same_index_flags(1) same_index_flags(2)] notavail_ok]) simp_all

lemma getblk_pass_cases:
  assumes "getblk_pass t dev block s = Inr (s1, r)"
  obtains (want) b where "getblk_from_hash dev block s = Some b" "busy s b" "r = Sleep_buf b"
      "s1 = upd_buf b (\<lambda>h. h\<lparr>b_flags := b_flags h \<union> {B_WANTED}, b_count := b_count h + 1, b_wait := b_wait h @ [t]\<rparr>) s"
  | (hit) b where "getblk_from_hash dev block s = Some b" "\<not> busy s b" "r = Ret b" "s1 = notavail b False s"
  | (empty) "getblk_from_hash dev block s = None" "bfreelist s = []" "r = Sleep_free" "s1 = s\<lparr>buf_wait := buf_wait s @ [t]\<rparr>"
  | (dirty) b bs w where "getblk_from_hash dev block s = None" "bfreelist s = b # bs" "B_DIRTY \<in> b_flags (buf s b)"
      "fst (ident s b) \<noteq> NO_DEV" "bwrite_async t b (write_back b s) = Inr (s1, w)"
      "r = (case w of Sleep_req b' v \<Rightarrow> Sleep_req b' v | _ \<Rightarrow> Again)"
  | (clean) b bs where "getblk_from_hash dev block s = None" "bfreelist s = b # bs" "B_DIRTY \<notin> b_flags (buf s b)"
      "r = Ret b" "s1 = take_clean b dev block s"
proof (cases "getblk_from_hash dev block s")
  case (Some b)
  then show ?thesis using assms hit want by (auto simp: getblk_pass_def busy_def split: if_splits)
next
  case None
  show ?thesis
  proof (cases "bfreelist s")
    case Nil
    then show ?thesis using assms None empty by (auto simp: getblk_pass_def)
  next
    case (Cons b bs)
    have d: "B_DIRTY \<in> b_flags (buf (notavail b True s) b) \<longleftrightarrow> B_DIRTY \<in> b_flags (buf s b)"
      by (auto simp: notavail_def Let_def set_bflags_def upd_buf_def unhash_def)
    have n: "b_dev (buf (notavail b True s) b) = fst (ident s b)"
      by (auto simp: notavail_def Let_def set_bflags_def upd_buf_def unhash_def ident_def)
    show ?thesis
    proof (cases "B_DIRTY \<in> b_flags (buf s b)")
      case True
      then obtain w where "fst (ident s b) \<noteq> NO_DEV" "bwrite_async t b (write_back b s) = Inr (s1, w)"
        "r = (case w of Sleep_req b' v \<Rightarrow> Sleep_req b' v | _ \<Rightarrow> Again)"
        using assms None Cons d n
        by (fastforce simp: getblk_pass_def Let_def write_back_def kbind_eq_Inr split: if_splits pass.split_asm)
      then show ?thesis using dirty None Cons True by blast
    next
      case False
      then show ?thesis using assms None Cons d clean by (auto simp: getblk_pass_def Let_def take_clean_def)
    qed
  qed
qed

lemma cache_ok_free: "cache_ok s \<Longrightarrow> b \<in> set (bfreelist s) \<longleftrightarrow> b < NR_BUF \<and> \<not> busy s b"
  by (simp add: cache_ok_def free_ok_def)

lemma cache_ok_hashed: "cache_ok s \<Longrightarrow> getblk_from_hash dev block s = Some b \<Longrightarrow> b < NR_BUF"
  by (drule getblk_from_hash_Some) (auto simp: cache_ok_def hash_ok_def)

lemma getblk_pass_ok:
  assumes "getblk_pass t dev block s = Inr (s1, r)" and "cache_ok s" and "dev \<noteq> NO_DEV"
  shows "cache_ok s1"
  using assms(1)
proof (cases rule: getblk_pass_cases)
  case (want b)
  then show ?thesis using same_index_ok [OF same_index_want] assms(2) by simp
next
  case (empty)
  then show ?thesis using assms(2) same_cache_index [of s s1] same_index_ok by (simp add: same_cache_def)
next
  case (dirty b bs w)
  then show ?thesis using bwrite_async_ok write_back_ok [OF assms(2)] cache_ok_free [OF assms(2)] by fastforce
next
  case (clean b bs)
  then have "b < NR_BUF" using cache_ok_free [OF assms(2), of b] by simp
  then show ?thesis using take_clean_ok [OF assms(2) _ assms(3)] clean by simp
qed (use notavail_ok assms(2) in simp)

lemma getblk_pass_Ret:
  assumes g: "getblk_pass t dev block s = Inr (s1, Ret b)" and ok: "cache_ok s" and dev: "dev \<noteq> NO_DEV"
  shows "b \<in> set (bfreelist s) \<and> busy s1 b \<and> b \<notin> set (bfreelist s1)
    \<and> ident s1 b = (dev, block) \<and> getblk_from_hash dev block s1 = Some b"
proof -
  have ok1: "cache_ok s1" using getblk_pass_ok g ok dev by blast
  have "b < NR_BUF \<and> \<not> busy s b \<and> busy s1 b \<and> ident s1 b = (dev, block) \<and> (\<exists>h. b \<in> set (hash_table s1 h))"
    using g
  proof (cases rule: getblk_pass_cases)
    case (hit b')
    then show ?thesis using getblk_from_hash_Some [OF hit(1)] cache_ok_hashed [OF ok hit(1)]
      by (auto simp: notavail_fields)
  next
    case (dirty b' bs w)
    then show ?thesis by (simp split: pass.splits)
  next
    case (clean b' bs)
    have h: "hash_ok (hash_table s) (ident s)" using ok by (simp add: cache_ok_def)
    then show ?thesis using clean cache_ok_free [OF ok, of b] by (auto simp: take_clean_fields [OF h])
  qed simp_all
  then show ?thesis using cache_ok_free [OF ok1, of b] cache_ok_free [OF ok, of b] getblk_from_hash_eq ok1
    by (metis cache_ok_def)
qed

lemma bsync_visit_ok:
  assumes "bsync_visit t b s = Inr (s1, r)" and "cache_ok s" and "b < NR_BUF"
  shows "cache_ok s1"
proof (cases "B_DIRTY \<in> b_flags (buf s b) \<and> \<not> busy s b")
  case True
  then obtain s2 r2 where w: "bwrite t b (notavail b False s) = Inr (s2, r2)" using assms(1) by (auto simp: bsync_visit_def busy_def)
  then have "s1 = s2" using assms(1) True by (cases r2) (simp_all add: bsync_visit_def busy_def)
  then show ?thesis using bwrite_ok [OF w] notavail_ok assms(2,3) by blast
next
  case False
  then show ?thesis using assms same_index_ok [OF same_index_want]
    by (auto simp: bsync_visit_def busy_def split: if_splits)
qed

lemma inval_block_ok:
  assumes "inval_block t dev block s = Inr (s1, r)" and ok: "cache_ok s"
  shows "cache_ok s1"
proof (cases "getblk_from_hash dev block s")
  case None
  then show ?thesis using assms by (simp add: inval_block_def)
next
  case (Some b)
  show ?thesis
  proof (cases "busy s b \<or> b_count (buf s b) > 0")
    case True
    then show ?thesis using assms Some same_index_ok [OF same_index_want] by (auto simp: inval_block_def busy_def)
  next
    case False
    let ?s = "unhash b (upd_buf b (\<lambda>h. h\<lparr>b_dev := NO_DEV, b_blocknr := 0, b_flags := {}\<rparr>) s)"
    have "b \<in> set (bfreelist s)" using cache_ok_free [OF ok] cache_ok_hashed [OF ok Some] False by simp
    then have s1: "s1 = ?s" using assms Some False
      by (auto simp: inval_block_def busy_def Let_def unhash_def upd_buf_def split: if_splits)
    have h: "hash_ok (hash_table s) (ident s)" using ok by (simp add: cache_ok_def)
    have f: "bfreelist ?s = bfreelist s" "busy ?s = busy s" "ident ?s = (ident s)(b := (NO_DEV, 0))"
      "hash_table ?s = (\<lambda>h. remove1 b (hash_table s h))"
      using False by (auto simp: unhash_def upd_buf_def busy_def ident_def fun_eq_iff)
    have "hash_ok (hash_table ?s) (ident ?s)" unfolding f
      by (rule hash_ok_rename [OF hash_ok_remove [OF h] hash_ok_gone [OF h]]) simp
    then show ?thesis using ok f by (simp add: s1 cache_ok_def)
  qed
qed

subsection \<open>The reachable states\<close>

lemma flags_word_less: "flags_word F < 128"
  by (simp add: flags_word_def flag_bit_def)

lemma inval_dev_walk_skips: "128 \<le> dev \<Longrightarrow> inval_dev_walk dev bs s = Inr s"
proof (induction bs)
  case (Cons b bs)
  then have "flags_word (b_flags (buf s b)) \<noteq> dev" using flags_word_less [of "b_flags (buf s b)"] by linarith
  then show ?case using Cons by simp
qed simp

text \<open>
  The steps of the tasks between two sleeps, and of the disk. A task writes the contents of a
  buffer it holds and marks it, as the file system does before \<open>brelse\<close> or \<open>bwrite\<close>.
\<close>

inductive bstep :: "cache \<Rightarrow> cache \<Rightarrow> bool" where
  step_getblk: "dev \<noteq> NO_DEV \<Longrightarrow> getblk_pass t dev block s = Inr (s1, r) \<Longrightarrow> bstep s s1"
| step_slept: "bstep s (slept_buf b s)"
| step_bread: "b < NR_BUF \<Longrightarrow> bread_start t b s = Inr (s1, r) \<Longrightarrow> bstep s s1"
| step_bread_finish: "b < NR_BUF \<Longrightarrow> bread_finish t b s = (s1, r) \<Longrightarrow> bstep s s1"
| step_fill: "b < NR_BUF \<Longrightarrow> F \<subseteq> {B_DIRTY, B_DONE, B_ASY} \<Longrightarrow>
    bstep s (set_bflags b F (set_data b off d n s))"
| step_bwrite: "b < NR_BUF \<Longrightarrow> bwrite t b s = Inr (s1, r) \<Longrightarrow> bstep s s1"
| step_bwrite_finish: "b < NR_BUF \<Longrightarrow> bwrite_finish t b s = (s1, r) \<Longrightarrow> bstep s s1"
| step_request: "b < NR_BUF \<Longrightarrow> ide_rw_block t wr b s = Inr (s1, r) \<Longrightarrow> bstep s s1"
| step_brelse: "b < NR_BUF \<Longrightarrow> bstep s (brelse b s)"
| step_bsync: "b < NR_BUF \<Longrightarrow> bsync_visit t b s = Inr (s1, r) \<Longrightarrow> bstep s s1"
| step_inval: "inval_block t dev block s = Inr (s1, r) \<Longrightarrow> bstep s s1"
| step_disk: "ide_bottom s = Inr s1 \<Longrightarrow> bstep s s1"

definition cache_start :: "(nat \<Rightarrow> u8 list) \<Rightarrow> u8 list \<Rightarrow> cache \<Rightarrow> cache" where
  "cache_start pages ident_data s = buf_init pages (get_ide_info ident_data (ide_init s))"

inductive cache_reach :: "cache \<Rightarrow> bool" where
  reach_start: "cache_reach (cache_start pages ident_data s)"
| reach_step: "cache_reach s \<Longrightarrow> bstep s s1 \<Longrightarrow> cache_reach s1"

lemma cache_start_ok: "cache_ok (cache_start pages ident_data s)"
  by (auto simp: cache_ok_def cache_start_def buf_init_def get_ide_info_def ide_init_def Let_def free_ok_def hash_ok_def busy_def)

lemma bstep_ok: "bstep s s1 \<Longrightarrow> cache_ok s \<Longrightarrow> cache_ok s1"
proof (induction rule: bstep.induct)
  case (step_slept s b)
  then show ?case using same_index_ok [OF same_index_flags(4)] by simp
next
  case (step_fill b F s off d n)
  have "same_index s (set_data b off d n s)" unfolding set_data_def by (rule same_index_upd) simp_all
  moreover have "B_BUSY \<notin> F" using step_fill by auto
  ultimately have "same_index s (set_bflags b F (set_data b off d n s))" using same_index_trans same_index_flags(1) by blast
  then show ?case using same_index_ok step_fill by (simp add: set_data_def)
qed (blast intro: getblk_pass_ok bread_start_ok bread_finish_ok bwrite_ok bwrite_finish_ok brelse_ok bsync_visit_ok
    inval_block_ok ide_bottom_ok dest: ide_rw_block_ok)+

lemma cache_reach_ok: "cache_reach s \<Longrightarrow> cache_ok s"
  by (induction rule: cache_reach.induct) (auto simp: cache_start_ok bstep_ok)

end
