(* ===== verification/Block_Store.thy ===== *)
theory Block_Store
  imports Buffer
begin

text \<open>
  With no other task and a disk that completes every request before the task goes on, the cache
  is invisible: reading and writing blocks through it gives what a plain memory of blocks gives.
  \<open>drive\<close> are the interrupts of one request, one for each sector.
\<close>

section \<open>A disk that answers at once\<close>

fun drive :: "nat \<Rightarrow> cache \<Rightarrow> cache kres" where
  "drive 0 s = Inr s"
| "drive (Suc n) s = (if reqq s = [] then Inr s else kbind (ide_bottom s) (drive n))"

fun getblk_run :: "nat \<Rightarrow> nat \<Rightarrow> nat \<Rightarrow> nat \<Rightarrow> cache \<Rightarrow> (cache \<times> nat option) kres" where
  "getblk_run 0 t dev k s = Inr (s, None)"
| "getblk_run (Suc n) t dev k s =
     kbind (getblk_pass t dev k s) (\<lambda>(s1, r).
       case r of
         Ret b \<Rightarrow> Inr (s1, Some b)
       | Again \<Rightarrow> kbind (drive 2 s1) (getblk_run n t dev k)
       | _ \<Rightarrow> Inr (s1, None))"

text \<open>A task that sleeps for the transfer goes on only when the interrupt has taken it off the wait queue.\<close>

definition bread_wait :: "nat \<Rightarrow> nat \<Rightarrow> cache \<Rightarrow> (cache \<times> nat option) kres" where
  "bread_wait t b s =
     kbind (drive 2 s) (\<lambda>s1.
       if t \<in> set (b_wait (buf s1 b)) then Inr (s1, None)
       else case bread_finish t b s1 of (s2, Ret r) \<Rightarrow> Inr (s2, r) | (s2, _) \<Rightarrow> Inr (s2, None))"

definition bread_run :: "nat \<Rightarrow> nat \<Rightarrow> nat \<Rightarrow> nat \<Rightarrow> cache \<Rightarrow> (cache \<times> nat option) kres" where
  "bread_run n t dev k s =
     kbind (getblk_run n t dev k s) (\<lambda>(s1, g).
       case g of
         None \<Rightarrow> Inr (s1, None)
       | Some b \<Rightarrow> kbind (bread_start t b s1) (\<lambda>(s2, r).
           case r of Ret v \<Rightarrow> Inr (s2, v) | Sleep_buf _ \<Rightarrow> bread_wait t b s2 | _ \<Rightarrow> Inr (s2, None)))"

text \<open>The two uses of the cache: reading a block, and the delayed write described at \<open>brelse\<close>.\<close>

datatype blk_op = Rd nat nat | Wr nat nat "u8 list"

fun cache_op :: "nat \<Rightarrow> nat \<Rightarrow> blk_op \<Rightarrow> cache \<Rightarrow> (cache \<times> u8 list option) kres" where
  "cache_op n t (Rd dev k) s =
     kbind (bread_run n t dev k s) (\<lambda>(s1, g).
       case g of None \<Rightarrow> Inr (s1, None) | Some b \<Rightarrow> Inr (brelse b s1, Some (b_data (buf s1 b))))"
| "cache_op n t (Wr dev k d) s =
     kbind (getblk_run n t dev k s) (\<lambda>(s1, g).
       case g of
         None \<Rightarrow> Inr (s1, None)
       | Some b \<Rightarrow> Inr (brelse b (set_bflags b {B_DIRTY, B_DONE} (set_data b 0 d 1024 s1)), Some d))"

text \<open>The memory of blocks.\<close>

fun store_op :: "blk_op \<Rightarrow> (nat \<times> nat \<Rightarrow> u8 list) \<Rightarrow> (nat \<times> nat \<Rightarrow> u8 list) \<times> u8 list" where
  "store_op (Rd dev k) m = (m, m (dev, k))"
| "store_op (Wr dev k d) m = (m((dev, k) := d), d)"

subsection \<open>What a state of the cache stands for\<close>

definition hashed :: "cache \<Rightarrow> nat \<Rightarrow> bool" where
  "hashed s b \<longleftrightarrow> (\<exists>h. b \<in> set (hash_table s h))"

definition sec_at :: "cache \<Rightarrow> nat \<times> nat \<Rightarrow> nat" where
  "sec_at s p = sec_of s (fst p) (snd p)"

definition on_disk :: "cache \<Rightarrow> nat \<times> nat \<Rightarrow> u8 list" where
  "on_disk s p = disk s (sec_at s p) @ disk s (sec_at s p + 1)"

definition usable :: "nat set \<Rightarrow> cache \<Rightarrow> nat \<times> nat \<Rightarrow> bool" where
  "usable U s p \<longleftrightarrow> fst p \<in> U \<and> fst p \<noteq> NO_DEV \<and> valid_block s (fst p) (snd p)"

definition logical :: "nat set \<Rightarrow> cache \<Rightarrow> nat \<times> nat \<Rightarrow> u8 list" where
  "logical U s p =
     (if usable U s p then
        case getblk_from_hash (fst p) (snd p) s of
          Some b \<Rightarrow> if B_DONE \<in> b_flags (buf s b) then b_data (buf s b) else on_disk s p
        | None \<Rightarrow> on_disk s p
      else [])"

text \<open>The blocks of the devices in use lie in different sectors.\<close>

definition apart :: "nat set \<Rightarrow> cache \<Rightarrow> bool" where
  "apart U s \<longleftrightarrow> (\<forall>p q. usable U s p \<and> usable U s q \<and> p \<noteq> q \<longrightarrow> sec_at s p + 1 < sec_at s q \<or> sec_at s q + 1 < sec_at s p)"

definition buf_ok :: "nat set \<Rightarrow> cache \<Rightarrow> nat \<Rightarrow> bool" where
  "buf_ok U s b \<longleftrightarrow> length (b_data (buf s b)) = 1024 \<and> B_ASY \<notin> b_flags (buf s b) \<and> B_ERROR \<notin> b_flags (buf s b)
     \<and> (if hashed s b
        then usable U s (ident s b)
          \<and> (if B_DONE \<in> b_flags (buf s b)
             then B_DIRTY \<in> b_flags (buf s b) \<or> b_data (buf s b) = on_disk s (ident s b)
             else B_READ \<in> b_flags (buf s b) \<and> B_DIRTY \<notin> b_flags (buf s b))
        else B_DIRTY \<notin> b_flags (buf s b))"

definition ctl_ok :: "cache \<Rightarrow> bool" where
  "ctl_ok s \<longleftrightarrow> reqq s = [] \<and> 0 < req_free s \<and> length (ide_prdbuff s) = 1024
     \<and> (\<forall>n. cmd_answer s n = Accepted) \<and> (\<forall>k. length (disk s k) = 512)"

definition settled :: "nat set \<Rightarrow> nat set \<Rightarrow> cache \<Rightarrow> bool" where
  "settled U B s \<longleftrightarrow> cache_ok s \<and> ctl_ok s \<and> apart U s \<and> (\<forall>b < NR_BUF. buf_ok U s b \<and> (busy s b \<longleftrightarrow> b \<in> B))"

subsection \<open>One request\<close>

text \<open>Two states that differ only in what the controller counts.\<close>

definition agree :: "cache \<Rightarrow> cache \<Rightarrow> bool" where
  "agree s s1 \<longleftrightarrow> buf s1 = buf s \<and> bfreelist s1 = bfreelist s \<and> hash_table s1 = hash_table s \<and> dev_info s1 = dev_info s
     \<and> reqq s1 = reqq s \<and> req_free s1 = req_free s \<and> disk s1 = disk s \<and> cmd_answer s1 = cmd_answer s
     \<and> length (ide_prdbuff s1) = length (ide_prdbuff s)"

lemma agree_trans: "agree s s1 \<Longrightarrow> agree s1 s2 \<Longrightarrow> agree s s2"
  by (simp add: agree_def)

lemma agree_views:
  assumes "agree s s1"
  shows "cache_ok s1 = cache_ok s" "ctl_ok s1 = ctl_ok s" "valid_block s1 = valid_block s" "sec_at s1 = sec_at s"
    "busy s1 = busy s" "ident s1 = ident s" "hashed s1 = hashed s" "on_disk s1 = on_disk s"
    "getblk_from_hash d k s1 = getblk_from_hash d k s"
proof -
  note e = assms [unfolded agree_def]
  show i: "busy s1 = busy s" "ident s1 = ident s" using e by (simp_all add: busy_def ident_def fun_eq_iff)
  show v: "valid_block s1 = valid_block s" "sec_at s1 = sec_at s"
    using e by (auto simp: valid_block_def sec_at_def sec_of_def intro!: ext)
  show "cache_ok s1 = cache_ok s" "ctl_ok s1 = ctl_ok s" using e i by (simp_all add: cache_ok_def ctl_ok_def)
  show "hashed s1 = hashed s" "on_disk s1 = on_disk s" "getblk_from_hash d k s1 = getblk_from_hash d k s"
    using e v by (auto simp: hashed_def on_disk_def getblk_from_hash_def intro!: ext)
qed

lemma agree_settled:
  assumes "agree s s1"
  shows "settled U B s1 = settled U B s" "logical U s1 = logical U s"
proof -
  note v = agree_views [OF assms]
  have u: "usable U s1 = usable U s" by (rule ext) (simp add: usable_def v)
  have b: "buf s1 = buf s" using assms by (simp add: agree_def)
  show "settled U B s1 = settled U B s" by (simp add: settled_def apart_def buf_ok_def u b v)
  show "logical U s1 = logical U s" by (rule ext) (simp add: logical_def u b v split: option.split)
qed

definition iodone_h :: "buf_head \<Rightarrow> buf_head" where
  "iodone_h h =
     (if B_ASY \<in> b_flags h \<and> B_BUSY \<in> b_flags h
      then h\<lparr>b_flags := insert B_DONE (b_flags h) - {B_WANTED, B_BUSY, B_ASY}, b_wait := if B_WANTED \<in> b_flags h then [] else b_wait h\<rparr>
      else if B_ASY \<notin> b_flags h \<and> B_READ \<in> b_flags h
      then h\<lparr>b_flags := insert B_DONE (b_flags h) - {B_READ}, b_wait := []\<rparr>
      else h\<lparr>b_flags := insert B_DONE (b_flags h)\<rparr>)"

lemma iodone_fields:
  "buf (iodone b s) = (buf s)(b := iodone_h (buf s b))"
  "bfreelist (iodone b s) = (if B_ASY \<in> b_flags (buf s b) \<and> B_BUSY \<in> b_flags (buf s b) then bfreelist s @ [b] else bfreelist s)"
  "hash_table (iodone b s) = hash_table s" "dev_info (iodone b s) = dev_info s" "req_free (iodone b s) = req_free s"
  "disk (iodone b s) = disk s" "cmd_answer (iodone b s) = cmd_answer s" "ide_prdbuff (iodone b s) = ide_prdbuff s"
  by (auto simp: iodone_def iodone_h_def Let_def set_bflags_def clear_bflags_def wake_buf_def brelse_def upd_buf_def fun_eq_iff
      split: if_splits)

definition written :: "nat \<Rightarrow> u8 list \<Rightarrow> (nat \<Rightarrow> u8 list) \<Rightarrow> nat \<Rightarrow> u8 list" where
  "written n d dk = dk(n := take 512 d, n + 1 := take 512 (drop 512 d))"

lemma memcpy_at_all: "length d = n \<Longrightarrow> length x = n \<Longrightarrow> memcpy_at x 0 d n = d"
  by (simp add: memcpy_at_def)

lemmas drive_simps = ide_rw_block_def Let_def finish_cmd_def ide_cmd_def ide_bottom_def transfer_def ide_io_write_def
  free_cur_req_def sec_at_def ident_def numeral_2_eq_2

lemma write_request:
  assumes "ctl_ok s" and "length (b_data (buf s b)) = 1024" and "valid_block s (b_dev (buf s b)) (b_blocknr (buf s b))"
  shows "\<exists>s1 s2. ide_rw_block t True b s = Inr (s1, Ret True) \<and> drive 2 s1 = Inr s2
    \<and> agree (iodone b (s\<lparr>disk := written (sec_at s (ident s b)) (b_data (buf s b)) (disk s)\<rparr>)) s2"
proof (cases "dma_ide_flag s")
  case True
  then show ?thesis using assms
    by (simp add: drive_simps ctl_ok_def agree_def iodone_fields written_def memcpy_at_all)
next
  case False
  then show ?thesis using assms
    by (simp add: drive_simps ctl_ok_def agree_def iodone_fields written_def)
qed

lemma read_request:
  assumes "ctl_ok s" and "length (b_data (buf s b)) = 1024" and "valid_block s (b_dev (buf s b)) (b_blocknr (buf s b))"
    and "w = upd_buf b (\<lambda>h. h\<lparr>b_wait := b_wait h @ [t]\<rparr>)"
  shows "\<exists>s1 s2. ide_rw_block t False b s = Inr (s1, Ret True) \<and> b_flags (buf s1 b) = b_flags (buf s b) \<and> drive 2 (w s1) = Inr s2
    \<and> agree (iodone b (set_data b 0 (on_disk s (ident s b)) 1024 (w s))) s2"
proof (cases "dma_ide_flag s")
  case True
  then show ?thesis using assms
    by (simp add: drive_simps ctl_ok_def agree_def iodone_fields upd_buf_def set_data_def on_disk_def)
next
  case False
  then show ?thesis using assms
    by (simp add: drive_simps ctl_ok_def agree_def iodone_fields upd_buf_def set_data_def on_disk_def memcpy_at_def)
qed

subsection \<open>The logical contents\<close>

lemma lookup_iff:
  assumes "cache_ok s"
  shows "getblk_from_hash d k s = Some b \<longleftrightarrow> hashed s b \<and> ident s b = (d, k)"
proof -
  have "hash_ok (hash_table s) (ident s)" using assms by (simp add: cache_ok_def)
  then show ?thesis using getblk_from_hash_eq getblk_from_hash_Some by (metis hashed_def)
qed

lemma logical_hashed:
  assumes "cache_ok s" and "hashed s b" and "usable U s (ident s b)"
  shows "logical U s (ident s b) = (if B_DONE \<in> b_flags (buf s b) then b_data (buf s b) else on_disk s (ident s b))"
proof -
  have "getblk_from_hash (fst (ident s b)) (snd (ident s b)) s = Some b" using lookup_iff [OF assms(1)] assms(2) by simp
  then show ?thesis using assms(3) by (simp add: logical_def)
qed

lemma logical_disk:
  assumes ok: "cache_ok s" and "usable U s p"
    and "\<And>x. hashed s x \<Longrightarrow> ident s x = p \<Longrightarrow> B_DONE \<in> b_flags (buf s x) \<Longrightarrow> b_data (buf s x) = on_disk s p"
  shows "logical U s p = on_disk s p"
proof (cases "getblk_from_hash (fst p) (snd p) s")
  case None
  then show ?thesis using assms by (simp add: logical_def)
next
  case (Some x)
  then have "hashed s x" "ident s x = p" using lookup_iff [OF ok] by auto
  then show ?thesis using assms Some by (simp add: logical_def)
qed

lemma logical_same:
  assumes "cache_ok s" and "cache_ok s1" and "hashed s x" and "hashed s1 x" and "ident s x = p" and "ident s1 x = p"
    and "b_flags (buf s1 x) \<inter> {B_DONE} = b_flags (buf s x) \<inter> {B_DONE}" and "b_data (buf s1 x) = b_data (buf s x)"
    and "on_disk s1 p = on_disk s p" and "usable U s p" and "usable U s1 p"
  shows "logical U s1 p = logical U s p"
  using logical_hashed [of s x U] logical_hashed [of s1 x U] assms by auto

lemma logical_unusable: "\<not> usable U s p \<Longrightarrow> logical U s p = []"
  by (simp add: logical_def)

lemma settledD:
  assumes "settled U B s"
  shows "cache_ok s" "ctl_ok s" "apart U s" "b < NR_BUF \<Longrightarrow> buf_ok U s b" "b < NR_BUF \<Longrightarrow> busy s b \<longleftrightarrow> b \<in> B"
  using assms by (auto simp: settled_def)

lemma hashed_less: "cache_ok s \<Longrightarrow> hashed s b \<Longrightarrow> b < NR_BUF"
  by (auto simp: hashed_def cache_ok_def hash_ok_def)

lemma usable_cong: "dev_info s1 = dev_info s \<Longrightarrow> usable U s1 = usable U s"
  by (rule ext) (simp add: usable_def valid_block_def)

lemma sec_at_cong: "dev_info s1 = dev_info s \<Longrightarrow> sec_at s1 = sec_at s"
  by (rule ext) (simp add: sec_at_def sec_of_def)

lemma on_disk_cong: "dev_info s1 = dev_info s \<Longrightarrow> disk s1 = disk s \<Longrightarrow> on_disk s1 = on_disk s"
  by (drule sec_at_cong) (rule ext, simp add: on_disk_def)

text \<open>The marks for waiting and the lists of free buffers have no part in the contents.\<close>

lemma settled_same:
  assumes q: "settled U B s" and ok: "cache_ok s1" and c: "ctl_ok s1"
    and f: "hash_table s1 = hash_table s" "dev_info s1 = dev_info s" "disk s1 = disk s"
    and b: "\<And>b. b_data (buf s1 b) = b_data (buf s b)" "\<And>b. ident s1 b = ident s b"
    and fl: "\<And>b f. f \<noteq> B_BUSY \<Longrightarrow> f \<noteq> B_WANTED \<Longrightarrow> f \<noteq> B_ASY \<Longrightarrow> f \<in> b_flags (buf s1 b) \<longleftrightarrow> f \<in> b_flags (buf s b)"
    and asy: "\<And>b. B_ASY \<in> b_flags (buf s1 b) \<Longrightarrow> B_ASY \<in> b_flags (buf s b)"
    and bs: "\<And>b. b < NR_BUF \<Longrightarrow> busy s1 b \<longleftrightarrow> b \<in> B1"
  shows "settled U B1 s1 \<and> logical U s1 = logical U s"
proof
  note d = usable_cong [OF f(2)] sec_at_cong [OF f(2)] on_disk_cong [OF f(2,3)]
  have h: "hashed s1 = hashed s" by (rule ext) (simp add: hashed_def f)
  have "buf_ok U s1 x" if "x < NR_BUF" for x
    using settledD(4) [OF q that] asy [of x] by (auto simp: buf_ok_def d h b fl split: if_splits)
  moreover have "apart U s1" using settledD(3) [OF q] by (simp add: apart_def d)
  ultimately show "settled U B1 s1" using ok c bs by (simp add: settled_def)
  show "logical U s1 = logical U s"
  proof
    fix p
    have l: "getblk_from_hash (fst p) (snd p) s1 = getblk_from_hash (fst p) (snd p) s"
      using lookup_iff [OF ok] lookup_iff [OF settledD(1) [OF q]] by (metis b(2) h not_None_eq)
    show "logical U s1 p = logical U s p" by (simp add: logical_def d l b fl split: option.split)
  qed
qed

lemma notavail_settled:
  assumes "settled U {} s" and "b < NR_BUF"
  shows "settled U {b} (notavail b False s) \<and> logical U (notavail b False s) = logical U s"
proof (rule settled_same [OF assms(1)])
  show "cache_ok (notavail b False s)" using notavail_ok settledD(1) [OF assms(1)] .
  show "ctl_ok (notavail b False s)" using settledD(2) [OF assms(1)]
    by (simp add: ctl_ok_def notavail_def Let_def set_bflags_def upd_buf_def)
qed (use settledD(5) [OF assms(1)] in \<open>auto simp: notavail_fields notavail_def Let_def set_bflags_def upd_buf_def ident_def busy_def split: if_splits\<close>)

lemma brelse_settled:
  assumes "settled U {b} s" and "b < NR_BUF"
  shows "settled U {} (brelse b s) \<and> logical U (brelse b s) = logical U s"
proof (rule settled_same [OF assms(1)])
  show "cache_ok (brelse b s)" using brelse_ok settledD(1) [OF assms(1)] assms(2) .
  show "ctl_ok (brelse b s)" using settledD(2) [OF assms(1)]
    by (simp add: ctl_ok_def brelse_def Let_def clear_bflags_def wake_buf_def upd_buf_def)
  show "busy (brelse b s) x \<longleftrightarrow> x \<in> {}" if "x < NR_BUF" for x
    using settledD(5) [OF assms(1) that] by (simp add: brelse_fields)
qed (auto simp: brelse_def Let_def clear_bflags_def wake_buf_def upd_buf_def ident_def split: if_splits)

subsection \<open>Taking a buffer\<close>

lemma take_clean_rest:
  "buf (take_clean b dev k s) = (buf s)(b := (buf s b)\<lparr>b_dev := dev, b_blocknr := k, b_flags := {B_BUSY, B_READ}\<rparr>)"
  "dev_info (take_clean b dev k s) = dev_info s" "disk (take_clean b dev k s) = disk s"
  "ctl_ok (take_clean b dev k s) = ctl_ok s"
  by (auto simp: take_clean_def putblk_to_hash_def notavail_def unhash_def Let_def set_bflags_def upd_buf_def ctl_ok_def fun_eq_iff)

lemma take_clean_settled:
  assumes q: "settled U {} s" and none: "getblk_from_hash dev k s = None" and b: "b < NR_BUF"
    and cl: "B_DIRTY \<notin> b_flags (buf s b)" and us: "usable U s (dev, k)" and s1: "s1 = take_clean b dev k s"
  shows "settled U {b} s1 \<and> hashed s1 b \<and> logical U s1 = logical U s"
proof -
  have ok: "cache_ok s" and h: "hash_ok (hash_table s) (ident s)" using settledD(1) [OF q] by (auto simp: cache_ok_def)
  have dev: "dev \<noteq> NO_DEV" using us by (simp add: usable_def)
  have ok1: "cache_ok s1" using take_clean_ok [OF ok b dev none] s1 by simp
  note r = take_clean_rest [of b dev k s, folded s1] and f = take_clean_fields [OF h, of b dev k, folded s1]
  note d = usable_cong [OF r(2)] sec_at_cong [OF r(2)] on_disk_cong [OF r(2,3)]
  have hs: "hashed s1 x \<longleftrightarrow> x = b \<or> hashed s x" for x
  proof (cases "x = b")
    case False
    then have "x \<in> set (hash_table s1 i) \<longleftrightarrow> x \<in> set (hash_table s i)" for i by (simp add: f)
    then show ?thesis using False by (simp add: hashed_def)
  qed (auto simp: hashed_def f)
  have "buf_ok U s1 x" if "x < NR_BUF" for x
    using settledD(4) [OF q that] us by (auto simp: buf_ok_def hs d r f split: if_splits)
  moreover have "busy s1 x \<longleftrightarrow> x \<in> {b}" if "x < NR_BUF" for x using settledD(5) [OF q that] by (simp add: f)
  moreover have "apart U s1" using settledD(3) [OF q] by (simp add: apart_def d)
  ultimately have "settled U {b} s1" using ok1 settledD(2) [OF q] by (simp add: settled_def r)
  moreover have "logical U s1 p = logical U s p" for p
  proof (cases "usable U s p")
    case False
    then show ?thesis by (simp add: logical_unusable d)
  next
    case u: True
    show ?thesis
    proof (cases "\<exists>x. x \<noteq> b \<and> hashed s x \<and> ident s x = p")
      case True
      then obtain x where "x \<noteq> b" "hashed s x" "ident s x = p" by blast
      then show ?thesis by (intro logical_same [OF ok ok1, of x]) (auto simp: hs f r d u)
    next
      case False
      have "logical U s1 p = on_disk s1 p"
        by (rule logical_disk [OF ok1]) (use u False in \<open>auto simp: d hs f r split: if_splits\<close>)
      moreover have "logical U s p = on_disk s p"
        using False settledD(4) [OF q b] cl by (intro logical_disk [OF ok u]) (auto simp: buf_ok_def split: if_splits)
      ultimately show ?thesis by (simp add: d)
    qed
  qed
  ultimately show ?thesis using hs by blast
qed

subsection \<open>Writing a buffer back\<close>

lemma drive_ok: "drive n s = Inr s1 \<Longrightarrow> cache_ok s \<Longrightarrow> cache_ok s1"
  by (induction n arbitrary: s) (auto split: if_splits dest: ide_bottom_ok)

text \<open>The state after a dirty buffer was written and released.\<close>

definition cleaned :: "nat \<Rightarrow> cache \<Rightarrow> cache \<Rightarrow> bool" where
  "cleaned b s s1 \<longleftrightarrow> (\<forall>x. x \<noteq> b \<longrightarrow> buf s1 x = buf s x)
     \<and> ident s1 = ident s \<and> b_data (buf s1 b) = b_data (buf s b)
     \<and> b_flags (buf s1 b) = b_flags (buf s b) \<union> {B_DONE} - {B_READ, B_ERROR, B_DIRTY, B_WANTED, B_BUSY, B_ASY}
     \<and> (\<forall>x. hashed s1 x \<longleftrightarrow> x \<noteq> b \<and> hashed s x) \<and> dev_info s1 = dev_info s
     \<and> disk s1 = written (sec_at s (ident s b)) (b_data (buf s b)) (disk s)"

lemma write_back_fields:
  assumes "fst (ident s b) \<noteq> NO_DEV" and s1: "s1 = clear_bflags b {B_READ, B_ERROR, B_DIRTY} (write_back b s)"
  shows "buf s1 = (buf s)(b := (buf s b)\<lparr>b_flags := b_flags (buf s b) \<union> {B_BUSY, B_ASY} - {B_READ, B_ERROR, B_DIRTY}\<rparr>)"
    "hash_table s1 = (\<lambda>h. remove1 b (hash_table s h))" "dev_info s1 = dev_info s" "disk s1 = disk s" "ctl_ok s1 = ctl_ok s"
proof -
  have F: "insert B_BUSY (insert B_ASY (insert B_BUSY F) - {B_DIRTY}) - {B_READ, B_ERROR, B_DIRTY}
      = insert B_BUSY (insert B_ASY F) - {B_READ, B_ERROR, B_DIRTY}" for F by auto
  show "buf s1 = (buf s)(b := (buf s b)\<lparr>b_flags := b_flags (buf s b) \<union> {B_BUSY, B_ASY} - {B_READ, B_ERROR, B_DIRTY}\<rparr>)"
    "hash_table s1 = (\<lambda>h. remove1 b (hash_table s h))" "dev_info s1 = dev_info s" "disk s1 = disk s" "ctl_ok s1 = ctl_ok s"
  using assms
  by (auto simp: F write_back_def notavail_def unhash_def Let_def set_bflags_def clear_bflags_def upd_buf_def ctl_ok_def ident_def fun_eq_iff)
qed

lemma write_back_run:
  assumes c: "ctl_ok s" and ok: "cache_ok s" and b: "b < NR_BUF" and len: "length (b_data (buf s b)) = 1024"
    and us: "usable U s (ident s b)"
  shows "\<exists>s1 s2 w. bwrite_async t b (write_back b s) = Inr (s1, Ret w) \<and> drive 2 s1 = Inr s2 \<and> cache_ok s2 \<and> ctl_ok s2 \<and> cleaned b s s2"
proof -
  let ?s = "clear_bflags b {B_READ, B_ERROR, B_DIRTY} (write_back b s)"
  let ?v = "iodone b (?s\<lparr>disk := written (sec_at ?s (ident ?s b)) (b_data (buf ?s b)) (disk ?s)\<rparr>)"
  have h: "hash_ok (hash_table s) (ident s)" using ok by (simp add: cache_ok_def)
  have nd: "fst (ident s b) \<noteq> NO_DEV" and v: "valid_block s (b_dev (buf s b)) (b_blocknr (buf s b))"
    using us by (auto simp: usable_def ident_def)
  note f = write_back_fields [OF nd refl]
  have id: "ident ?s = ident s" by (auto simp: ident_def f fun_eq_iff)
  note d = sec_at_cong [OF f(3)]
  have "ctl_ok ?s" using c by (simp add: f)
  moreover have "valid_block ?s (b_dev (buf ?s b)) (b_blocknr (buf ?s b))" using v by (simp add: f valid_block_def)
  ultimately obtain s1 s2 where r: "ide_rw_block t True b ?s = Inr (s1, Ret True)" "drive 2 s1 = Inr s2" "agree ?v s2"
    using write_request [of ?s b t] len f(1) by auto
  have w: "bwrite_async t b (write_back b s) = Inr (s1, Ret True)" using r(1) by (simp add: bwrite_async_def)
  have "cache_ok s1" using bwrite_async_ok [OF w write_back_ok [OF ok] b] by simp
  then have ok2: "cache_ok s2" using drive_ok r(2) by blast
  have bs: "buf s2 = (buf ?s)(b := iodone_h (buf ?s b))" "hash_table s2 = hash_table ?s" "dev_info s2 = dev_info ?s"
    "disk s2 = written (sec_at s (ident s b)) (b_data (buf s b)) (disk s)"
    using r(3) id by (auto simp: agree_def iodone_fields d f)
  have "ctl_ok ?v" using \<open>ctl_ok ?s\<close> len by (simp add: ctl_ok_def iodone_fields written_def f)
  then have c2: "ctl_ok s2" using agree_views(2) [OF r(3)] by simp
  have hs: "hashed s2 x \<longleftrightarrow> x \<noteq> b \<and> hashed s x" for x
    using hash_ok_gone [OF h, of b] by (cases "x = b") (auto simp: hashed_def bs f)
  have "cleaned b s s2"
    unfolding cleaned_def
    by (intro conjI allI) (use hs in \<open>auto simp: bs f iodone_h_def ident_def fun_eq_iff\<close>)
  then show ?thesis using w r(2) ok2 c2 by blast
qed

lemma written_other:
  "n + 1 < m \<or> m + 1 < n \<Longrightarrow> written n d dk m = dk m \<and> written n d dk (m + 1) = dk (m + 1)"
  by (auto simp: written_def)

lemma written_block: "length d = 1024 \<Longrightarrow> written n d dk n @ written n d dk (n + 1) = d"
  by (simp add: written_def)

lemma cleaned_settled:
  assumes q: "settled U {} s" and b: "b < NR_BUF" and dt: "B_DIRTY \<in> b_flags (buf s b)"
    and cl: "cleaned b s s1" and ok1: "cache_ok s1" and c1: "ctl_ok s1"
  shows "settled U {} s1 \<and> logical U s1 = logical U s"
proof -
  note e = cl [unfolded cleaned_def]
  have ok: "cache_ok s" using settledD(1) [OF q] .
  have bo: "hashed s b" "usable U s (ident s b)" "B_DONE \<in> b_flags (buf s b)" "length (b_data (buf s b)) = 1024"
    using settledD(4) [OF q b] dt by (auto simp: buf_ok_def split: if_splits)
  have di: "dev_info s1 = dev_info s" using e by simp
  note d = usable_cong [OF di, of U] sec_at_cong [OF di]
  have od: "on_disk s1 p = (if p = ident s b then b_data (buf s b) else on_disk s p)" if "usable U s p" for p
  proof (cases "p = ident s b")
    case True
    then show ?thesis using e written_block [OF bo(4)] by (simp add: on_disk_def d)
  next
    case False
    then have "sec_at s (ident s b) + 1 < sec_at s p \<or> sec_at s p + 1 < sec_at s (ident s b)"
      using settledD(3) [OF q] bo(2) that unfolding apart_def by metis
    then show ?thesis using e False written_other by (simp add: on_disk_def d)
  qed
  have dif: "ident s x \<noteq> ident s b" if "x \<noteq> b" "hashed s x" for x
    using that bo(1) ok by (auto simp: hashed_def cache_ok_def hash_ok_def)
  have "buf_ok U s1 x" if x: "x < NR_BUF" for x
  proof (cases "x = b")
    case True
    then show ?thesis using e bo(4) by (auto simp: buf_ok_def)
  next
    case False
    then show ?thesis using settledD(4) [OF q x] e dif [OF False] od by (simp add: buf_ok_def d)
  qed
  moreover have "\<not> busy s1 x" if "x < NR_BUF" for x
    using e settledD(5) [OF q that] by (cases "x = b") (auto simp: busy_def)
  moreover have "apart U s1" using settledD(3) [OF q] by (simp add: apart_def d)
  ultimately have "settled U {} s1" using ok1 c1 by (simp add: settled_def)
  moreover have "logical U s1 p = logical U s p" if u: "usable U s p" for p
  proof (cases "\<exists>x. x \<noteq> b \<and> hashed s x \<and> ident s x = p")
    case True
    then obtain x where x: "x \<noteq> b" "hashed s x" "ident s x = p" by blast
    then show ?thesis using e od [OF u] dif [OF x(1,2)] u d by (intro logical_same [OF ok ok1, of x]) auto
  next
    case False
    have "logical U s1 p = on_disk s1 p"
      by (rule logical_disk [OF ok1]) (use u d e False in auto)
    moreover have "logical U s p = on_disk s1 p"
    proof (cases "p = ident s b")
      case True
      then show ?thesis using logical_hashed [OF ok bo(1,2)] bo(3) od [OF u] by simp
    next
      case ne: False
      then have "logical U s p = on_disk s p" using False by (intro logical_disk [OF ok u]) auto
      then show ?thesis using od [OF u] ne by simp
    qed
    ultimately show ?thesis by simp
  qed
  moreover have "logical U s1 p = logical U s p" if "\<not> usable U s p" for p
    using that d by (simp add: logical_unusable)
  ultimately show ?thesis by blast
qed

subsection \<open>The operations on a settled cache\<close>

definition ndirty :: "cache \<Rightarrow> nat" where
  "ndirty s = card {b. b < NR_BUF \<and> B_DIRTY \<in> b_flags (buf s b)}"

lemma ndirty_cleaned:
  assumes "cleaned b s s1" and "b < NR_BUF" and "B_DIRTY \<in> b_flags (buf s b)"
  shows "ndirty s1 < ndirty s"
proof -
  have "{x. x < NR_BUF \<and> B_DIRTY \<in> b_flags (buf s1 x)} = {x. x < NR_BUF \<and> B_DIRTY \<in> b_flags (buf s x)} - {b}"
    using assms(1) by (auto simp: cleaned_def)
  then show ?thesis using assms(2,3) by (simp add: ndirty_def card_Diff1_less del: card_Diff_insert)
qed

lemma ndirty_le: "ndirty s \<le> NR_BUF"
proof -
  have "ndirty s \<le> card {..<NR_BUF}" unfolding ndirty_def by (rule card_mono) auto
  then show ?thesis by simp
qed

text \<open>A buffer is got after at most as many rounds as there are dirty buffers.\<close>

lemma getblk_run_settled:
  assumes "settled U {} s" and "usable U s (dev, k)" and "ndirty s < n"
  shows "\<exists>s1 b. getblk_run n t dev k s = Inr (s1, Some b) \<and> settled U {b} s1 \<and> logical U s1 = logical U s
    \<and> dev_info s1 = dev_info s \<and> b < NR_BUF \<and> hashed s1 b \<and> ident s1 b = (dev, k)"
  using assms
proof (induction n arbitrary: s)
  case (Suc n)
  note q = Suc.prems(1) and us = Suc.prems(2)
  have ok: "cache_ok s" using settledD(1) [OF q] .
  have dev: "dev \<noteq> NO_DEV" using us by (simp add: usable_def)
  show ?case
  proof (cases "getblk_from_hash dev k s")
    case (Some b)
    have b: "b < NR_BUF" "\<not> busy s b" using cache_ok_hashed [OF ok Some] settledD(5) [OF q] by auto
    have "getblk_pass t dev k s = Inr (notavail b False s, Ret b)" using Some b(2) by (simp add: getblk_pass_def busy_def)
    moreover have "hashed (notavail b False s) b" "ident (notavail b False s) b = (dev, k)"
      using Some lookup_iff [OF ok] by (auto simp: notavail_fields hashed_def)
    moreover have "dev_info (notavail b False s) = dev_info s" by (simp add: notavail_def Let_def set_bflags_def upd_buf_def)
    ultimately show ?thesis using notavail_settled [OF q b(1)] b(1) by simp
  next
    case None
    have "0 \<in> set (bfreelist s)" using cache_ok_free [OF ok, of 0] settledD(5) [OF q, of 0] by (simp add: NR_BUF_def)
    then obtain b bs where fl: "bfreelist s = b # bs" by (cases "bfreelist s") auto
    have b: "b < NR_BUF" using cache_ok_free [OF ok, of b] fl by simp
    have fb: "b_flags (buf (notavail b True s) b) = insert B_BUSY (b_flags (buf s b))" "b_dev (buf (notavail b True s) b) = b_dev (buf s b)"
      by (simp_all add: notavail_def Let_def set_bflags_def upd_buf_def unhash_def)
    show ?thesis
    proof (cases "B_DIRTY \<in> b_flags (buf s b)")
      case False
      then have "getblk_pass t dev k s = Inr (take_clean b dev k s, Ret b)"
        using None fl fb by (simp add: getblk_pass_def take_clean_def Let_def)
      moreover have "hash_ok (hash_table s) (ident s)" using ok by (simp add: cache_ok_def)
      ultimately show ?thesis using take_clean_settled [OF q None b False us refl] b take_clean_rest(2)
        by (simp add: take_clean_fields)
    next
      case True
      have bo: "usable U s (ident s b)" "length (b_data (buf s b)) = 1024"
        using settledD(4) [OF q b] True by (auto simp: buf_ok_def split: if_splits)
      obtain s1 s2 w where r: "bwrite_async t b (write_back b s) = Inr (s1, Ret w)" "drive 2 s1 = Inr s2" "cache_ok s2" "ctl_ok s2" "cleaned b s s2"
        using write_back_run [OF settledD(2) [OF q] ok b bo(2,1)] by blast
      have "b_dev (buf s b) \<noteq> NO_DEV" using bo(1) by (simp add: usable_def ident_def)
      then have p: "getblk_pass t dev k s = Inr (s1, Again)"
        using None fl fb True r(1) by (simp add: getblk_pass_def write_back_def Let_def)
      have q2: "settled U {} s2" "logical U s2 = logical U s" using cleaned_settled [OF q b True r(5,3,4)] by auto
      have di: "dev_info s2 = dev_info s" using r(5) by (simp add: cleaned_def)
      have "usable U s2 (dev, k)" using us usable_cong [OF di] by simp
      moreover have "ndirty s2 < n" using ndirty_cleaned [OF r(5) b True] Suc.prems(3) by linarith
      ultimately show ?thesis using Suc.IH [OF q2(1)] p r(2) q2(2) di by simp
    qed
  qed
qed simp

text \<open>Reading into a buffer that is held.\<close>

definition read_state :: "nat \<Rightarrow> nat \<Rightarrow> cache \<Rightarrow> cache" where
  "read_state t b s = iodone b (set_data b 0 (on_disk s (ident s b)) 1024 (upd_buf b (\<lambda>h. h\<lparr>b_wait := b_wait h @ [t]\<rparr>) s))"

lemma read_state_fields:
  assumes "B_READ \<in> b_flags (buf s b)" and "B_ASY \<notin> b_flags (buf s b)" and "length (b_data (buf s b)) = 1024"
    and "length (on_disk s (ident s b)) = 1024" and s1: "s1 = read_state t b s"
  shows "buf s1 = (buf s)(b := (buf s b)\<lparr>b_data := on_disk s (ident s b), b_flags := insert B_DONE (b_flags (buf s b)) - {B_READ}, b_wait := []\<rparr>)"
    "bfreelist s1 = bfreelist s" "hash_table s1 = hash_table s" "dev_info s1 = dev_info s" "disk s1 = disk s" "ctl_ok s1 = ctl_ok s" "reqq s1 = reqq s"
  using assms
  by (auto simp: read_state_def iodone_fields set_data_def upd_buf_def iodone_h_def memcpy_at_def ctl_ok_def fun_eq_iff)

lemma read_state_settled:
  assumes q: "settled U {b} s" and hs: "hashed s b" and nd: "B_DONE \<notin> b_flags (buf s b)" and s1: "s1 = read_state t b s"
  shows "settled U {b} s1 \<and> logical U s1 = logical U s \<and> dev_info s1 = dev_info s
    \<and> b_wait (buf s1 b) = [] \<and> B_DONE \<in> b_flags (buf s1 b) \<and> B_ERROR \<notin> b_flags (buf s1 b) \<and> ident s1 b = ident s b \<and> hashed s1 b"
proof -
  have ok: "cache_ok s" using settledD(1) [OF q] .
  have b: "b < NR_BUF" using hashed_less [OF ok hs] .
  have bo: "usable U s (ident s b)" "length (b_data (buf s b)) = 1024" "B_READ \<in> b_flags (buf s b)" "B_ASY \<notin> b_flags (buf s b)"
    "B_ERROR \<notin> b_flags (buf s b)" using settledD(4) [OF q b] hs nd by (auto simp: buf_ok_def split: if_splits)
  have "length (on_disk s (ident s b)) = 1024" using settledD(2) [OF q] by (simp add: ctl_ok_def on_disk_def)
  note f = read_state_fields [OF bo(3,4,2) this s1]
  note d = usable_cong [OF f(4)] sec_at_cong [OF f(4)] on_disk_cong [OF f(4,5)]
  have i: "ident s1 = ident s" "busy s1 = busy s" by (auto simp: ident_def busy_def f fun_eq_iff)
  have h: "hashed s1 = hashed s" by (rule ext) (simp add: hashed_def f)
  have ok1: "cache_ok s1" using ok i f by (simp add: cache_ok_def)
  have "buf_ok U s1 x" if "x < NR_BUF" for x
    using settledD(4) [OF q that] bo hs \<open>length (on_disk s (ident s b)) = 1024\<close>
    by (cases "x = b") (auto simp: buf_ok_def d h i f split: if_splits)
  moreover have "apart U s1" using settledD(3) [OF q] by (simp add: apart_def d)
  ultimately have "settled U {b} s1" using q ok1 by (simp add: settled_def f i)
  moreover have "logical U s1 p = logical U s p" if u: "usable U s p" for p
  proof (cases "p = ident s b")
    case True
    then show ?thesis using logical_hashed [OF ok hs bo(1)] logical_hashed [OF ok1, of b U] nd bo(1) by (simp add: h hs i d f)
  next
    case False
    have "getblk_from_hash (fst p) (snd p) s1 = getblk_from_hash (fst p) (snd p) s"
      using lookup_iff [OF ok] lookup_iff [OF ok1] h i by (metis not_None_eq)
    moreover have "getblk_from_hash (fst p) (snd p) s \<noteq> Some b" using False lookup_iff [OF ok] by auto
    ultimately show ?thesis by (auto simp: logical_def d f split: option.split)
  qed
  moreover have "logical U s1 p = logical U s p" if "\<not> usable U s p" for p
    using that d by (simp add: logical_unusable)
  ultimately have "settled U {b} s1" "logical U s1 = logical U s" by (auto intro!: ext)
  then show ?thesis using bo(5) hs h i by (simp add: f)
qed

lemma bread_settled:
  assumes q: "settled U {b} s" and hs: "hashed s b"
  shows "\<exists>s1 r. bread_start t b s = Inr (s1, r) \<and> (\<exists>s2.
      (case r of Ret v \<Rightarrow> Inr (s1, v) | Sleep_buf _ \<Rightarrow> bread_wait t b s1 | _ \<Rightarrow> Inr (s1, None)) = Inr (s2, Some b)
      \<and> settled U {b} s2 \<and> logical U s2 = logical U s \<and> dev_info s2 = dev_info s \<and> b_data (buf s2 b) = logical U s (ident s b))"
proof -
  have ok: "cache_ok s" using settledD(1) [OF q] .
  have b: "b < NR_BUF" using hashed_less [OF ok hs] .
  have us: "usable U s (ident s b)" and len: "length (b_data (buf s b)) = 1024"
    using settledD(4) [OF q b] hs by (auto simp: buf_ok_def)
  show ?thesis
  proof (cases "B_DONE \<in> b_flags (buf s b)")
    case True
    then show ?thesis using q logical_hashed [OF ok hs us] by (simp add: bread_start_def)
  next
    case False
    let ?w = "upd_buf b (\<lambda>h. h\<lparr>b_wait := b_wait h @ [t]\<rparr>)"
    have "valid_block s (b_dev (buf s b)) (b_blocknr (buf s b))" using us by (simp add: usable_def ident_def)
    then obtain s1 s2 where r: "ide_rw_block t False b s = Inr (s1, Ret True)" "b_flags (buf s1 b) = b_flags (buf s b)"
      "drive 2 (?w s1) = Inr s2" "agree (read_state t b s) s2"
      using read_request [OF settledD(2) [OF q] len _ refl] unfolding read_state_def by blast
    let ?v = "read_state t b s"
    have v: "settled U {b} ?v" "logical U ?v = logical U s" "dev_info ?v = dev_info s" "b_wait (buf ?v b) = []"
      "B_DONE \<in> b_flags (buf ?v b)" "B_ERROR \<notin> b_flags (buf ?v b)" "ident ?v b = ident s b" "hashed ?v b"
      using read_state_settled [OF q hs False refl, of t] by auto
    have e: "buf s2 = buf ?v" "dev_info s2 = dev_info ?v" using r(4) by (simp_all add: agree_def)
    have us2: "usable U ?v (ident ?v b)" using us usable_cong [OF v(3), of U] v(7) by simp
    have "bread_start t b s = Inr (?w s1, Sleep_buf b)" using False r(1,2) by (simp add: bread_start_def bread_finish_def iowait_def)
    moreover have "bread_wait t b (?w s1) = Inr (s2, Some b)"
      using r(3) v(4-6) e by (simp add: bread_wait_def bread_finish_def iowait_def)
    moreover have "b_data (buf s2 b) = logical U s (ident s b)"
      using logical_hashed [OF settledD(1) [OF v(1)] v(8) us2] v(2,5,7) e(1) by simp
    ultimately show ?thesis using agree_settled [OF r(4), of U] v(1-3) e(2) by auto
  qed
qed

lemma fill_settled:
  assumes q: "settled U {b} s" and hs: "hashed s b" and d: "length d = 1024"
    and s1: "s1 = set_bflags b {B_DIRTY, B_DONE} (set_data b 0 d 1024 s)"
  shows "settled U {b} s1 \<and> logical U s1 = (logical U s)(ident s b := d) \<and> dev_info s1 = dev_info s"
proof -
  have ok: "cache_ok s" using settledD(1) [OF q] .
  have b: "b < NR_BUF" using hashed_less [OF ok hs] .
  have us: "usable U s (ident s b)" and len: "length (b_data (buf s b)) = 1024"
    using settledD(4) [OF q b] hs by (auto simp: buf_ok_def)
  have f: "buf s1 = (buf s)(b := (buf s b)\<lparr>b_data := d, b_flags := b_flags (buf s b) \<union> {B_DIRTY, B_DONE}\<rparr>)"
    "bfreelist s1 = bfreelist s" "hash_table s1 = hash_table s" "dev_info s1 = dev_info s" "disk s1 = disk s" "ctl_ok s1 = ctl_ok s" "reqq s1 = reqq s"
    using d len by (auto simp: s1 set_bflags_def set_data_def upd_buf_def memcpy_at_def ctl_ok_def fun_eq_iff)
  note c = usable_cong [OF f(4)] sec_at_cong [OF f(4)] on_disk_cong [OF f(4,5)]
  have i: "ident s1 = ident s" "busy s1 = busy s" by (auto simp: ident_def busy_def f fun_eq_iff)
  have h: "hashed s1 = hashed s" by (rule ext) (simp add: hashed_def f)
  have ok1: "cache_ok s1" using ok i f by (simp add: cache_ok_def)
  have "buf_ok U s1 x" if "x < NR_BUF" for x
    using settledD(4) [OF q that] us d hs by (cases "x = b") (auto simp: buf_ok_def c h i f split: if_splits)
  moreover have "apart U s1" using settledD(3) [OF q] by (simp add: apart_def c)
  ultimately have "settled U {b} s1" using q ok1 by (simp add: settled_def f i)
  moreover have "logical U s1 p = ((logical U s)(ident s b := d)) p" for p
  proof (cases "p = ident s b")
    case True
    then show ?thesis using logical_hashed [OF ok1, of b U] us by (simp add: h hs i c f)
  next
    case False
    have "getblk_from_hash (fst p) (snd p) s1 = getblk_from_hash (fst p) (snd p) s"
      using lookup_iff [OF ok] lookup_iff [OF ok1] h i by (metis not_None_eq)
    moreover have "getblk_from_hash (fst p) (snd p) s \<noteq> Some b" using False lookup_iff [OF ok] by auto
    ultimately show ?thesis using False by (auto simp: logical_def c f split: option.split)
  qed
  ultimately show ?thesis using f(4) by (auto intro!: ext)
qed

subsection \<open>The cache implements the memory of blocks\<close>

fun op_ok :: "nat set \<Rightarrow> cache \<Rightarrow> blk_op \<Rightarrow> bool" where
  "op_ok U s (Rd dev k) = usable U s (dev, k)"
| "op_ok U s (Wr dev k d) = (usable U s (dev, k) \<and> length d = 1024)"

lemma cache_op_store:
  assumes q: "settled U {} s" and o: "op_ok U s x" and n: "NR_BUF < n"
  shows "\<exists>s1 v. cache_op n t x s = Inr (s1, Some v) \<and> settled U {} s1 \<and> dev_info s1 = dev_info s
    \<and> store_op x (logical U s) = (logical U s1, v)"
proof -
  have nd: "ndirty s < n" using ndirty_le [of s] n by linarith
  have di: "dev_info (brelse b s) = dev_info s" for b s
    by (simp add: brelse_def Let_def clear_bflags_def wake_buf_def upd_buf_def)
  show ?thesis
  proof (cases x)
    case (Rd dev k)
    then obtain s1 b where g: "getblk_run n t dev k s = Inr (s1, Some b)" "settled U {b} s1" "logical U s1 = logical U s"
      "dev_info s1 = dev_info s" "b < NR_BUF" "hashed s1 b" "ident s1 b = (dev, k)"
      using getblk_run_settled [OF q _ nd] o by (metis op_ok.simps(1))
    obtain s2 r s3 where r: "bread_start t b s1 = Inr (s2, r)"
      "(case r of Ret v \<Rightarrow> Inr (s2, v) | Sleep_buf _ \<Rightarrow> bread_wait t b s2 | _ \<Rightarrow> Inr (s2, None)) = Inr (s3, Some b)"
      "settled U {b} s3" "logical U s3 = logical U s1" "dev_info s3 = dev_info s1" "b_data (buf s3 b) = logical U s1 (ident s1 b)"
      using bread_settled [OF g(2,6)] by blast
    have "cache_op n t x s = Inr (brelse b s3, Some (logical U s (dev, k)))"
      using Rd g(1,3,7) r(1,2,6) by (simp add: bread_run_def)
    moreover have "store_op x (logical U s) = (logical U (brelse b s3), logical U s (dev, k))" "dev_info (brelse b s3) = dev_info s"
      using brelse_settled [OF r(3) g(5)] r(4,5) g(3,4) di Rd by simp_all
    ultimately show ?thesis using brelse_settled [OF r(3) g(5)] by blast
  next
    case (Wr dev k d)
    then obtain s1 b where g: "getblk_run n t dev k s = Inr (s1, Some b)" "settled U {b} s1" "logical U s1 = logical U s"
      "dev_info s1 = dev_info s" "b < NR_BUF" "hashed s1 b" "ident s1 b = (dev, k)"
      using getblk_run_settled [OF q _ nd] o by (metis op_ok.simps(2))
    let ?s2 = "set_bflags b {B_DIRTY, B_DONE} (set_data b 0 d 1024 s1)"
    have f: "settled U {b} ?s2" "logical U ?s2 = (logical U s1)(ident s1 b := d)" "dev_info ?s2 = dev_info s1"
      using fill_settled [OF g(2,6) _ refl] o Wr by auto
    have "cache_op n t x s = Inr (brelse b ?s2, Some d)" using Wr g(1) by simp
    moreover have "store_op x (logical U s) = (logical U (brelse b ?s2), d)" "dev_info (brelse b ?s2) = dev_info s"
      using brelse_settled [OF f(1) g(5)] f(2,3) g(3,4,7) di Wr by simp_all
    ultimately show ?thesis using brelse_settled [OF f(1) g(5)] by blast
  qed
qed

subsection \<open>Sequences of operations\<close>

fun run_ops :: "('o \<Rightarrow> 's \<Rightarrow> ('s \<times> 'v) kres) \<Rightarrow> 'o list \<Rightarrow> 's \<Rightarrow> ('s \<times> 'v list) kres" where
  "run_ops f [] s = Inr (s, [])"
| "run_ops f (x # xs) s = kbind (f x s) (\<lambda>(s1, v). kbind (run_ops f xs s1) (\<lambda>(s2, vs). Inr (s2, v # vs)))"

fun run_spec :: "('o \<Rightarrow> 'a \<Rightarrow> 'a \<times> 'v) \<Rightarrow> 'o list \<Rightarrow> 'a \<Rightarrow> 'a \<times> 'v list" where
  "run_spec g [] a = (a, [])"
| "run_spec g (x # xs) a = (case g x a of (a1, v) \<Rightarrow> case run_spec g xs a1 of (a2, vs) \<Rightarrow> (a2, v # vs))"

text \<open>
  The contract of a component that implements a specification operation by operation: an
  operation whose precondition holds yields the result of the specification and keeps the invariant and
  the preconditions of the others.
\<close>

locale op_refinement =
  fixes inv_of :: "'s \<Rightarrow> bool" and view :: "'s \<Rightarrow> 'a" and pre :: "'s \<Rightarrow> 'o \<Rightarrow> bool"
    and impl :: "'o \<Rightarrow> 's \<Rightarrow> ('s \<times> 'v option) kres" and spec :: "'o \<Rightarrow> 'a \<Rightarrow> 'a \<times> 'v"
  assumes step: "inv_of s \<Longrightarrow> pre s x \<Longrightarrow>
      \<exists>s1 v. impl x s = Inr (s1, Some v) \<and> inv_of s1 \<and> pre s1 = pre s \<and> spec x (view s) = (view s1, v)"
begin

lemma run_refines:
  assumes "inv_of s" and "\<forall>x \<in> set xs. pre s x"
  shows "\<exists>s1. run_ops impl xs s = Inr (s1, map Some (snd (run_spec spec xs (view s)))) \<and> inv_of s1
    \<and> view s1 = fst (run_spec spec xs (view s))"
  using assms
proof (induction xs arbitrary: s)
  case (Cons x xs)
  obtain s1 v where 1: "impl x s = Inr (s1, Some v)" "inv_of s1" "pre s1 = pre s" "spec x (view s) = (view s1, v)"
    using step [of s x] Cons.prems by auto
  obtain s2 where "run_ops impl xs s1 = Inr (s2, map Some (snd (run_spec spec xs (view s1))))" "inv_of s2"
    "view s2 = fst (run_spec spec xs (view s1))" using Cons.IH [OF 1(2)] Cons.prems(2) 1(3) by auto
  then show ?case using 1 by (simp add: split_beta)
qed simp

end

interpretation block_cache: op_refinement "settled U {}" "logical U" "op_ok U" "cache_op (Suc NR_BUF) t" store_op for U t
proof
  fix s x
  assume a: "settled U {} s" "op_ok U s x"
  then obtain s1 v where r: "cache_op (Suc NR_BUF) t x s = Inr (s1, Some v)" "settled U {} s1" "dev_info s1 = dev_info s"
    "store_op x (logical U s) = (logical U s1, v)" using cache_op_store [OF a, of "Suc NR_BUF" t] by auto
  have "op_ok U s1 y = op_ok U s y" for y by (cases y) (simp_all add: usable_cong [OF r(3)])
  then show "\<exists>s1 v. cache_op (Suc NR_BUF) t x s = Inr (s1, Some v) \<and> settled U {} s1 \<and> op_ok U s1 = op_ok U s
      \<and> store_op x (logical U s) = (logical U s1, v)" using r by blast
qed

text \<open>The cache is settled when the system has started.\<close>

lemma cache_start_fields:
  "buf (cache_start pages idt s) = (\<lambda>i. \<lparr>b_dev = NO_DEV, b_blocknr = 0, b_flags = {}, b_count = 0, b_wait = [], b_data = pages i\<rparr>)"
  "bfreelist (cache_start pages idt s) = rev [0..<NR_BUF]" "hash_table (cache_start pages idt s) = (\<lambda>_. [])"
  "reqq (cache_start pages idt s) = []" "req_free (cache_start pages idt s) = 1023"
  "dev_info (cache_start pages idt s) = dev_info (get_ide_info idt s)" "disk (cache_start pages idt s) = disk s"
  "ide_prdbuff (cache_start pages idt s) = ide_prdbuff s" "cmd_answer (cache_start pages idt s) = cmd_answer s"
  by (simp_all add: cache_start_def buf_init_def get_ide_info_def ide_init_def Let_def REQQ_SIZE_def)

lemma cache_start_settled:
  assumes "\<And>i. length (pages i) = 1024" and "\<And>k. length (disk s k) = 512" and "length (ide_prdbuff s) = 1024"
    and "\<And>n. cmd_answer s n = Accepted" and "apart U (cache_start pages idt s)"
  shows "settled U {} (cache_start pages idt s)"
  using assms cache_start_ok [of pages idt s]
  by (simp add: settled_def ctl_ok_def buf_ok_def busy_def hashed_def cache_start_fields)

lemma cache_start_logical: "logical U (cache_start pages idt s) p =
    (if usable U (cache_start pages idt s) p then on_disk (cache_start pages idt s) p else [])"
  by (simp add: logical_def getblk_from_hash_def cache_start_fields)

section \<open>Properties\<close>


definition demo_ident :: "u8 list" where
  "demo_ident = (replicate 512 0)[120 := 16]"

definition demo_start :: cache where
  "demo_start = cache_start (\<lambda>_. replicate 1024 0) demo_ident
     \<lparr>buf = \<lambda>_. \<lparr>b_dev = 0, b_blocknr = 0, b_flags = {}, b_count = 0, b_wait = [], b_data = []\<rparr>, bfreelist = [],
      hash_table = \<lambda>_. [], buf_wait = [], reqq = [], req_free = 0, req_wait = [],
      dev_info = replicate 5 \<lparr>di_flag = False, di_start = 0, di_num = 0\<rparr>, first = False, errs = 0, need_reset = False,
      dma_ide_flag = False, ide_prdbuff = replicate 1024 0, disk = \<lambda>_. replicate 512 0,
      cmd_answer = \<lambda>_. Accepted, ncmd = 0, reset_answer = \<lambda>_. True, nreset = 0\<rparr>"

lemma demo_free: "bfreelist demo_start = 16383 # rev [0..<16383]"
proof -
  have n: "NR_BUF = Suc 16383" by (simp add: NR_BUF_def)
  have "[0..<NR_BUF] = [0..<16383] @ [16383]" unfolding n by (rule upt_Suc_append) simp
  then show ?thesis by (simp add: demo_start_def cache_start_fields)
qed

lemma demo_fields:
  "buf demo_start = (\<lambda>i. \<lparr>b_dev = NO_DEV, b_blocknr = 0, b_flags = {}, b_count = 0, b_wait = [], b_data = replicate 1024 0\<rparr>)"
  "hash_table demo_start = (\<lambda>_. [])" "disk demo_start = (\<lambda>_. replicate 512 0)" "cmd_answer demo_start = (\<lambda>_. Accepted)"
  by (simp_all add: demo_start_def cache_start_fields)

lemma demo_dev: "dev_info demo_start ! 0 = \<lparr>di_flag = True, di_start = 0, di_num = 16\<rparr>"
  by (simp add: demo_start_def cache_start_fields get_ide_info_def Let_def le32_def demo_ident_def)

lemma demo_usable: "usable {768} demo_start (d, k) \<longleftrightarrow> d = 768 \<and> k \<le> 7"
  using demo_dev by (auto simp: usable_def valid_block_def NO_DEV_def)

lemma demo_sec: "sec_at demo_start (768, k) = 2 * k"
  using demo_dev by (simp add: sec_at_def sec_of_def)

lemma demo_settled: "settled {768} {} demo_start"
proof -
  have "apart {768} demo_start" by (auto simp: apart_def demo_usable demo_sec)
  then show ?thesis unfolding demo_start_def by (intro cache_start_settled) simp_all
qed


text \<open>
  C1: With a disk that completes every request before the task goes on, any sequence of block reads and delayed writes
  through the cache gives the results of a plain memory of blocks, through hits, misses, reuse of clean
  buffers and write-back of dirty ones, by both ways of transfer; \<open>getblk\<close> needs at most one round for each
  dirty buffer. What the memory holds is the data of the cached buffer or else the contents of the disk.
\<close>

theorem block_cache_transparent:
  assumes "settled U {} s" and "\<forall>x \<in> set ops. op_ok U s x"
  shows "\<exists>s1. run_ops (cache_op (Suc NR_BUF) t) ops s = Inr (s1, map Some (snd (run_spec store_op ops (logical U s))))
    \<and> settled U {} s1 \<and> logical U s1 = fst (run_spec store_op ops (logical U s))"
  using block_cache.run_refines [OF assms] .

lemma block_cache_transparent_witness:
  "\<exists>s1. run_ops (cache_op (Suc NR_BUF) 1) [Wr 768 3 (replicate 1024 7), Rd 768 4, Rd 768 3] demo_start
     = Inr (s1, [Some (replicate 1024 7), Some (replicate 1024 0), Some (replicate 1024 7)]) \<and> settled {768} {} s1"
proof -
  let ?ops = "[Wr 768 3 (replicate 1024 7), Rd 768 4, Rd 768 3]"
  have "logical {768} demo_start (768, 4) = on_disk demo_start (768, 4)"
    using cache_start_logical demo_usable by (simp add: demo_start_def)
  moreover have "on_disk demo_start (768, 4) = replicate 1024 0"
    by (simp add: on_disk_def demo_fields flip: replicate_add)
  moreover have "\<forall>x \<in> set ?ops. op_ok {768} demo_start x" by (simp add: demo_usable)
  ultimately show ?thesis using block_cache_transparent [OF demo_settled, of ?ops 1] by auto
qed

text \<open>
  C38: A synchronous \<open>bwrite\<close> of a buffer that holds valid data does not wait: \<open>B_DONE\<close> is still set from the
  last transfer, so with another request in progress it returns and puts the buffer on the free list while its own
  request is queued and nothing is on the disk.
\<close>

theorem bwrite_releases_early:
  assumes "B_DONE \<in> b_flags (buf s b)" and "B_BUSY \<in> b_flags (buf s b)" and "B_ASY \<notin> b_flags (buf s b)"
    and "valid_block s (b_dev (buf s b)) (b_blocknr (buf s b))" and "reqq s \<noteq> []" and "0 < req_free s"
  shows "\<exists>s1. bwrite t b s = Inr (s1, Ret ()) \<and> B_BUSY \<notin> b_flags (buf s1 b) \<and> b \<in> set (bfreelist s1) \<and> disk s1 = disk s
    \<and> (\<exists>r \<in> set (reqq s1). rq_buf r = b \<and> rq_write r \<and> rq_nsec r = 2)"
  using assms
  by (simp add: bwrite_def bwrite_async_def ide_rw_block_def Let_def clear_bflags_def upd_buf_def valid_block_def bwrite_finish_def
      iowait_def brelse_def wake_buf_def set_req_insert)

definition demo_busy :: cache where
  "demo_busy = demo_start\<lparr>buf := (buf demo_start)(5 := \<lparr>b_dev = 768, b_blocknr = 3, b_flags = {B_BUSY, B_DONE}, b_count = 0, b_wait = [], b_data = replicate 1024 7\<rparr>),
     reqq := [\<lparr>rq_sec = 0, rq_nsec = 2, rq_write = False, rq_buf = 6\<rparr>], req_free := 9\<rparr>"

lemma demo_busy_valid: "valid_block demo_busy 768 3"
  using demo_dev by (simp add: valid_block_def demo_busy_def)

lemma bwrite_releases_early_witness:
  "\<exists>s1. bwrite 1 5 demo_busy = Inr (s1, Ret ()) \<and> 5 \<in> set (bfreelist s1) \<and> (\<exists>r \<in> set (reqq s1). rq_buf r = 5 \<and> rq_write r)"
proof -
  have "buf demo_busy 5 = \<lparr>b_dev = 768, b_blocknr = 3, b_flags = {B_BUSY, B_DONE}, b_count = 0, b_wait = [], b_data = replicate 1024 7\<rparr>"
    "reqq demo_busy \<noteq> []" "0 < req_free demo_busy" by (simp_all add: demo_busy_def)
  then show ?thesis using bwrite_releases_early [of demo_busy 5 1] demo_busy_valid by auto
qed

text \<open>
  C39: \<open>inval_dev\<close> invalidates no buffer of any device with a major number: it looks for the device number in
  the flags of the buffers.
\<close>

theorem inval_dev_keeps_all:
  assumes "256 \<le> dev"
  shows "inval_dev dev s = Inr s"
  unfolding inval_dev_def by (rule inval_dev_walk_skips) (use assms in linarith)

lemma inval_dev_keeps_all_witness: "inval_dev 768 demo_start = Inr demo_start"
  using inval_dev_keeps_all [of 768 demo_start] by simp


definition demo_race :: cache where
  "demo_race = demo_start\<lparr>buf := (buf demo_start)
       (5 := \<lparr>b_dev = 768, b_blocknr = 3, b_flags = {B_BUSY, B_READ}, b_count = 0, b_wait = [], b_data = replicate 1024 0\<rparr>,
        7 := \<lparr>b_dev = 768, b_blocknr = 3, b_flags = {B_BUSY, B_ASY}, b_count = 0, b_wait = [], b_data = replicate 1024 9\<rparr>),
     reqq := [\<lparr>rq_sec = 0, rq_nsec = 2, rq_write = False, rq_buf = 6\<rparr>, \<lparr>rq_sec = 6, rq_nsec = 2, rq_write = True, rq_buf = 7\<rparr>],
     req_free := 9\<rparr>"


end
