(* ===== verification/Spec2Isabelle.thy ===== *)
theory Spec2Isabelle
  imports Klist Ring_Buffer Super Page_Alloc Vsprintf Bottom Process Route Timer Block_Store
begin

text \<open>
  Verification of the kernel \<open>cnix\<close>, a small operating system for the i386 written in C.

  \<^bold>\<open>The program.\<close> Interrupts and system calls enter the kernel in \<open>kernel/system.S\<close>. An interrupt
  handler does the urgent part of its work and raises a bottom half (\<open>kernel/bottom.c\<close>), which runs
  before the return from the outermost interrupt. The clock interrupt (\<open>driver/timer.c\<close>) charges the
  running task, and its bottom half runs the timers and asks for a reschedule when the time slice is
  used up. The scheduler (\<open>kernel/sched.c\<close>) chooses among the runnable tasks; tasks sleep in wait
  queues and are woken by events and signals (\<open>kernel/signal.c\<close>). Processes come from \<open>fork\<close>
  (\<open>kernel/fork.c\<close>) and end with \<open>exit\<close>, to be collected by \<open>wait\<close> (\<open>kernel/exec.c\<close>). Page frames come from a
  buddy allocator (\<open>mm/page_alloc.c\<close>). The file system is a variant of Minix with two bitmaps per
  device (\<open>fs/super.c\<close>). The network stack has interfaces, a route table, and helpers for checksums, ports and
  buffers (\<open>net/\<close>). All queues are doubly linked lists (\<open>include/cnix/list.h\<close>).

  \<^bold>\<open>The theories.\<close> Each models one part, in the order of its source file, with the names of the source.

  \<^item> \<open>Cnix_Prelude\<close>: word types, results (\<open>kres\<close>: \<open>Inl DIE\<close> is a stop of the machine by the
    code itself, \<open>Inl Overrun\<close> an access outside an object), error numbers, copies between buffers.
  \<^item> \<open>Number_Pool\<close>: the contract of an allocator of numbers, a locale; interpreted by the page
    allocator and by the bitmaps.
  \<^item> \<open>Klist\<close>: \<open>list.h\<close> on a heap of links. The operations refine operations on
    sequences, which is why the later theories model a list as the sequence of its nodes.
  \<^item> \<open>Ring_Buffer\<close>: \<open>net/ringbuff.c\<close>, refined by a byte stream.
  \<^item> \<open>Super\<close>: \<open>fs/super.c\<close>: super blocks, the inode and zone bitmaps.
  \<^item> \<open>Page_Alloc\<close>: \<open>mm/page_alloc.c\<close> and the start-up in \<open>mm/init.c\<close>: the buddy lists on the
    heap of links, the bitmaps as words, the invariant \<open>buddy_ok\<close> that ties them to the set of free frames.
  \<^item> \<open>Vsprintf\<close>: \<open>kernel/vsprintf.c\<close>, formatted output.
  \<^item> \<open>Bottom\<close>: \<open>kernel/bottom.c\<close>, the table and the masks of the bottom halves.
  \<^item> \<open>Sched\<close>, \<open>Signal\<close>, \<open>Process\<close>: \<open>kernel/sched.c\<close>, \<open>kernel/signal.c\<close>, the signal calls of
    \<open>kernel/syscall.c\<close>, \<open>kernel/fork.c\<close> and the exit and wait part of \<open>kernel/exec.c\<close>. One record
    (\<open>sched\<close>) holds the task table and the queues. A function that calls \<open>schedule\<close> in the
    middle is split there, and \<open>Process\<close> interleaves the parts in a transition system; its invariant and
    progress hold in every reachable state.
  \<^item> \<open>Timer\<close>: \<open>driver/timer.c\<close>: clock interrupt, timers, alarms, calendar.
  \<^item> \<open>Net_Common\<close>, \<open>Route\<close>: \<open>net/common.c\<close>, \<open>net/netif.c\<close>, \<open>net/route.c\<close>, \<open>net/loopback.c\<close> and parts of
    \<open>net/ether.c\<close>.

  \<^bold>\<open>Loops and bounds.\<close> A loop with a bound in the source is a recursive function with a measure. A
  loop that may not end (\<open>schedule\<close> with no positive priority, a bottom half raised again and again, the walk
  through a list whose nodes the body unlinks, the folding of a checksum) is a \<open>partial_function\<close>
  whose value \<open>None\<close> is not to end, and the theorems state when the value is not \<open>None\<close>. No fuel is used.

  \<^bold>\<open>What the theorems show.\<close> Most state that the code does what it is for, on all branches, from
  an invariant the operations keep. Some (of the kind \<open>error\<close>) state exactly what the code does where it
  departs from its purpose; these are listed as findings with the source lines.

  \<^bold>\<open>Not modelled.\<close> The boot code and the assembler entry points, and device drivers whose work is port
  input and output (disk, screen, keyboard, network card), have no state that could be
  stated without a model of the hardware. The user programs under \<open>test/\<close> and the tools
  under \<open>tools/\<close> are not part of the kernel. Of the rest the largest parts without a model are paging
  and \<open>execve\<close>, the protocols above IP, and the terminals.
\<close>

end
